(* ===== verification/Prelude.thy ===== *)
theory Prelude
  imports Complex_Main "HOL-Library.Word" "HOL-Library.Monad_Syntax" "HOL-Library.Signed_Division"
begin

text \<open>
  What every component of the benchmark suite shares: checked signed arithmetic of C
  (a result outside the type is undefined behaviour, here None), the counting loop with
  its early exits, and the visible outcome of a program: the calls that print, in order,
  and how the program ended.
\<close>

named_theorems c_arith \<open>signed arithmetic that stays in range\<close>

section \<open>Signed integers of C\<close>

text \<open>
  A \<open>long\<close> (and \<open>long long\<close>, \<open>time_t\<close>) has 64 bits and an \<open>int\<close> 32. The model keeps
  the mathematical value and makes overflow, which C leaves undefined, the value None.
\<close>

definition long_ok :: "int \<Rightarrow> bool" where
  "long_ok x \<longleftrightarrow> - (2 ^ 63) \<le> x \<and> x < 2 ^ 63"

definition int_ok :: "int \<Rightarrow> bool" where
  "int_ok x \<longleftrightarrow> - (2 ^ 31) \<le> x \<and> x < 2 ^ 31"

definition chk_long :: "int \<Rightarrow> int option" where
  "chk_long x = (if long_ok x then Some x else None)"

definition ladd :: "int \<Rightarrow> int \<Rightarrow> int option" where
  "ladd a b = chk_long (a + b)"

definition lsub :: "int \<Rightarrow> int \<Rightarrow> int option" where
  "lsub a b = chk_long (a - b)"

definition lmul :: "int \<Rightarrow> int \<Rightarrow> int option" where
  "lmul a b = chk_long (a * b)"

definition lneg :: "int \<Rightarrow> int option" where
  "lneg a = chk_long (- a)"

lemma chk_long_ok [c_arith]: "long_ok x \<Longrightarrow> chk_long x = Some x"
  by (simp add: chk_long_def)

lemma chk_long_Some_iff: "chk_long x = Some y \<longleftrightarrow> y = x \<and> long_ok x"
  by (auto simp: chk_long_def)

lemma ladd_ok [c_arith]: "long_ok (a + b) \<Longrightarrow> ladd a b = Some (a + b)"
  by (simp add: ladd_def chk_long_ok)

lemma lsub_ok [c_arith]: "long_ok (a - b) \<Longrightarrow> lsub a b = Some (a - b)"
  by (simp add: lsub_def chk_long_ok)

lemma lmul_ok [c_arith]: "long_ok (a * b) \<Longrightarrow> lmul a b = Some (a * b)"
  by (simp add: lmul_def chk_long_ok)

lemma lneg_ok [c_arith]: "long_ok (- a) \<Longrightarrow> lneg a = Some (- a)"
  by (simp add: lneg_def chk_long_ok)

lemma checked_Some_iff:
  "ladd a b = Some c \<longleftrightarrow> c = a + b \<and> long_ok (a + b)"
  "lsub a b = Some c \<longleftrightarrow> c = a - b \<and> long_ok (a - b)"
  "lmul a b = Some c \<longleftrightarrow> c = a * b \<and> long_ok (a * b)"
  "lneg a = Some c \<longleftrightarrow> c = - a \<and> long_ok (- a)"
  by (auto simp: ladd_def lsub_def lmul_def lneg_def chk_long_Some_iff)

text \<open>Division and remainder of C truncate; on non-negative operands they are \<open>div\<close> and \<open>mod\<close>.\<close>

lemma sdiv_nonneg: "0 \<le> (a :: int) \<Longrightarrow> 0 < b \<Longrightarrow> a sdiv b = a div b"
  by (cases "a = 0") (auto simp: signed_divide_int_def sgn_if)

lemma smod_nonneg: "0 \<le> (a :: int) \<Longrightarrow> 0 < b \<Longrightarrow> a smod b = a mod b"
  by (cases "a = 0") (auto simp: signed_modulo_int_def)

section \<open>Lists updated by index\<close>

lemma sum_list_update_nat:
  fixes f :: "'a \<Rightarrow> nat"
  assumes "i < length xs"
  shows "sum_list (map f (xs[i := y])) + f (xs ! i) = sum_list (map f xs) + f y"
  using assms
proof (induction xs arbitrary: i)
  case (Cons x xs)
  then show ?case by (cases i) auto
qed simp

section \<open>Counting loops\<close>

text \<open>
  What one pass of a loop body does: go on, leave the loop (\<open>break\<close>), or leave the
  function (\<open>return\<close>, \<open>exit\<close>). \<open>for_upto body i k s\<close> is
  \<open>for (j = i; j < i + k; j++) body\<close> from the state \<open>s\<close>.
\<close>

datatype ('s, 'r) flow = Next 's | Break 's | Return 'r

fun for_upto :: "(nat \<Rightarrow> 's \<Rightarrow> ('s, 'r) flow) \<Rightarrow> nat \<Rightarrow> nat \<Rightarrow> 's \<Rightarrow> ('s, 'r) flow" where
  "for_upto body i 0 s = Next s"
| "for_upto body i (Suc k) s =
     (case body i s of
        Next s' \<Rightarrow> for_upto body (Suc i) k s'
      | Break s' \<Rightarrow> Break s'
      | Return r \<Rightarrow> Return r)"

text \<open>
  The invariant rule: \<open>I\<close> holds before every pass; a pass that goes on keeps it, one that
  breaks establishes \<open>B\<close>, one that returns establishes \<open>R\<close>.
\<close>

lemma for_upto_inv:
  assumes "I i s"
    and "\<And>j s. I j s \<Longrightarrow> i \<le> j \<Longrightarrow> j < i + k \<Longrightarrow>
      (case body j s of Next s' \<Rightarrow> I (Suc j) s' | Break s' \<Rightarrow> B s' | Return r \<Rightarrow> R r)"
  shows "case for_upto body i k s of Next s' \<Rightarrow> I (i + k) s' | Break s' \<Rightarrow> B s' | Return r \<Rightarrow> R r"
  using assms
proof (induction k arbitrary: i s)
  case 0
  then show ?case by simp
next
  case (Suc k)
  from Suc.prems(2) [OF Suc.prems(1)]
  have first: "case body i s of Next s' \<Rightarrow> I (Suc i) s' | Break s' \<Rightarrow> B s' | Return r \<Rightarrow> R r"
    by simp
  show ?case
  proof (cases "body i s")
    case (Next s')
    with first have "I (Suc i) s'" by simp
    then have "case for_upto body (Suc i) k s' of
        Next s' \<Rightarrow> I (Suc i + k) s' | Break s' \<Rightarrow> B s' | Return r \<Rightarrow> R r"
      by (rule Suc.IH) (use Suc.prems(2) in auto)
    with Next show ?thesis by (simp split: flow.splits)
  qed (use first in auto)
qed

text \<open>A loop whose body always goes on runs to its end, and its state is the fold of the body.\<close>

lemma for_upto_Next:
  assumes "\<And>j s. i \<le> j \<Longrightarrow> j < i + k \<Longrightarrow> body j s = Next (f j s)"
  shows "for_upto body i k s = Next (fold f [i..<i + k] s)"
  using assms
proof (induction k arbitrary: i s)
  case 0
  then show ?case by simp
next
  case (Suc k)
  have "for_upto body (Suc i) k (f i s) = Next (fold f [Suc i..<Suc i + k] (f i s))"
    by (rule Suc.IH) (use Suc.prems in auto)
  moreover have "[i..<i + Suc k] = i # [Suc i..<Suc i + k]"
    by (simp add: upt_conv_Cons)
  moreover have "body i s = Next (f i s)"
    by (rule Suc.prems) auto
  ultimately show ?case by (simp del: upt_Suc)
qed

text \<open>\<open>f\<close> is the index of the first of \<open>N\<close> calls that fails, or \<open>N\<close> when none does.\<close>

definition first_failure :: "(nat \<Rightarrow> bool) \<Rightarrow> nat \<Rightarrow> nat \<Rightarrow> bool" where
  "first_failure ok N f \<longleftrightarrow> f \<le> N \<and> (\<forall>i<f. ok i) \<and> (f = N \<or> \<not> ok f)"

section \<open>What a program prints and how it ends\<close>

text \<open>
  A call of \<open>printf\<close>, \<open>fprintf(stderr, ...)\<close> or \<open>perror\<close> is recorded with its format
  string (without the newline characters) and its arguments: signed integers, unsigned
  64-bit integers, strings, doubles (as the rational they denote), or a result of a division
  that may be infinite or not a number (\<open>Infinite True\<close> is the negative infinity). Where a
  program acts on its surroundings by commands (\<open>network_and_security.c\<close>), the commands it
  gives to \<open>system\<close> and \<open>popen\<close> and the files it removes are recorded among what it prints.
\<close>

datatype dbl = Fin rat | Infinite bool | NaN

datatype val = VI int | VU "64 word" | VS string | VD rat | VX dbl

datatype out =
  Printf string "val list" | Eprintf string "val list" | Perror string |
  System string | Popen string | Remove string

text \<open>
  A run ends by \<open>exit\<close> (or \<open>return\<close> from main) with a status, by a signal, in undefined
  behaviour, or not at all within the inputs the environment offers.
\<close>

datatype ending = Exits int | Killed | Undef | Unfinished

type_synonym outcome = "out list \<times> ending"

abbreviation (input) EXIT_FAILURE :: int where "EXIT_FAILURE \<equiv> 1"
abbreviation (input) EXIT_SUCCESS :: int where "EXIT_SUCCESS \<equiv> 0"

definition exits :: "int \<Rightarrow> outcome" where
  "exits c = ([], Exits c)"

definition undef :: outcome where
  "undef = ([], Undef)"

definition say :: "out \<Rightarrow> outcome \<Rightarrow> outcome" where
  "say x r = (x # fst r, snd r)"

definition say_all :: "out list \<Rightarrow> outcome \<Rightarrow> outcome" where
  "say_all xs r = (xs @ fst r, snd r)"

definition die :: "out \<Rightarrow> outcome" where
  "die x = say x (exits EXIT_FAILURE)"

lemmas outcome_simps [simp] = exits_def undef_def say_def say_all_def die_def

end
