(* ===== verification/Machines.thy ===== *)
theory Machines
  imports Prelude
begin

text \<open>
  Concurrent programs of the suite are step relations: \<open>step\<close> is a move of one of the
  program's own threads or processes, \<open>env\<close> a move of the environment (a spurious
  wake-up, for instance). This theory holds their runs and the two interfaces every such
  program is proved against: an invariant, and a measure that bounds its own steps.
\<close>

section \<open>Runs\<close>

text \<open>\<open>run step env s p e t\<close>: from \<open>s\<close>, \<open>p\<close> program steps and \<open>e\<close> environment steps lead to \<open>t\<close>.\<close>

inductive run ::
  "('s \<Rightarrow> 's \<Rightarrow> bool) \<Rightarrow> ('s \<Rightarrow> 's \<Rightarrow> bool) \<Rightarrow> 's \<Rightarrow> nat \<Rightarrow> nat \<Rightarrow> 's \<Rightarrow> bool"
  for step env where
  run_nil: "run step env s 0 0 s"
| run_step: "run step env s p e t \<Longrightarrow> step t u \<Longrightarrow> run step env s (Suc p) e u"
| run_env: "run step env s p e t \<Longrightarrow> env t u \<Longrightarrow> run step env s p (Suc e) u"

definition no_env :: "'s \<Rightarrow> 's \<Rightarrow> bool" where
  "no_env s t \<longleftrightarrow> False"

lemma run_trans:
  assumes "run step env t q f u" and "run step env s p e t"
  shows "run step env s (p + q) (e + f) u"
  using assms by (induction rule: run.induct) (auto intro: run.intros)

lemma run_one: "step s t \<Longrightarrow> run step env s 1 0 t"
  using run_step [OF run_nil] by fastforce

text \<open>A chain of program steps, listed state by state, is a run: how concrete runs are built.\<close>

fun chain :: "('s \<Rightarrow> 's \<Rightarrow> bool) \<Rightarrow> 's \<Rightarrow> 's list \<Rightarrow> bool" where
  "chain step s [] \<longleftrightarrow> True"
| "chain step s (t # ts) \<longleftrightarrow> step s t \<and> chain step t ts"

lemma chain_run: "chain step s ts \<Longrightarrow> run step env s (length ts) 0 (last (s # ts))"
proof (induction ts arbitrary: s)
  case Nil
  show ?case by (simp add: run_nil)
next
  case (Cons t ts)
  then have "run step env t (length ts) 0 (last (t # ts))" by simp
  from run_trans [OF this run_one [of step s t env]] Cons.prems
  show ?case by simp
qed

text \<open>From a state without a step, and without an environment, a run goes nowhere.\<close>

lemma stuck_run: "run step no_env s p e t \<Longrightarrow> (\<And>u. \<not> step s u) \<Longrightarrow> t = s"
  by (induction rule: run.induct) (auto simp: no_env_def)

text \<open>
  Where it matters who moved, the moves of the environment carry a label, and the run keeps
  them: \<open>lrun step env s p ls t\<close>. Forgetting the labels gives a run.
\<close>

inductive lrun ::
  "('s \<Rightarrow> 's \<Rightarrow> bool) \<Rightarrow> ('l \<Rightarrow> 's \<Rightarrow> 's \<Rightarrow> bool) \<Rightarrow> 's \<Rightarrow> nat \<Rightarrow> 'l list \<Rightarrow> 's \<Rightarrow> bool"
  for step env where
  lrun_nil: "lrun step env s 0 [] s"
| lrun_step: "lrun step env s p ls t \<Longrightarrow> step t u \<Longrightarrow> lrun step env s (Suc p) ls u"
| lrun_env: "lrun step env s p ls t \<Longrightarrow> env l t u \<Longrightarrow> lrun step env s p (ls @ [l]) u"

definition some_label :: "('l \<Rightarrow> 's \<Rightarrow> 's \<Rightarrow> bool) \<Rightarrow> 's \<Rightarrow> 's \<Rightarrow> bool" where
  "some_label env s t \<longleftrightarrow> (\<exists>l. env l s t)"

lemma lrun_run: "lrun step env s p ls t \<Longrightarrow> run step (some_label env) s p (length ls) t"
  by (induction rule: lrun.induct) (auto simp: some_label_def intro: run.intros)

lemma run_lrun: "run step (some_label env) s p e t \<Longrightarrow> \<exists>ls. length ls = e \<and> lrun step env s p ls t"
proof (induction rule: run.induct)
  case (run_nil s)
  show ?case using lrun_nil by force
next
  case (run_step s p e t u)
  then show ?case using lrun_step by fast
next
  case (run_env s p e t u)
  then obtain ls l where "length ls = e" "lrun step env s p ls t" "env l t u"
    by (auto simp: some_label_def)
  then show ?case using lrun_env by (intro exI [of _ "ls @ [l]"]) simp
qed

lemma lrun_chain: "lrun step env s p ls t \<Longrightarrow> chain step t ts \<Longrightarrow> lrun step env s (p + length ts) ls (last (t # ts))"
proof (induction ts arbitrary: p t)
  case (Cons u ts)
  then have "lrun step env s (Suc p) ls u" by (auto intro: lrun_step)
  from Cons.IH [OF this] Cons.prems(2) show ?case by simp
qed simp

section \<open>Invariants\<close>

locale invariant_system =
  fixes init :: "'s \<Rightarrow> bool"
    and step :: "'s \<Rightarrow> 's \<Rightarrow> bool"
    and env :: "'s \<Rightarrow> 's \<Rightarrow> bool"
    and inv :: "'s \<Rightarrow> bool"
  assumes inv_init: "init s \<Longrightarrow> inv s"
    and inv_step: "inv s \<Longrightarrow> step s t \<Longrightarrow> inv t"
    and inv_env: "inv s \<Longrightarrow> env s t \<Longrightarrow> inv t"
begin

lemma inv_run_from: "run step env s p e t \<Longrightarrow> inv s \<Longrightarrow> inv t"
  by (induction rule: run.induct) (auto intro: inv_step inv_env)

lemma inv_run: "init s \<Longrightarrow> run step env s p e t \<Longrightarrow> inv t"
  using inv_init inv_run_from by blast

end

section \<open>Progress and termination\<close>

text \<open>
  A state that is not \<open>final\<close> has a program step (no deadlock), every program step makes
  the measure smaller, and an environment step adds at most \<open>cost\<close> to it.
\<close>

locale bounded_system = invariant_system +
  fixes final :: "'s \<Rightarrow> bool"
    and meas :: "'s \<Rightarrow> nat"
    and cost :: nat
  assumes progress: "inv s \<Longrightarrow> \<not> final s \<Longrightarrow> \<exists>t. step s t"
    and meas_step: "inv s \<Longrightarrow> step s t \<Longrightarrow> meas t < meas s"
    and meas_env: "inv s \<Longrightarrow> env s t \<Longrightarrow> meas t \<le> meas s + cost"
begin

lemma run_bound_from: "run step env s p e t \<Longrightarrow> inv s \<Longrightarrow> p + meas t \<le> meas s + cost * e"
proof (induction rule: run.induct)
  case (run_nil s)
  then show ?case by simp
next
  case (run_step s p e t u)
  then have "meas u < meas t" by (blast intro: meas_step inv_run_from)
  with run_step show ?case by simp
next
  case (run_env s p e t u)
  then have "meas u \<le> meas t + cost" by (blast intro: meas_env inv_run_from)
  with run_env show ?case by simp
qed

lemma run_bound: "init s \<Longrightarrow> run step env s p e t \<Longrightarrow> p \<le> meas s + cost * e"
  using run_bound_from [of s p e t] inv_init [of s] by simp

lemma reaches_final_from: "inv s \<Longrightarrow> \<exists>p t. run step env s p 0 t \<and> final t"
proof (induction "meas s" arbitrary: s rule: less_induct)
  case less
  show ?case
  proof (cases "final s")
    case True
    then show ?thesis by (blast intro: run_nil)
  next
    case False
    with less.prems obtain t where t: "step s t" by (blast dest: progress)
    with less.prems have "meas t < meas s" "inv t" by (auto intro: meas_step inv_step)
    then obtain p u where "run step env t p 0 u" "final u" using less.hyps by blast
    with run_trans [OF this(1) run_one [of step s t env, OF t]] show ?thesis by auto
  qed
qed

text \<open>From every state a run can get to, the program can still finish.\<close>

lemma can_always_finish:
  assumes "init s" and "run step env s p e t"
  shows "\<exists>q u. run step env t q 0 u \<and> final u"
  using assms by (intro reaches_final_from) (rule inv_run)

text \<open>A run stops only in a final state.\<close>

lemma stuck_is_final:
  assumes "init s" and "run step env s p e t" and "\<And>u. \<not> step t u"
  shows "final t"
  using assms inv_run progress by blast

end

section \<open>Refinement\<close>

text \<open>
  A system implements an abstract machine when its steps, seen through \<open>abs\<close>, are steps of
  that machine or do not show; the environment must not show either. The invariant of the
  system may be used. Then every run of the system is a run of the abstract machine.
\<close>

locale refinement = invariant_system +
  fixes abs :: "'s \<Rightarrow> 'a"
    and ainit :: "'a \<Rightarrow> bool"
    and astep :: "'a \<Rightarrow> 'a \<Rightarrow> bool"
  assumes abs_init: "init s \<Longrightarrow> ainit (abs s)"
    and abs_step: "inv s \<Longrightarrow> step s t \<Longrightarrow> abs t = abs s \<or> astep (abs s) (abs t)"
    and abs_env: "inv s \<Longrightarrow> env s t \<Longrightarrow> abs t = abs s"
begin

lemma refines_from: "run step env s p e t \<Longrightarrow> inv s \<Longrightarrow> \<exists>q\<le>p. run astep no_env (abs s) q 0 (abs t)"
proof (induction rule: run.induct)
  case (run_nil s)
  then show ?case by (auto intro: run.run_nil)
next
  case (run_step s p e t u)
  then obtain q where q: "q \<le> p" "run astep no_env (abs s) q 0 (abs t)" by blast
  moreover have "abs u = abs t \<or> astep (abs t) (abs u)"
    using abs_step [OF inv_run_from [OF run_step(1) run_step(4)] run_step(2)] .
  ultimately show ?case by (metis le_SucI not_less_eq_eq run.run_step)
next
  case (run_env s p e t u)
  from abs_env [OF inv_run_from [OF run_env(1) run_env(4)] run_env(2)] run_env show ?case by simp
qed

lemma refines:
  assumes "init s" and "run step env s p e t"
  shows "ainit (abs s) \<and> (\<exists>q\<le>p. run astep no_env (abs s) q 0 (abs t))"
  using assms abs_init inv_init refines_from by blast

end

end
