(* ===== verification/Rounds.thy ===== *)
theory Rounds
  imports Machines
begin

text \<open>
  What a round-trip benchmark must do for its numbers to mean something, as an abstract
  machine: each round is first answered by the other party, and only then completed by the
  party that measures; no answer is used twice and none is made in advance. Every program
  that hands a turn, a byte or a message to and fro refines this machine.
\<close>

record rounds =
  answered :: nat
  completed :: nat

definition no_rounds :: "rounds \<Rightarrow> bool" where
  "no_rounds r \<longleftrightarrow> r = \<lparr>answered = 0, completed = 0\<rparr>"

inductive round_step :: "nat \<Rightarrow> rounds \<Rightarrow> rounds \<Rightarrow> bool" for N where
  answer: "answered r = completed r \<Longrightarrow> answered r < N \<Longrightarrow>
    round_step N r (r\<lparr>answered := Suc (answered r)\<rparr>)"
| complete: "completed r < answered r \<Longrightarrow> round_step N r (r\<lparr>completed := Suc (completed r)\<rparr>)"

inductive_simps round_step_iff: "round_step N r r'"

definition round_inv :: "nat \<Rightarrow> rounds \<Rightarrow> bool" where
  "round_inv N r \<longleftrightarrow> completed r \<le> answered r \<and> answered r \<le> Suc (completed r) \<and> answered r \<le> N"

interpretation rounds: invariant_system no_rounds "round_step N" no_env "round_inv N"
  for N
  by unfold_locales (auto simp: round_inv_def no_rounds_def no_env_def round_step_iff)

text \<open>The number of steps of a run is the number of answers and completions: none is lost or repeated.\<close>

lemma rounds_count:
  "run (round_step N) no_env r q e r' \<Longrightarrow> q + answered r + completed r = answered r' + completed r'"
  by (induction rule: run.induct) (auto simp: no_env_def round_step_iff)

text \<open>What a program promises that refines the machine.\<close>

definition rounds_kept :: "nat \<Rightarrow> nat \<Rightarrow> rounds \<Rightarrow> bool" where
  "rounds_kept N p r \<longleftrightarrow> round_inv N r \<and> answered r + completed r \<le> p \<and>
     run (round_step N) no_env \<lparr>answered = 0, completed = 0\<rparr> (answered r + completed r) 0 r"

locale round_trips = refinement init step env inv abs no_rounds "round_step N"
  for init :: "'s \<Rightarrow> bool" and step env inv and abs :: "'s \<Rightarrow> rounds" and N
begin

lemma keeps_rounds:
  assumes "init s" and "run step env s p e t"
  shows "rounds_kept N p (abs t)"
proof -
  from refines [OF assms] obtain q where q: "abs s = \<lparr>answered = 0, completed = 0\<rparr>" "q \<le> p"
      "run (round_step N) no_env (abs s) q 0 (abs t)"
    by (auto simp: no_rounds_def)
  then have "q = answered (abs t) + completed (abs t)" using rounds_count [OF q(3)] by simp
  moreover have "round_inv N (abs t)"
    by (rule rounds.inv_run [OF _ q(3)]) (use refines [OF assms] in blast)
  ultimately show ?thesis using q by (simp add: rounds_kept_def)
qed

end

end
