(* ===== verification/Binary64.thy ===== *)
theory Binary64
  imports Prelude "HOL-Library.Log_Nat"
begin

text \<open>
  The type \<open>double\<close> of the measured platforms: IEEE binary64 with round to nearest, ties
  to even. A double is the rational it denotes; every arithmetic operation and every
  conversion from an integer rounds its exact result with \<open>rnd64\<close>. The values of the
  suite (seconds, nanoseconds, counts and their quotients) stay far from overflow and from
  the subnormal range, so the exponent is left unbounded. The programs rely on three laws
  of rounding only, which the interface \<open>fl_rounding\<close> names.
\<close>

section \<open>The interface\<close>

locale fl_rounding =
  fixes rnd :: "rat \<Rightarrow> rat"
  assumes rnd_mono: "x \<le> y \<Longrightarrow> rnd x \<le> rnd y"
    and rnd_int: "\<bar>n\<bar> \<le> 2 ^ 53 \<Longrightarrow> rnd (of_int n) = of_int n"
    and rnd_err: "\<bar>rnd x - x\<bar> \<le> \<bar>x\<bar> / 2 ^ 53"
begin

lemma rnd_0: "rnd 0 = 0"
  using rnd_int [of 0] by simp

lemma rnd_ge_int: "\<bar>n\<bar> \<le> 2 ^ 53 \<Longrightarrow> of_int n \<le> x \<Longrightarrow> of_int n \<le> rnd x"
  using rnd_mono [of "of_int n" x] by (simp add: rnd_int)

lemma rnd_le_int: "\<bar>n\<bar> \<le> 2 ^ 53 \<Longrightarrow> x \<le> of_int n \<Longrightarrow> rnd x \<le> of_int n"
  using rnd_mono [of x "of_int n"] by (simp add: rnd_int)

lemma rnd_diff: "rnd x - x \<le> \<bar>x\<bar> / 2 ^ 53"
  by (rule abs_le_D1 [OF rnd_err])

lemma rnd_upper: "0 \<le> x \<Longrightarrow> rnd x \<le> x + x / 2 ^ 53"
proof -
  assume "0 \<le> x"
  with rnd_diff [of x] have "rnd x - x \<le> x / 2 ^ 53" by (simp only: abs_of_nonneg)
  then show ?thesis by linarith
qed

text \<open>
  The elapsed time of the suite is computed as whole seconds plus a fraction of \<open>u\<close>-ths
  of a second, with a rounding after each operation; comparing it with a whole number of
  seconds gives the same answer as comparing the exact integers. (Every deadline loop of
  the suite tests in this form.)
\<close>

lemma deadline_lower:
  assumes "0 < u" and "T * u \<le> ds * u + du" and "\<bar>T - ds\<bar> \<le> 2 ^ 53" and "\<bar>T\<bar> \<le> 2 ^ 53"
  shows "of_int T \<le> rnd (of_int ds + rnd (of_int du / of_int u))"
proof -
  have "(T - ds) * u \<le> du" using assms(2) by (simp add: algebra_simps)
  then have "(of_int ((T - ds) * u) :: rat) \<le> of_int du" by (simp only: of_int_le_iff)
  then have "(of_int (T - ds) :: rat) \<le> of_int du / of_int u"
    using assms(1) by (simp add: field_simps)
  then have "of_int (T - ds) \<le> rnd (of_int du / of_int u)"
    by (rule rnd_ge_int [OF assms(3)])
  then have "(of_int T :: rat) \<le> of_int ds + rnd (of_int du / of_int u)" by simp
  then show ?thesis by (rule rnd_ge_int [OF assms(4)])
qed

lemma deadline_upper:
  assumes u: "0 < u" "u \<le> 10 ^ 9" and du: "\<bar>du\<bar> < u" and T: "0 < T" "T \<le> 1000"
    and early: "ds * u + du < T * u"
  shows "rnd (of_int ds + rnd (of_int du / of_int u)) < of_int T"
proof -
  define q :: rat where "q = of_int du / of_int u"
  define z where "z = of_int ds + rnd q"
  have q1: "\<bar>q\<bar> \<le> 1" using u(1) du by (simp add: q_def)
  have "(of_int (ds * u + du + 1) :: rat) \<le> of_int (T * u)"
    using early by (simp only: of_int_le_iff)
  then have "of_int ds + q + 1 / of_int u \<le> of_int T"
    using u(1) by (simp add: q_def field_simps)
  moreover have "(1 :: rat) / 10 ^ 9 \<le> 1 / of_int u"
  proof -
    have "(of_int u :: rat) \<le> of_int (10 ^ 9)" using u(2) by (simp only: of_int_le_iff)
    then show ?thesis using u(1) by (intro divide_left_mono) auto
  qed
  moreover have "rnd q \<le> q + 1 / 2 ^ 53"
  proof -
    have "\<bar>q\<bar> / 2 ^ 53 \<le> 1 / 2 ^ 53" using q1 by (intro divide_right_mono) auto
    with rnd_diff [of q] show ?thesis by linarith
  qed
  ultimately have z: "z \<le> of_int T - 1 / 10 ^ 9 + 1 / 2 ^ 53"
    by (simp add: z_def)
  show ?thesis
  proof (cases "0 \<le> z")
    case True
    have T1000: "(of_int T :: rat) \<le> 1000"
      using T(2) of_int_le_iff [of T 1000, where 'a = rat] by simp
    have "rnd z \<le> z + z / 2 ^ 53" by (rule rnd_upper [OF True])
    also have "\<dots> < of_int T" using z T1000 by (simp add: field_simps)
    finally show ?thesis by (simp add: z_def q_def)
  next
    case False
    then have "rnd z \<le> 0" using rnd_le_int [of 0 z] by simp
    also have "(0 :: rat) < of_int T" using T(1) by simp
    finally show ?thesis by (simp add: z_def q_def)
  qed
qed

lemma deadline_exact:
  assumes "0 < u" "u \<le> 10 ^ 9" and "\<bar>du\<bar> < u" and "0 < T" "T \<le> 1000" and "\<bar>ds\<bar> \<le> 2 ^ 52"
  shows "of_int T \<le> rnd (rnd (of_int ds) + rnd (rnd (of_int du) / of_int u)) \<longleftrightarrow>
    T * u \<le> ds * u + du"
proof -
  have "\<bar>du\<bar> \<le> 2 ^ 53" using assms(2,3) by simp
  then have ex: "rnd (of_int du) = of_int du" by (rule rnd_int)
  have "\<bar>ds\<bar> \<le> 2 ^ 53" using assms(6) by simp
  then have ex': "rnd (of_int ds) = of_int ds" by (rule rnd_int)
  have "\<bar>T - ds\<bar> \<le> 2 ^ 53" "\<bar>T\<bar> \<le> 2 ^ 53" using assms(4,5,6) by simp_all
  then show ?thesis
    using deadline_lower [of u T ds du] deadline_upper [of u du T ds] assms
    unfolding ex ex' by (metis linorder_not_le)
qed

end

section \<open>Round to nearest, ties to even\<close>

definition rhe :: "rat \<Rightarrow> int" where
  "rhe x = (let f = \<lfloor>x\<rfloor>; d = x - of_int f in
     if d < 1 / 2 then f else if 1 / 2 < d then f + 1 else if even f then f else f + 1)"

text \<open>\<open>flog x\<close> is the exponent of the leading bit: \<open>2 powi flog x \<le> \<bar>x\<bar> < 2 powi (flog x + 1)\<close>.\<close>

definition flog :: "rat \<Rightarrow> int" where
  "flog x = (let (a, b) = quotient_of \<bar>x\<bar>; g = bitlen a - bitlen b in
     if \<bar>x\<bar> < 2 powi g then g - 1 else g)"

definition rnd64 :: "rat \<Rightarrow> rat" where
  "rnd64 x = (if x = 0 then 0 else
     let e = flog x - 52 in of_int (rhe (x * 2 powi (- e))) * 2 powi e)"

lemma rhe_err: "\<bar>of_int (rhe x) - x\<bar> \<le> 1 / 2"
  unfolding rhe_def Let_def abs_le_iff by (simp add: algebra_simps) linarith

lemma rhe_of_int [simp]: "rhe (of_int n) = n"
  by (simp add: rhe_def)

lemma rhe_mono:
  assumes "x \<le> y"
  shows "rhe x \<le> rhe y"
proof (cases "\<lfloor>x\<rfloor> = \<lfloor>y\<rfloor>")
  case True
  with assms show ?thesis unfolding rhe_def Let_def by auto
next
  case False
  with floor_mono [OF assms] have "\<lfloor>x\<rfloor> + 1 \<le> \<lfloor>y\<rfloor>" by simp
  moreover have "rhe x \<le> \<lfloor>x\<rfloor> + 1" "\<lfloor>y\<rfloor> \<le> rhe y" by (simp_all add: rhe_def Let_def)
  ultimately show ?thesis by linarith
qed

lemma rhe_uminus: "rhe (- x) = - rhe x"
proof (cases "x = of_int \<lfloor>x\<rfloor>")
  case True
  then have "rhe x = \<lfloor>x\<rfloor>" "rhe (- x) = - \<lfloor>x\<rfloor>"
    by (metis rhe_of_int, metis of_int_minus rhe_of_int)
  then show ?thesis by simp
next
  case False
  then have fl: "\<lfloor>- x\<rfloor> = - \<lfloor>x\<rfloor> - 1" by linarith
  show ?thesis unfolding rhe_def Let_def fl by auto
qed

lemma flog_bounds:
  assumes "x \<noteq> 0"
  shows "2 powi (flog x) \<le> \<bar>x\<bar>" and "\<bar>x\<bar> < 2 powi (flog x + 1)"
proof -
  obtain a b where q: "quotient_of \<bar>x\<bar> = (a, b)" by fastforce
  have b: "0 < b" using quotient_of_denom_pos [OF q] .
  have x: "\<bar>x\<bar> = of_int a / of_int b" using quotient_of_div [OF q] .
  have a: "0 < a"
  proof -
    have "0 < \<bar>x\<bar>" using assms by simp
    then show ?thesis using b by (simp add: x zero_less_divide_iff)
  qed
  define g where "g = bitlen a - bitlen b"
  have pow: "2 powi n = (of_int (2 ^ nat n) :: rat)" if "0 \<le> n" for n
    using that by (simp add: power_int_def)
  have pos: "0 \<le> bitlen n - 1" if "0 < n" for n
    using that compute_bitlen [of n] bitlen_nonneg [of "n div 2"] by simp
  have bl: "2 powi (bitlen n - 1) \<le> (of_int n :: rat)" "(of_int n :: rat) < 2 powi (bitlen n)"
    if "0 < n" for n
    using bitlen_bounds [OF that]
    by (simp_all only: pow [OF pos [OF that]] pow [OF bitlen_nonneg] of_int_le_iff of_int_less_iff)
  have split: "2 powi (bitlen n) = (2 * 2 powi (bitlen n - 1) :: rat)" for n
    using power_int_add_1' [of "2 :: rat" "bitlen n - 1"] by simp
  have eq: "2 powi (bitlen a) / 2 powi (bitlen b) = (2 powi g :: rat)"
    by (simp add: g_def power_int_diff)
  have lo: "2 powi (g - 1) < \<bar>x\<bar>"
  proof -
    have "2 powi (bitlen a - 1) / 2 powi (bitlen b) < (of_int a :: rat) / of_int b"
      using bl [OF a] bl [OF b] b by (intro frac_less2) (auto intro: less_imp_le)
    moreover have "2 powi (bitlen a - 1) / 2 powi (bitlen b) = (2 powi (g - 1) :: rat)"
      by (simp add: g_def power_int_diff)
    ultimately show ?thesis by (simp add: x)
  qed
  have hi: "\<bar>x\<bar> < 2 powi (g + 1)"
  proof -
    have "(of_int a :: rat) / of_int b < 2 powi (bitlen a) / 2 powi (bitlen b - 1)"
      using bl [OF a] bl [OF b] a by (intro frac_less) auto
    moreover have "2 powi (bitlen a) / 2 powi (bitlen b - 1) = (2 powi (g + 1) :: rat)"
      by (simp add: g_def power_int_diff power_int_add)
    ultimately show ?thesis by (simp add: x)
  qed
  have "flog x = (if \<bar>x\<bar> < 2 powi g then g - 1 else g)"
    by (simp add: flog_def q g_def)
  with lo hi show "2 powi (flog x) \<le> \<bar>x\<bar>" "\<bar>x\<bar> < 2 powi (flog x + 1)"
    by auto
qed

lemma flog_mono:
  assumes "x \<noteq> 0" "\<bar>x\<bar> \<le> \<bar>y\<bar>"
  shows "flog x \<le> flog y"
proof (rule ccontr)
  assume "\<not> ?thesis"
  then have "(2 :: rat) powi (flog y + 1) \<le> 2 powi (flog x)"
    by (intro power_int_increasing) auto
  moreover have "y \<noteq> 0" using assms by auto
  ultimately show False
    using flog_bounds(1) [OF assms(1)] flog_bounds(2) [of y] assms(2) by simp
qed

lemma rnd64_uminus: "rnd64 (- x) = - rnd64 x"
proof -
  have "flog (- x) = flog x" by (simp add: flog_def)
  then show ?thesis by (simp add: rnd64_def Let_def rhe_uminus)
qed

text \<open>The scaled significand lies in \<open>[2 ^ 52, 2 ^ 53)\<close>, and so does its rounding, up to \<open>2 ^ 53\<close>.\<close>

lemma rnd64_binade:
  assumes "0 < x"
  shows "2 powi (flog x) \<le> rnd64 x" and "rnd64 x \<le> 2 powi (flog x + 1)"
proof -
  define e where "e = flog x - 52"
  have x: "2 powi (flog x) \<le> x" "x < 2 powi (flog x + 1)"
    using flog_bounds [of x] assms by auto
  have pe: "(0 :: rat) < 2 powi e" by simp
  have cancel: "x * 2 powi (- e) * 2 powi e = x" by (simp add: power_int_minus)
  have p52: "2 powi (flog x) = (2 ^ 52 * 2 powi e :: rat)"
    and p53: "2 powi (flog x + 1) = (2 ^ 53 * 2 powi e :: rat)"
    using power_int_add [of "2 :: rat" 52 e] power_int_add [of "2 :: rat" 53 e]
    by (simp_all add: e_def add.commute)
  have "2 ^ 52 \<le> x * 2 powi (- e)" "x * 2 powi (- e) \<le> 2 ^ 53"
    using x unfolding p52 p53 by (simp_all add: power_int_minus field_simps)
  then have "rhe (of_int (2 ^ 52)) \<le> rhe (x * 2 powi (- e))"
    "rhe (x * 2 powi (- e)) \<le> rhe (of_int (2 ^ 53))"
    by (auto intro!: rhe_mono)
  then have "2 ^ 52 \<le> rhe (x * 2 powi (- e))" "rhe (x * 2 powi (- e)) \<le> 2 ^ 53"
    by (simp_all only: rhe_of_int)
  then have "(of_int (2 ^ 52) :: rat) \<le> of_int (rhe (x * 2 powi (- e)))"
    "(of_int (rhe (x * 2 powi (- e))) :: rat) \<le> of_int (2 ^ 53)"
    by (simp_all only: of_int_le_iff)
  moreover have "rnd64 x = of_int (rhe (x * 2 powi (- e))) * 2 powi e"
    using assms by (simp add: rnd64_def e_def Let_def)
  ultimately show "2 powi (flog x) \<le> rnd64 x" "rnd64 x \<le> 2 powi (flog x + 1)"
    unfolding p52 p53 using pe by (simp_all add: mult_right_mono)
qed

lemma rnd64_mono_pos:
  assumes "0 < x" "x \<le> y"
  shows "rnd64 x \<le> rnd64 y"
proof (cases "flog x = flog y")
  case True
  have "x * 2 powi (- (flog y - 52)) \<le> y * 2 powi (- (flog y - 52))"
    using assms by (intro mult_right_mono) auto
  then have "rhe (x * 2 powi (- (flog y - 52))) \<le> rhe (y * 2 powi (- (flog y - 52)))"
    by (rule rhe_mono)
  then show ?thesis
    using assms True by (simp add: rnd64_def Let_def mult_right_mono)
next
  case False
  have "flog x \<le> flog y" using assms by (intro flog_mono) auto
  with False have "flog x + 1 \<le> flog y" by simp
  then have "(2 :: rat) powi (flog x + 1) \<le> 2 powi (flog y)"
    by (intro power_int_increasing) auto
  then show ?thesis using rnd64_binade [of x] rnd64_binade [of y] assms by linarith
qed

lemma rnd64_pos: "0 < x \<Longrightarrow> 0 < rnd64 x"
  using rnd64_binade(1) [of x] zero_less_power_int [of "2 :: rat" "flog x"] by linarith

lemma rnd64_mono:
  assumes "x \<le> y"
  shows "rnd64 x \<le> rnd64 y"
proof -
  have z: "rnd64 0 = 0" by (simp add: rnd64_def)
  consider "0 < x" | "x \<le> 0" "0 \<le> y" | "y < 0" by linarith
  then show ?thesis
  proof cases
    case 1
    with assms show ?thesis by (intro rnd64_mono_pos)
  next
    case 2
    then have "rnd64 x \<le> 0" "0 \<le> rnd64 y"
      using rnd64_pos [of "- x"] rnd64_pos [of y] z
      by (cases "x = 0"; cases "y = 0"; force simp: rnd64_uminus)+
    then show ?thesis by simp
  next
    case 3
    with assms have "rnd64 (- y) \<le> rnd64 (- x)" by (intro rnd64_mono_pos) auto
    then show ?thesis by (simp add: rnd64_uminus)
  qed
qed

lemma rnd64_err: "\<bar>rnd64 x - x\<bar> \<le> \<bar>x\<bar> / 2 ^ 53"
proof (cases "x = 0")
  case False
  define e where "e = flog x - 52"
  define m where "m = x * 2 powi (- e)"
  have xm: "x = m * 2 powi e" by (simp add: m_def power_int_minus)
  have r: "rnd64 x = of_int (rhe m) * 2 powi e"
    using False by (simp add: rnd64_def e_def m_def Let_def)
  have "\<bar>rnd64 x - x\<bar> = \<bar>of_int (rhe m) - m\<bar> * 2 powi e"
    unfolding r by (subst xm) (simp add: abs_mult flip: left_diff_distrib)
  also have "\<dots> \<le> 1 / 2 * 2 powi e"
    using rhe_err [of m] by (intro mult_right_mono) auto
  also have "\<dots> = 2 powi (flog x) / 2 ^ 53"
    using power_int_add [of "2 :: rat" 52 e] by (simp add: e_def)
  also have "\<dots> \<le> \<bar>x\<bar> / 2 ^ 53"
    using flog_bounds(1) [OF False] by (intro divide_right_mono) auto
  finally show ?thesis .
qed (simp add: rnd64_def)

text \<open>Halving is exact: the exponent has no bound.\<close>

lemma powi2_less: "(2 :: rat) powi m < 2 powi n \<Longrightarrow> m < n"
  using power_int_increasing [of n m "2 :: rat"] by (auto simp: not_le [symmetric])

lemma powi2_Suc: "(2 :: rat) powi (n + 1) = 2 * 2 powi n"
  by (simp add: power_int_add)

lemma flog_half:
  assumes "x \<noteq> 0"
  shows "flog (x / 2) = flog x - 1"
proof (rule antisym)
  have x: "2 powi flog x \<le> \<bar>x\<bar>" "\<bar>x\<bar> < 2 powi (flog x + 1)"
    and h: "2 powi flog (x / 2) \<le> \<bar>x\<bar> / 2" "\<bar>x\<bar> / 2 < 2 powi (flog (x / 2) + 1)"
    using flog_bounds [of x] flog_bounds [of "x / 2"] assms by simp_all
  have "(2 :: rat) powi (flog (x / 2) + 1) < 2 powi (flog x + 1)"
    using x(2) h(1) powi2_Suc [of "flog (x / 2)"] by linarith
  then have "flog (x / 2) + 1 < flog x + 1" by (rule powi2_less)
  then show "flog (x / 2) \<le> flog x - 1" by simp
  have "(2 :: rat) powi flog x < 2 powi (flog (x / 2) + 1 + 1)"
    using x(1) h(2) powi2_Suc [of "flog (x / 2) + 1"] by linarith
  then have "flog x < flog (x / 2) + 1 + 1" by (rule powi2_less)
  then show "flog x - 1 \<le> flog (x / 2)" by simp
qed

lemma rnd64_half: "rnd64 (x / 2) = rnd64 x / 2"
proof (cases "x = 0")
  case False
  define n where "n = flog x - 52"
  have fl: "flog (x / 2) - 52 = n - 1" using flog_half [OF False] by (simp add: n_def)
  have half: "(2 :: rat) powi n = 2 * 2 powi (n - 1)" "(2 :: rat) powi (- (n - 1)) = 2 * 2 powi (- n)"
    using powi2_Suc [of "n - 1"] powi2_Suc [of "- n"] by simp_all
  have scaled: "x / 2 * 2 powi (- (n - 1)) = x * 2 powi (- n)" unfolding half(2) by simp
  have "rnd64 (x / 2) = of_int (rhe (x * 2 powi (- n))) * 2 powi (n - 1)"
    using False unfolding rnd64_def Let_def fl scaled by simp
  moreover have "rnd64 x = of_int (rhe (x * 2 powi (- n))) * 2 powi n"
    using False by (simp add: rnd64_def Let_def n_def)
  ultimately show ?thesis unfolding half(1) by simp
qed (simp add: rnd64_def)

lemma rnd64_int:
  assumes "\<bar>n\<bar> \<le> 2 ^ 53"
  shows "rnd64 (of_int n) = of_int n"
proof (cases "n = 0")
  case False
  define e where "e = flog (of_int n) - 52"
  have "\<exists>k :: int. of_int n * 2 powi (- e) = (of_int k :: rat)"
  proof (cases "e \<le> 0")
    case True
    then have "of_int n * 2 powi (- e) = (of_int (n * 2 ^ nat (- e)) :: rat)"
      by (simp add: power_int_def)
    then show ?thesis by blast
  next
    case e: False
    have "(2 :: rat) ^ 53 \<le> 2 powi (flog (of_int n))"
      using power_int_increasing [of 53 "flog (of_int n)" "2 :: rat"] e by (simp add: e_def)
    also have "\<dots> \<le> \<bar>of_int n\<bar>" using False by (intro flog_bounds(1)) simp
    finally have "(of_int (2 ^ 53) :: rat) \<le> of_int \<bar>n\<bar>" by simp
    then have n: "\<bar>n\<bar> = 2 ^ 53" using assms by (simp only: of_int_le_iff)
    have "2 powi (flog (of_int n)) \<le> \<bar>of_int n :: rat\<bar>"
      using False by (intro flog_bounds(1)) simp
    also have "\<dots> = of_int \<bar>n\<bar>" by simp
    also have "\<dots> < 2 powi (54 :: int)" unfolding n by simp
    finally have "flog (of_int n) < 54"
      by (rule power_int_le_imp_less_exp [rotated]) simp_all
    with e have "e = 1" by (simp add: e_def)
    then have "of_int n * 2 powi (- e) = (of_int (sgn n * 2 ^ 52) :: rat)"
      using n by (simp add: abs_if sgn_if power_int_minus split: if_splits)
    then show ?thesis by blast
  qed
  then obtain k :: int where k: "of_int n * 2 powi (- e) = (of_int k :: rat)" by blast
  have "rnd64 (of_int n) = of_int (rhe (of_int n * 2 powi (- e))) * 2 powi e"
    using False by (simp add: rnd64_def e_def Let_def)
  also have "\<dots> = of_int n * 2 powi (- e) * 2 powi e" unfolding k by simp
  also have "\<dots> = of_int n" by (simp add: power_int_minus)
  finally show ?thesis .
qed (simp add: rnd64_def)

interpretation ieee: fl_rounding rnd64
  by unfold_locales (rule rnd64_mono rnd64_int rnd64_err; assumption?)+

text \<open>Division of doubles: \<open>a / b\<close> where \<open>b\<close> may be zero, and by a constant.\<close>

definition fdiv :: "rat \<Rightarrow> rat \<Rightarrow> dbl" where
  "fdiv a b = (if b \<noteq> 0 then Fin (rnd64 (a / b)) else if a = 0 then NaN else Infinite (a < 0))"

fun over :: "dbl \<Rightarrow> rat \<Rightarrow> dbl" where
  "over (Fin x) c = Fin (rnd64 (x / c))"
| "over (Infinite s) c = Infinite s"
| "over NaN c = NaN"

end
