(* ===== verification/CTime.thy ===== *)
theory CTime
  imports Binary64
begin

text \<open>
  Clock values and their arithmetic: \<open>struct timespec\<close> and \<open>struct timeval\<close>, the helpers
  \<open>timespec_add\<close> and \<open>timespec_diff_ns\<close>, the readings of a clock as one 64-bit number
  of nanoseconds, and the elapsed seconds as a double. \<open>nanos\<close> is the abstract value
  every one of them is proved against.
\<close>

record timespec =
  tv_sec :: int
  tv_nsec :: int

record timeval =
  tvu_sec :: int
  tvu_usec :: int

definition NSEC_PER_SEC :: int where
  "NSEC_PER_SEC = 1000000000"

text \<open>
  What \<open>clock_gettime(CLOCK_MONOTONIC, ...)\<close> delivers: a normalised value, less than
  272 years after the clock's start.
\<close>

definition ts_ok :: "timespec \<Rightarrow> bool" where
  "ts_ok t \<longleftrightarrow> 0 \<le> tv_sec t \<and> tv_sec t < 2 ^ 33 \<and> 0 \<le> tv_nsec t \<and> tv_nsec t < NSEC_PER_SEC"

definition nanos :: "timespec \<Rightarrow> int" where
  "nanos t = tv_sec t * NSEC_PER_SEC + tv_nsec t"

section \<open>timespec_add and timespec_diff_ns\<close>

definition timespec_add :: "timespec \<Rightarrow> int \<Rightarrow> timespec option" where
  "timespec_add t ns = do {
     n \<leftarrow> ladd (tv_nsec t) ns;
     if NSEC_PER_SEC \<le> n
     then do {
       s \<leftarrow> ladd (tv_sec t) (n sdiv NSEC_PER_SEC);
       Some \<lparr>tv_sec = s, tv_nsec = n smod NSEC_PER_SEC\<rparr>
     }
     else Some (t\<lparr>tv_nsec := n\<rparr>)
   }"

definition timespec_diff_ns :: "timespec \<Rightarrow> timespec \<Rightarrow> int option" where
  "timespec_diff_ns e s = do {
     ds \<leftarrow> lsub (tv_sec e) (tv_sec s);
     m \<leftarrow> lmul ds NSEC_PER_SEC;
     dn \<leftarrow> lsub (tv_nsec e) (tv_nsec s);
     ladd m dn
   }"

text \<open>A normalised time is determined by its nanoseconds.\<close>

definition ts_of_nanos :: "int \<Rightarrow> timespec" where
  "ts_of_nanos x = \<lparr>tv_sec = x div NSEC_PER_SEC, tv_nsec = x mod NSEC_PER_SEC\<rparr>"

definition ts_norm :: "timespec \<Rightarrow> bool" where
  "ts_norm t \<longleftrightarrow> 0 \<le> tv_sec t \<and> 0 \<le> tv_nsec t \<and> tv_nsec t < NSEC_PER_SEC"

lemma ts_ok_norm: "ts_ok t \<Longrightarrow> ts_norm t"
  by (simp add: ts_ok_def ts_norm_def)

lemma nanos_of_nanos [simp]: "nanos (ts_of_nanos x) = x"
  by (simp add: nanos_def ts_of_nanos_def)

lemma ts_norm_of_nanos [simp]: "ts_norm (ts_of_nanos x) \<longleftrightarrow> 0 \<le> x"
  by (simp add: ts_norm_def ts_of_nanos_def NSEC_PER_SEC_def pos_imp_zdiv_nonneg_iff)

lemma ts_of_nanos_nanos: "ts_norm t \<Longrightarrow> ts_of_nanos (nanos t) = t"
  by (cases t) (simp add: ts_norm_def ts_of_nanos_def nanos_def NSEC_PER_SEC_def)

lemma nanos_bound: "ts_ok t \<Longrightarrow> 0 \<le> nanos t \<and> nanos t < 2 ^ 33 * NSEC_PER_SEC"
  by (simp add: ts_ok_def nanos_def NSEC_PER_SEC_def)

lemma nanos_nonneg: "ts_norm t \<Longrightarrow> 0 \<le> nanos t"
  by (simp add: ts_norm_def nanos_def NSEC_PER_SEC_def)

lemma ts_ok_iff_nanos: "ts_norm t \<Longrightarrow> ts_ok t \<longleftrightarrow> nanos t < 2 ^ 33 * NSEC_PER_SEC"
  by (auto simp: ts_ok_def ts_norm_def nanos_def NSEC_PER_SEC_def)

lemma timespec_add_eq:
  assumes t: "ts_norm t" "tv_sec t < 2 ^ 62" and ns: "0 \<le> ns" "ns < 2 ^ 62"
  shows "timespec_add t ns = Some (ts_of_nanos (nanos t + ns))"
proof -
  define n where "n = tv_nsec t + ns"
  have n0: "0 \<le> n" and n63: "n < 2 ^ 63"
    using t ns by (simp_all add: n_def ts_norm_def NSEC_PER_SEC_def)
  have add: "ladd (tv_nsec t) ns = Some n"
    using n0 n63 by (simp add: n_def ladd_ok long_ok_def)
  have split: "ts_of_nanos (nanos t + ns) =
      \<lparr>tv_sec = tv_sec t + n div NSEC_PER_SEC, tv_nsec = n mod NSEC_PER_SEC\<rparr>"
  proof -
    have "nanos t + ns = n + tv_sec t * NSEC_PER_SEC" by (simp add: nanos_def n_def)
    then show ?thesis by (simp add: ts_of_nanos_def NSEC_PER_SEC_def)
  qed
  show ?thesis
  proof (cases "NSEC_PER_SEC \<le> n")
    case True
    have "n div NSEC_PER_SEC \<le> n" using n0 by (simp add: NSEC_PER_SEC_def)
    moreover have "0 \<le> n div NSEC_PER_SEC" using n0 by (simp add: NSEC_PER_SEC_def)
    moreover have "n div NSEC_PER_SEC < 2 ^ 62" using n63 by (simp add: NSEC_PER_SEC_def)
    ultimately have "ladd (tv_sec t) (n div NSEC_PER_SEC) = Some (tv_sec t + n div NSEC_PER_SEC)"
      using t by (intro ladd_ok) (simp add: long_ok_def ts_norm_def)
    then show ?thesis
      using True n0 unfolding split
      by (simp add: timespec_add_def add sdiv_nonneg smod_nonneg NSEC_PER_SEC_def)
  next
    case False
    then show ?thesis
      using n0 add unfolding split by (cases t) (simp add: timespec_add_def NSEC_PER_SEC_def)
  qed
qed

lemma timespec_diff_ns_eq:
  assumes "ts_ok e" "ts_ok s"
  shows "timespec_diff_ns e s = Some (nanos e - nanos s)"
proof -
  have "lsub (tv_sec e) (tv_sec s) = Some (tv_sec e - tv_sec s)"
    "lsub (tv_nsec e) (tv_nsec s) = Some (tv_nsec e - tv_nsec s)"
    "ladd ((tv_sec e - tv_sec s) * NSEC_PER_SEC) (tv_nsec e - tv_nsec s) =
      Some ((tv_sec e - tv_sec s) * NSEC_PER_SEC + (tv_nsec e - tv_nsec s))"
    using assms by (auto intro!: c_arith simp: long_ok_def ts_ok_def NSEC_PER_SEC_def)
  moreover have "lmul (tv_sec e - tv_sec s) NSEC_PER_SEC = Some ((tv_sec e - tv_sec s) * NSEC_PER_SEC)"
    using assms by (intro lmul_ok) (auto simp: long_ok_def ts_ok_def NSEC_PER_SEC_def)
  ultimately show ?thesis
    by (simp add: timespec_diff_ns_def nanos_def left_diff_distrib)
qed

section \<open>A clock reading as one number\<close>

text \<open>The unsigned readings (\<open>uint64_t\<close>) wrap around modulo \<open>2 ^ 64\<close>.\<close>

definition ns_u64 :: "timespec \<Rightarrow> 64 word" where
  "ns_u64 t = word_of_int (tv_sec t) * 1000000000 + word_of_int (tv_nsec t)"

lemma uint_ns_u64:
  assumes "ts_ok t"
  shows "uint (ns_u64 t) = nanos t"
proof -
  have "ns_u64 t = word_of_int (nanos t)"
    by (simp add: ns_u64_def nanos_def NSEC_PER_SEC_def)
  moreover have "0 \<le> nanos t" "nanos t < 2 ^ 64"
    using nanos_bound [OF assms] by (simp_all add: NSEC_PER_SEC_def)
  ultimately show ?thesis by (simp add: uint_word_of_int_eq take_bit_int_eq_self)
qed

lemma uint_minus_u64: "uint b \<le> uint a \<Longrightarrow> uint (a - b :: 64 word) = uint a - uint b"
  by (simp add: uint_sub_lem)

lemma uint_plus_u64: "uint a + uint b < 2 ^ 64 \<Longrightarrow> uint (a + b :: 64 word) = uint a + uint b"
  using uint_add_lem [of a b] by simp

section \<open>Elapsed seconds as a double\<close>

text \<open>
  \<open>(a_sec - b_sec) + (a_frac - b_frac) / u\<close> with \<open>u\<close> the double 1e6 or 1e9: both
  differences are computed in \<open>long\<close>, converted, and every double operation rounds.
\<close>

definition elapsed_double :: "int \<Rightarrow> int \<Rightarrow> int \<Rightarrow> rat" where
  "elapsed_double ds du u =
     rnd64 (rnd64 (of_int ds) + rnd64 (rnd64 (of_int du) / of_int u))"

lemma elapsed_double_deadline:
  assumes "0 < u" "u \<le> 10 ^ 9" "\<bar>du\<bar> < u" "0 < T" "T \<le> 1000" "\<bar>ds\<bar> \<le> 2 ^ 52"
  shows "of_int T \<le> elapsed_double ds du u \<longleftrightarrow> T * u \<le> ds * u + du"
  unfolding elapsed_double_def by (rule ieee.deadline_exact [OF assms])

text \<open>
  \<open>get_time_in_seconds\<close>, and the seconds between two values of \<open>clock()\<close>
  (\<open>CLOCKS_PER_SEC\<close> is a million).
\<close>

definition get_time_in_seconds :: "timespec \<Rightarrow> rat" where
  "get_time_in_seconds ts = rnd64 (rnd64 (of_int (tv_sec ts)) + rnd64 (rnd64 (of_int (tv_nsec ts)) / 1000000000))"

definition clock_seconds :: "int \<Rightarrow> int \<Rightarrow> rat" where
  "clock_seconds start fin = rnd64 (rnd64 (of_int (fin - start)) / 1000000)"

section \<open>Running maxima and completed passes\<close>

text \<open>
  The measuring loops keep the largest latency seen so far, starting from 0, and some of
  them stop at the first failing call. \<open>run_max f n\<close> is the largest of 0 and
  \<open>f 0, \<dots>, f (n - 1)\<close>; \<open>passes ok n\<close> counts the passes before the first one that is not
  ok, among the first \<open>n\<close>.
\<close>

definition run_max :: "(nat \<Rightarrow> int) \<Rightarrow> nat \<Rightarrow> int" where
  "run_max f n = Max (insert 0 (f ` {..<n}))"

definition passes :: "(nat \<Rightarrow> bool) \<Rightarrow> nat \<Rightarrow> nat" where
  "passes ok n = length (takeWhile ok [0..<n])"

lemma run_max_0 [simp]: "run_max f 0 = 0"
  by (simp add: run_max_def)

lemma run_max_Suc: "run_max f (Suc n) = max (f n) (run_max f n)"
proof -
  have "insert 0 (f ` {..<Suc n}) = insert (f n) (insert 0 (f ` {..<n}))"
    by (auto simp: lessThan_Suc)
  then show ?thesis by (simp add: run_max_def)
qed

lemma run_max_ge: "i < n \<Longrightarrow> f i \<le> run_max f n"
  by (simp add: run_max_def)

lemma run_max_nonneg: "0 \<le> run_max f n"
  by (simp add: run_max_def)

lemma run_max_le: "0 \<le> b \<Longrightarrow> (\<And>i. i < n \<Longrightarrow> f i \<le> b) \<Longrightarrow> run_max f n \<le> b"
  by (auto simp: run_max_def)

lemma run_max_attained: "run_max f n = 0 \<or> (\<exists>i < n. run_max f n = f i)"
proof -
  have "Max (insert 0 (f ` {..<n})) \<in> insert 0 (f ` {..<n})"
    by (rule Max_in) auto
  then show ?thesis by (auto simp: run_max_def)
qed

lemma passes_all: "(\<And>j. j < n \<Longrightarrow> ok j) \<Longrightarrow> passes ok n = n"
proof -
  assume "\<And>j. j < n \<Longrightarrow> ok j"
  then have "takeWhile ok [0..<n] = [0..<n]" by (simp add: takeWhile_eq_all_conv)
  then have "length (takeWhile ok [0..<n]) = length [0..<n]" by (rule arg_cong)
  then show ?thesis unfolding passes_def by simp
qed

lemma passes_stop: "j < n \<Longrightarrow> \<not> ok j \<Longrightarrow> (\<And>i. i < j \<Longrightarrow> ok i) \<Longrightarrow> passes ok n = j"
proof -
  assume *: "j < n" "\<not> ok j" "\<And>i. i < j \<Longrightarrow> ok i"
  then have "[0..<n] = [0..<j] @ j # [Suc j..<n]"
    by (metis less_imp_le upt_add_eq_append upt_conv_Cons le0 le_add_diff_inverse)
  moreover have "takeWhile ok ([0..<j] @ j # [Suc j..<n]) = [0..<j] @ takeWhile ok (j # [Suc j..<n])"
    by (rule takeWhile_append2) (use * in auto)
  ultimately show ?thesis using * by (simp add: passes_def)
qed

end
