(* ===== verification/Sched.thy ===== *)
theory Sched
  imports Prelude
begin

text \<open>
  Scheduling policies, and the eleven copies of \<open>parse_sched_policy\<close>: each benchmark has its
  own, differing in which policies the platform offers and in the message it prints. A
  result \<open>Inl m\<close> prints \<open>m\<close> and ends the program with status 1.
\<close>

datatype platform = Linux | QNX

datatype policy = SCHED_OTHER | SCHED_FIFO | SCHED_RR | SCHED_SPORADIC

text \<open>
  The parameter block of the scheduling calls: \<open>struct sched_param\<close>, or on QNX
  \<open>struct sched_param_sporadic\<close> with its replenishment period and budget in nanoseconds.
\<close>

record sporadic_param =
  sched_priority :: int
  ss_low_priority :: int
  ss_max_repl :: int
  ss_repl_period :: int
  ss_init_budget :: int

datatype sched_param = Plain int | Sporadic sporadic_param

definition sporadic_at :: "int \<Rightarrow> sporadic_param" where
  "sporadic_at prio = \<lparr>sched_priority = prio, ss_low_priority = 10, ss_max_repl = 5,
     ss_repl_period = 50000000, ss_init_budget = 5000000\<rparr>"

text \<open>The sporadic block is compiled in under \<open>#ifdef __QNX__\<close> only.\<close>

definition sched_args :: "platform \<Rightarrow> policy \<Rightarrow> int \<Rightarrow> sched_param" where
  "sched_args pf pol prio =
     (if pf = QNX \<and> pol = SCHED_SPORADIC then Sporadic (sporadic_at prio) else Plain prio)"

text \<open>The name the ipc benchmarks print for the policy.\<close>

definition policy_name :: "policy \<Rightarrow> string" where
  "policy_name policy =
     (if policy = SCHED_FIFO then ''FIFO'' else if policy = SCHED_RR then ''RR'' else ''SPORADIC'')"

text \<open>
  The fairness and sleep benchmarks first restrict themselves, on Linux, to one CPU and
  512 MB of memory. Either call may fail, and its message then ends the program.
\<close>

definition limit_resources :: "platform \<Rightarrow> int \<Rightarrow> int \<Rightarrow> out option" where
  "limit_resources pf affinity rlimit =
     (if pf \<noteq> Linux then None
      else if affinity \<noteq> 0 then Some (Perror ''sched_setaffinity'')
      else if rlimit \<noteq> 0 then Some (Perror ''setrlimit'')
      else None)"

type_synonym parsed = "out + policy"

section \<open>The copies of parse_sched_policy\<close>

definition parse_linux_priority :: "string \<Rightarrow> parsed" where
  "parse_linux_priority arg =
     (if arg = ''fifo'' then Inr SCHED_FIFO
      else if arg = ''rr'' then Inr SCHED_RR
      else if arg = ''sporadic'' then Inl (Eprintf ''SCHED_SPORADIC is not supported on Linux.'' [])
      else Inl (Eprintf ''Unknown policy: %s'' [VS arg]))"

definition parse_qnx_priority :: "string \<Rightarrow> parsed" where
  "parse_qnx_priority arg =
     (if arg = ''fifo'' then Inr SCHED_FIFO
      else if arg = ''rr'' then Inr SCHED_RR
      else if arg = ''sporadic'' then Inr SCHED_SPORADIC
      else Inl (Eprintf ''Unknown policy: %s'' [VS arg]))"

definition parse_deterministic :: "platform \<Rightarrow> string \<Rightarrow> parsed" where
  "parse_deterministic pf str =
     (if str = ''fifo'' then Inr SCHED_FIFO
      else if str = ''rr'' then Inr SCHED_RR
      else if pf = QNX \<and> str = ''sporadic'' then Inr SCHED_SPORADIC
      else Inl (Eprintf ''Unknown or unsupported policy: %s'' [VS str]))"

definition parse_max_latency :: "platform \<Rightarrow> string \<Rightarrow> parsed" where
  "parse_max_latency pf arg =
     (if arg = ''fifo'' then Inr SCHED_FIFO
      else if arg = ''rr'' then Inr SCHED_RR
      else if pf = QNX \<and> arg = ''sporadic'' then Inr SCHED_SPORADIC
      else Inl (Eprintf ''Unsupported or unknown policy: %s'' [VS arg]))"

definition parse_jitter :: "platform \<Rightarrow> string \<Rightarrow> parsed" where
  "parse_jitter pf str =
     (if str = ''fifo'' then Inr SCHED_FIFO
      else if str = ''rr'' then Inr SCHED_RR
      else if pf = QNX \<and> str = ''sporadic'' then Inr SCHED_SPORADIC
      else Inl (Eprintf ''Unsupported or unknown policy: %s'' [VS str]))"

definition parse_ipc :: "platform \<Rightarrow> string \<Rightarrow> parsed" where
  "parse_ipc pf arg =
     (if arg = ''fifo'' then Inr SCHED_FIFO
      else if arg = ''rr'' then Inr SCHED_RR
      else if arg = ''sporadic'' then
        (if pf = QNX then Inr SCHED_SPORADIC
         else Inl (Eprintf ''SCHED_SPORADIC not supported on Linux.'' []))
      else Inl (Eprintf ''Unknown policy: %s'' [VS arg]))"

definition parse_ipc_mq :: "platform \<Rightarrow> string \<Rightarrow> parsed" where
  "parse_ipc_mq pf arg =
     (if arg = ''fifo'' then Inr SCHED_FIFO
      else if arg = ''rr'' then Inr SCHED_RR
      else if arg = ''sporadic'' then
        (if pf = QNX then Inr SCHED_SPORADIC
         else Inl (Eprintf ''SCHED_SPORADIC not supported on Linux.'' []))
      else Inl (Eprintf ''Unknown scheduling policy: %s'' [VS arg]))"

definition parse_ipc_pipe :: "platform \<Rightarrow> string \<Rightarrow> parsed" where
  "parse_ipc_pipe pf arg =
     (if arg = ''fifo'' then Inr SCHED_FIFO
      else if arg = ''rr'' then Inr SCHED_RR
      else if arg = ''sporadic'' then
        (if pf = QNX then Inr SCHED_SPORADIC
         else Inl (Eprintf ''SCHED_SPORADIC is not supported on Linux.'' []))
      else Inl (Eprintf ''Unknown policy: %s'' [VS arg]))"

definition parse_burst :: "platform \<Rightarrow> string \<Rightarrow> parsed" where
  "parse_burst pf arg =
     (if arg = ''fifo'' then Inr SCHED_FIFO
      else if arg = ''rr'' then Inr SCHED_RR
      else if arg = ''sporadic'' then
        (if pf = QNX then Inr SCHED_SPORADIC
         else Inl (Eprintf ''SCHED_SPORADIC not supported on Linux.'' []))
      else Inl (Eprintf ''Unknown policy: %s'' [VS arg]))"

definition parse_cpu_load :: "platform \<Rightarrow> string \<Rightarrow> parsed" where
  "parse_cpu_load pf arg =
     (if arg = ''fifo'' then Inr SCHED_FIFO
      else if arg = ''rr'' then Inr SCHED_RR
      else if arg = ''sporadic'' then
        (if pf = QNX then Inr SCHED_SPORADIC
         else Inl (Eprintf ''SCHED_SPORADIC not supported on Linux.'' []))
      else Inl (Eprintf ''Unknown scheduling policy: %s'' [VS arg]))"

definition parse_qos :: "platform \<Rightarrow> string \<Rightarrow> parsed" where
  "parse_qos pf arg =
     (if arg = ''fifo'' then Inr SCHED_FIFO
      else if arg = ''rr'' then Inr SCHED_RR
      else if arg = ''sporadic'' then
        (if pf = QNX then Inr SCHED_SPORADIC
         else Inl (Eprintf ''SCHED_SPORADIC not supported on Linux.'' []))
      else Inl (Eprintf ''Unknown scheduling policy: %s'' [VS arg]))"

section \<open>What all copies have in common\<close>

text \<open>The abstract parser: the policy a name stands for on a platform, if any.\<close>

definition policy_of :: "platform \<Rightarrow> string \<Rightarrow> policy option" where
  "policy_of pf = (if pf = QNX
     then [''fifo'' \<mapsto> SCHED_FIFO, ''rr'' \<mapsto> SCHED_RR, ''sporadic'' \<mapsto> SCHED_SPORADIC]
     else [''fifo'' \<mapsto> SCHED_FIFO, ''rr'' \<mapsto> SCHED_RR])"

definition parsed_policy :: "parsed \<Rightarrow> policy option" where
  "parsed_policy r = (case r of Inl _ \<Rightarrow> None | Inr p \<Rightarrow> Some p)"

lemmas parse_defs = parse_linux_priority_def parse_qnx_priority_def parse_deterministic_def
  parse_max_latency_def parse_jitter_def parse_ipc_def parse_ipc_mq_def parse_ipc_pipe_def
  parse_burst_def parse_cpu_load_def parse_qos_def

text \<open>A locale for what a benchmark's main relies on when it calls its parser.\<close>

locale policy_parser =
  fixes parse :: "string \<Rightarrow> parsed" and pf :: platform
  assumes parse_spec: "parsed_policy (parse arg) = policy_of pf arg"
begin

lemma parse_never_other: "parse arg \<noteq> Inr SCHED_OTHER"
  using parse_spec [of arg]
  by (auto simp: parsed_policy_def policy_of_def split: if_splits)

lemma parse_sporadic_qnx: "parse arg = Inr SCHED_SPORADIC \<Longrightarrow> pf = QNX"
  using parse_spec [of arg]
  by (auto simp: parsed_policy_def policy_of_def split: if_splits)

lemma parse_Inr_iff: "parse arg = Inr p \<longleftrightarrow> policy_of pf arg = Some p"
  using parse_spec [of arg] by (auto simp: parsed_policy_def split: sum.splits)

text \<open>The sporadic parameter block is passed exactly for the sporadic policy.\<close>

lemma parse_sched_args:
  "parse arg = Inr p \<Longrightarrow>
     sched_args pf p prio = (if p = SCHED_SPORADIC then Sporadic (sporadic_at prio) else Plain prio)"
  using parse_sporadic_qnx [of arg] by (auto simp: sched_args_def)

end

interpretation linux_priority: policy_parser parse_linux_priority Linux
  by unfold_locales (auto simp: parse_defs parsed_policy_def policy_of_def)

interpretation qnx_priority: policy_parser parse_qnx_priority QNX
  by unfold_locales (auto simp: parse_defs parsed_policy_def policy_of_def)

interpretation deterministic: policy_parser "parse_deterministic pf" pf for pf
  by unfold_locales (cases pf; auto simp: parse_defs parsed_policy_def policy_of_def)

interpretation max_latency: policy_parser "parse_max_latency pf" pf for pf
  by unfold_locales (cases pf; auto simp: parse_defs parsed_policy_def policy_of_def)

interpretation jitter: policy_parser "parse_jitter pf" pf for pf
  by unfold_locales (cases pf; auto simp: parse_defs parsed_policy_def policy_of_def)

interpretation ipc: policy_parser "parse_ipc pf" pf for pf
  by unfold_locales (cases pf; auto simp: parse_defs parsed_policy_def policy_of_def)

interpretation ipc_mq: policy_parser "parse_ipc_mq pf" pf for pf
  by unfold_locales (cases pf; auto simp: parse_defs parsed_policy_def policy_of_def)

interpretation ipc_pipe: policy_parser "parse_ipc_pipe pf" pf for pf
  by unfold_locales (cases pf; auto simp: parse_defs parsed_policy_def policy_of_def)

interpretation burst: policy_parser "parse_burst pf" pf for pf
  by unfold_locales (cases pf; auto simp: parse_defs parsed_policy_def policy_of_def)

interpretation cpu_load: policy_parser "parse_cpu_load pf" pf for pf
  by unfold_locales (cases pf; auto simp: parse_defs parsed_policy_def policy_of_def)

interpretation qos: policy_parser "parse_qos pf" pf for pf
  by unfold_locales (cases pf; auto simp: parse_defs parsed_policy_def policy_of_def)

section \<open>Property\<close>

text \<open>C40. The eleven copies of \<open>parse_sched_policy\<close> are one function up to their messages: each
  accepts exactly the names of the policies its platform has, with the policy of that name, and
  refuses every other argument; the default policy cannot be asked for. So the sporadic
  parameter block, which only QNX has, is never used on Linux.\<close>

theorem parsers_agree:
  "parsed_policy (parse_linux_priority arg) = policy_of Linux arg \<and>
   parsed_policy (parse_qnx_priority arg) = policy_of QNX arg \<and>
   (\<forall>parse \<in> {parse_deterministic, parse_max_latency, parse_jitter, parse_ipc, parse_ipc_mq, parse_ipc_pipe,
       parse_burst, parse_cpu_load, parse_qos}. \<forall>pf.
     parsed_policy (parse pf arg) = policy_of pf arg \<and> parse pf arg \<noteq> Inr SCHED_OTHER \<and>
     (parse pf arg = Inr SCHED_SPORADIC \<longrightarrow> pf = QNX \<and>
       sched_args pf SCHED_SPORADIC prio = Sporadic (sporadic_at prio)))"
proof (intro conjI ballI allI impI)
  fix parse :: "platform \<Rightarrow> string \<Rightarrow> parsed" and pf
  assume "parse \<in> {parse_deterministic, parse_max_latency, parse_jitter, parse_ipc, parse_ipc_mq,
    parse_ipc_pipe, parse_burst, parse_cpu_load, parse_qos}"
  then have p: "policy_parser (parse pf) pf"
    by (elim insertE emptyE; simp only: deterministic.policy_parser_axioms max_latency.policy_parser_axioms
        jitter.policy_parser_axioms ipc.policy_parser_axioms ipc_mq.policy_parser_axioms
        ipc_pipe.policy_parser_axioms burst.policy_parser_axioms cpu_load.policy_parser_axioms
        qos.policy_parser_axioms)
  show "parsed_policy (parse pf arg) = policy_of pf arg" by (rule policy_parser.parse_spec [OF p])
  show "parse pf arg \<noteq> Inr SCHED_OTHER" by (rule policy_parser.parse_never_other [OF p])
  assume sporadic: "parse pf arg = Inr SCHED_SPORADIC"
  show "pf = QNX" by (rule policy_parser.parse_sporadic_qnx [OF p sporadic])
  show "sched_args pf SCHED_SPORADIC prio = Sporadic (sporadic_at prio)"
    using policy_parser.parse_sched_args [OF p sporadic] by simp
qed (rule linux_priority.parse_spec qnx_priority.parse_spec)+

theorem parsers_agree_witness:
  "parse_jitter QNX ''sporadic'' = Inr SCHED_SPORADIC \<and> parsed_policy (parse_ipc Linux ''sporadic'') = None \<and>
   sched_args QNX SCHED_SPORADIC 63 = Sporadic (sporadic_at 63)"
proof -
  have "parse_jitter QNX ''sporadic'' = Inr SCHED_SPORADIC" by (simp add: parse_jitter_def)
  moreover from this have "sched_args QNX SCHED_SPORADIC 63 = Sporadic (sporadic_at 63)"
    using parsers_agree [of "''sporadic''" 63] by blast
  moreover have "parsed_policy (parse_ipc Linux ''sporadic'') = policy_of Linux ''sporadic''"
    using parsers_agree [of "''sporadic''" 63] by blast
  ultimately show ?thesis by (simp add: policy_of_def)
qed

end
