(* ===== verification/Deadlines.thy ===== *)
theory Deadlines
  imports CTime
begin

text \<open>
  What the three latency programs (\<open>measure_jitter.c\<close>, \<open>max_latency_scheduling.c\<close>,
  \<open>deterministic_latency.c\<close>) measure: deadlines one period apart, and the distance of
  the time read after each wait from its deadline. All three define the same period and
  the same number of iterations.
\<close>

definition PERIOD_NS :: int where "PERIOD_NS = 1000000"
definition ITERATIONS :: nat where "ITERATIONS = 10000"

definition deadline :: "timespec \<Rightarrow> nat \<Rightarrow> timespec" where
  "deadline start i = ts_of_nanos (nanos start + int i * PERIOD_NS)"

text \<open>The distance the code computes between a reading and the deadline of pass \<open>i\<close>.\<close>

definition latency_at :: "timespec \<Rightarrow> (nat \<Rightarrow> timespec) \<Rightarrow> nat \<Rightarrow> int" where
  "latency_at start now i = \<bar>nanos (now i) - (nanos start + int (Suc i) * PERIOD_NS)\<bar>"

text \<open>
  The start leaves room for the ten seconds of deadlines below the clock's range, and
  every reading is a clock value.
\<close>

definition inputs_ok :: "timespec \<Rightarrow> (nat \<Rightarrow> timespec) \<Rightarrow> bool" where
  "inputs_ok start now \<longleftrightarrow>
     ts_ok start \<and> tv_sec start < 2 ^ 33 - 11 \<and> (\<forall>i < ITERATIONS. ts_ok (now i))"

lemma deadline_ok:
  assumes "inputs_ok start now" "i \<le> ITERATIONS"
  shows "ts_ok (deadline start i)"
    and "ts_norm (deadline start i)"
proof -
  have s: "0 \<le> nanos start" "nanos start < (2 ^ 33 - 10) * NSEC_PER_SEC"
    using assms(1) by (auto simp: inputs_ok_def ts_ok_def nanos_def NSEC_PER_SEC_def)
  have "int i * PERIOD_NS \<le> 10 * NSEC_PER_SEC"
    using assms(2) by (simp add: ITERATIONS_def PERIOD_NS_def NSEC_PER_SEC_def)
  moreover have "0 \<le> int i * PERIOD_NS" by (simp add: PERIOD_NS_def)
  ultimately have "0 \<le> nanos start + int i * PERIOD_NS"
    "nanos start + int i * PERIOD_NS < 2 ^ 33 * NSEC_PER_SEC"
    using s by (simp_all add: NSEC_PER_SEC_def)
  then show "ts_norm (deadline start i)"
    and "ts_ok (deadline start i)"
    by (simp_all add: deadline_def ts_ok_iff_nanos)
qed


lemma deadline_0: "inputs_ok start now \<Longrightarrow> deadline start 0 = start"
  by (simp add: deadline_def inputs_ok_def ts_of_nanos_nanos ts_ok_norm)

lemma nanos_deadline: "nanos (deadline start i) = nanos start + int i * PERIOD_NS"
  by (simp add: deadline_def)

lemma timespec_add_deadline:
  assumes "inputs_ok start now" "i \<le> ITERATIONS"
  shows "timespec_add (deadline start i) PERIOD_NS = Some (deadline start (Suc i))"
proof -
  have "tv_sec (deadline start i) < 2 ^ 62"
    using deadline_ok(1) [OF assms] by (simp add: ts_ok_def)
  with timespec_add_eq [OF deadline_ok(2) [OF assms]] show ?thesis
    by (simp add: deadline_def PERIOD_NS_def algebra_simps)
qed

section \<open>Advancing a deadline\<close>

text \<open>The \<open>k\<close>-th deadline a program computes, each from the one before; None where it overflows.\<close>

fun advanced :: "(timespec \<Rightarrow> timespec option) \<Rightarrow> nat \<Rightarrow> timespec \<Rightarrow> timespec option" where
  "advanced adv 0 t = Some t"
| "advanced adv (Suc k) t = (case advanced adv k t of None \<Rightarrow> None | Some d \<Rightarrow> adv d)"

text \<open>
  What a loop over deadlines needs of the code that advances one: a period further, and
  normalised again, which is what \<open>clock_nanosleep\<close> accepts.
\<close>

locale deadline_clock =
  fixes adv :: "timespec \<Rightarrow> timespec option"
  assumes adv_eq: "ts_norm t \<Longrightarrow> tv_sec t < 2 ^ 62 \<Longrightarrow> adv t = Some (ts_of_nanos (nanos t + PERIOD_NS))"
begin

lemma advanced_eq:
  assumes "ts_ok start" and "k \<le> 2 ^ 60"
  shows "advanced adv k start = Some (ts_of_nanos (nanos start + int k * PERIOD_NS))"
  using assms(2)
proof (induction k)
  case 0
  show ?case using assms(1) by (simp add: ts_of_nanos_nanos ts_ok_norm)
next
  case (Suc k)
  let ?d = "ts_of_nanos (nanos start + int k * PERIOD_NS)"
  have start: "0 \<le> nanos start" "nanos start < 2 ^ 33 * NSEC_PER_SEC"
    using nanos_bound [OF assms(1)] by simp_all
  have "int k \<le> int (2 ^ 60)" using Suc.prems by (simp only: of_nat_le_iff)
  then have "nanos start + int k * PERIOD_NS < 2 ^ 62 * NSEC_PER_SEC"
    using start by (simp add: PERIOD_NS_def NSEC_PER_SEC_def)
  then have "tv_sec ?d < 2 ^ 62" by (simp add: ts_of_nanos_def NSEC_PER_SEC_def div_less_iff_less_mult)
  moreover have "ts_norm ?d" using start by (simp add: PERIOD_NS_def)
  moreover have "advanced adv k start = Some ?d" using Suc by simp
  ultimately show ?case using adv_eq [of ?d] by (simp add: algebra_simps)
qed

lemma advanced_norm:
  assumes "ts_ok start" and "k \<le> 2 ^ 60"
  shows "\<exists>d. advanced adv k start = Some d \<and> ts_norm d \<and> nanos d = nanos start + int k * PERIOD_NS"
  using advanced_eq [OF assms] nanos_bound [OF assms(1)] by (simp add: PERIOD_NS_def)

end

end
