(* ===== verification/Jitter.thy ===== *)
theory Jitter
  imports Deadlines Sched
begin

text \<open>
  \<open>src/scheduling/latency/measure_jitter.c\<close>: sleeps to absolute deadlines one
  millisecond apart, 10000 times in each of 100 runs, and reports the largest distance
  between a deadline and the time read after it, per run and on average. The clock
  readings and the results of the sleeping and scheduling calls are inputs.
\<close>

section \<open>The code\<close>

definition JITTER_RUNS :: nat where "JITTER_RUNS = 100"

definition ts_ns :: "timespec \<Rightarrow> 64 word" where
  "ts_ns t = word_of_int (tv_sec t) * word_of_int NSEC_PER_SEC + word_of_int (tv_nsec t)"

definition jitter_advance :: "timespec \<Rightarrow> timespec option" where
  "jitter_advance expected = do {
     n \<leftarrow> ladd (tv_nsec expected) PERIOD_NS;
     if NSEC_PER_SEC \<le> n
     then do {
       s \<leftarrow> ladd (tv_sec expected) 1;
       n' \<leftarrow> lsub n NSEC_PER_SEC;
       Some \<lparr>tv_sec = s, tv_nsec = n'\<rparr>
     }
     else Some (expected\<lparr>tv_nsec := n\<rparr>)
   }"

text \<open>
  One pass of \<open>measure_once\<close>: \<open>sleep i\<close> is what \<open>clock_nanosleep\<close> returns and \<open>now i\<close> the
  time read after it. A failing sleep leaves the loop.
\<close>

definition jitter_pass ::
  "(nat \<Rightarrow> int) \<Rightarrow> (nat \<Rightarrow> timespec) \<Rightarrow> nat \<Rightarrow> timespec \<times> 64 word \<Rightarrow>
     (timespec \<times> 64 word, unit) flow" where
  "jitter_pass sleep now i s = (case s of (expected, max_j) \<Rightarrow>
     (case jitter_advance expected of
        None \<Rightarrow> Return ()
      | Some expected' \<Rightarrow>
          if sleep i \<noteq> 0 then Break (expected', max_j)
          else
            let a = ts_ns (now i); b = ts_ns expected';
                diff = (if b < a then a - b else b - a)
            in Next (expected', if max_j < diff then diff else max_j)))"

definition measure_once ::
  "timespec \<Rightarrow> (nat \<Rightarrow> int) \<Rightarrow> (nat \<Rightarrow> timespec) \<Rightarrow> (out list \<times> 64 word) option" where
  "measure_once start sleep now =
     (case for_upto (jitter_pass sleep now) 0 ITERATIONS (start, 0) of
        Next (_, max_j) \<Rightarrow> Some ([], max_j)
      | Break (_, max_j) \<Rightarrow> Some ([Perror ''clock_nanosleep''], max_j)
      | Return _ \<Rightarrow> None)"

record jitter_env =
  j_prio_max :: "policy \<Rightarrow> int"
  j_setsched :: "policy \<Rightarrow> sched_param \<Rightarrow> int"
  j_start :: "nat \<Rightarrow> timespec"
  j_sleep :: "nat \<Rightarrow> nat \<Rightarrow> int"
  j_now :: "nat \<Rightarrow> nat \<Rightarrow> timespec"

definition jitter_run ::
  "jitter_env \<Rightarrow> nat \<Rightarrow> out list \<times> 64 word \<Rightarrow> (out list \<times> 64 word, out list) flow" where
  "jitter_run e r s = (case s of (outs, acc) \<Rightarrow>
     (case measure_once (j_start e r) (j_sleep e r) (j_now e r) of
        None \<Rightarrow> Return outs
      | Some (os, mj) \<Rightarrow>
          Next (outs @ os @ [Printf ''Run %3d: max_jitter = %5llu ns'' [VI (int r), VU mj]],
            acc + mj)))"

definition jitter_main :: "platform \<Rightarrow> jitter_env \<Rightarrow> string \<Rightarrow> string list \<Rightarrow> outcome" where
  "jitter_main pf e prog args = (case args of
     [] \<Rightarrow> say (Eprintf ''Usage: %s [fifo|rr|sporadic]'' [VS prog]) (exits 1)
   | a # _ \<Rightarrow> (case parse_jitter pf a of
       Inl m \<Rightarrow> die m
     | Inr policy \<Rightarrow>
         if j_setsched e policy (sched_args pf policy (j_prio_max e policy)) \<noteq> 0
         then say (Perror (if pf = QNX \<and> policy = SCHED_SPORADIC
                    then ''pthread_setschedparam (sporadic)'' else ''pthread_setschedparam''))
                (exits 1)
         else (case for_upto (jitter_run e) 1 JITTER_RUNS ([], 0) of
             Next (outs, acc) \<Rightarrow> say_all outs
               (say (Printf ''Average over %d runs: %llu ns''
                       [VI (int JITTER_RUNS), VU (acc div of_nat JITTER_RUNS)])
                 (exits 0))
           | Break (outs, _) \<Rightarrow> say_all outs undef
           | Return outs \<Rightarrow> say_all outs undef)))"

section \<open>One measurement\<close>

lemma ts_ns_eq_ns_u64: "ts_ns t = ns_u64 t"
  by (simp add: ts_ns_def ns_u64_def NSEC_PER_SEC_def)

text \<open>The carry by subtraction agrees with the general \<open>timespec_add\<close>.\<close>

lemma jitter_advance_eq:
  assumes "ts_norm t" "tv_sec t < 2 ^ 62"
  shows "jitter_advance t = Some (ts_of_nanos (nanos t + PERIOD_NS))"
proof -
  have "jitter_advance t = timespec_add t PERIOD_NS"
  proof (cases "NSEC_PER_SEC \<le> tv_nsec t + PERIOD_NS")
    case True
    have n: "NSEC_PER_SEC \<le> tv_nsec t + PERIOD_NS"
      "tv_nsec t + PERIOD_NS < 2 * NSEC_PER_SEC"
      using True assms by (simp_all add: ts_norm_def PERIOD_NS_def NSEC_PER_SEC_def)
    then have q: "(tv_nsec t + PERIOD_NS) div NSEC_PER_SEC = 1"
      by (simp add: NSEC_PER_SEC_def)
    have "(tv_nsec t + PERIOD_NS) mod NSEC_PER_SEC = tv_nsec t + PERIOD_NS - NSEC_PER_SEC"
      using minus_div_mult_eq_mod [of "tv_nsec t + PERIOD_NS" NSEC_PER_SEC] q by simp
    with q n have "(tv_nsec t + PERIOD_NS) sdiv NSEC_PER_SEC = 1"
      "(tv_nsec t + PERIOD_NS) smod NSEC_PER_SEC = tv_nsec t + PERIOD_NS - NSEC_PER_SEC"
      by (simp_all add: sdiv_nonneg smod_nonneg NSEC_PER_SEC_def)
    then show ?thesis
      using n assms
      by (simp add: jitter_advance_def timespec_add_def ladd_ok lsub_ok long_ok_def ts_norm_def
          PERIOD_NS_def NSEC_PER_SEC_def)
  next
    case False
    then show ?thesis
      using assms
      by (simp add: jitter_advance_def timespec_add_def ladd_ok long_ok_def ts_norm_def
          PERIOD_NS_def NSEC_PER_SEC_def)
  qed
  with timespec_add_eq [of t PERIOD_NS] assms show ?thesis
    by (simp add: PERIOD_NS_def)
qed

interpretation jitter_clock: deadline_clock jitter_advance
  by unfold_locales (rule jitter_advance_eq)

lemma uint_abs_diff:
  assumes "uint a = x" "uint b = y"
  shows "uint (if b < a then a - b else b - a :: 64 word) = \<bar>x - y\<bar>"
  using assms by (auto simp: word_less_def uint_minus_u64)

text \<open>One pass, from the state the loop is in: the deadline moves on by exactly one period.\<close>

lemma jitter_pass_step:
  assumes ok: "inputs_ok start now" and i: "i < ITERATIONS"
    and m: "uint m = run_max (latency_at start now) i"
  shows "\<exists>m'. jitter_pass sleep now i (deadline start i, m) =
      (if sleep i \<noteq> 0 then Break (deadline start (Suc i), m) else Next (deadline start (Suc i), m')) \<and>
    uint m' = run_max (latency_at start now) (Suc i)"
proof -
  have di: "ts_norm (deadline start i)" "tv_sec (deadline start i) < 2 ^ 62"
    using deadline_ok [OF ok, of i] i by (auto simp: deadline_def ts_ok_def)
  have adv: "jitter_advance (deadline start i) = Some (deadline start (Suc i))"
    using jitter_advance_eq [OF di] by (simp add: deadline_def algebra_simps)
  define a b where "a = ts_ns (now i)" and "b = ts_ns (deadline start (Suc i))"
  define diff where "diff = (if b < a then a - b else b - a)"
  have "ts_ok (now i)" using ok i by (simp add: inputs_ok_def)
  then have "uint a = nanos (now i)" by (simp add: a_def ts_ns_eq_ns_u64 uint_ns_u64)
  moreover have "uint b = nanos start + int (Suc i) * PERIOD_NS"
    using deadline_ok(1) [OF ok, of "Suc i"] i
    by (simp add: b_def deadline_def ts_ns_eq_ns_u64 uint_ns_u64)
  ultimately have diff: "uint diff = latency_at start now i"
    unfolding diff_def latency_at_def by (rule uint_abs_diff)
  have "uint (if m < diff then diff else m) = run_max (latency_at start now) (Suc i)"
    using diff m by (auto simp: run_max_Suc word_less_def)
  moreover have "jitter_pass sleep now i (deadline start i, m) =
      (if sleep i \<noteq> 0 then Break (deadline start (Suc i), m)
       else Next (deadline start (Suc i), if m < diff then diff else m))"
    by (simp add: jitter_pass_def adv a_def b_def diff_def Let_def)
  ultimately show ?thesis by blast
qed

definition jitter_passes :: "(nat \<Rightarrow> int) \<Rightarrow> nat" where
  "jitter_passes sleep = passes (\<lambda>i. sleep i = 0) ITERATIONS"

lemma measure_once_eq:
  assumes ok: "inputs_ok start now"
  shows "\<exists>m. measure_once start sleep now =
      Some (if jitter_passes sleep = ITERATIONS then [] else [Perror ''clock_nanosleep''], m) \<and>
    uint m = run_max (latency_at start now) (jitter_passes sleep)"
proof -
  define I where "I = (\<lambda>i (t, m :: 64 word). t = deadline start i \<and> i \<le> ITERATIONS \<and>
    uint m = run_max (latency_at start now) i \<and> (\<forall>j < i. sleep j = 0))"
  define B where "B = (\<lambda>(t :: timespec, m :: 64 word). \<exists>j < ITERATIONS. sleep j \<noteq> 0 \<and>
    (\<forall>i < j. sleep i = 0) \<and> uint m = run_max (latency_at start now) j)"
  have "case for_upto (jitter_pass sleep now) 0 ITERATIONS (start, 0) of
      Next s \<Rightarrow> I (0 + ITERATIONS) s | Break s \<Rightarrow> B s | Return r \<Rightarrow> False"
  proof (rule for_upto_inv)
    show "I 0 (start, 0)"
      using ok by (simp add: I_def deadline_def inputs_ok_def ts_of_nanos_nanos ts_ok_norm)
  next
    fix j s
    assume j: "I j s" "j < 0 + ITERATIONS"
    obtain t m where s: "s = (t, m)" by fastforce
    with j have "t = deadline start j" "uint m = run_max (latency_at start now) j" "\<forall>i < j. sleep i = 0"
      by (auto simp: I_def)
    with jitter_pass_step [OF ok, of j m sleep] j s
    show "case jitter_pass sleep now j s of Next s' \<Rightarrow> I (Suc j) s' | Break s' \<Rightarrow> B s' | Return r \<Rightarrow> False"
      by (auto simp: I_def B_def less_Suc_eq)
  qed
  then show ?thesis
    by (auto simp: measure_once_def I_def B_def jitter_passes_def passes_all passes_stop split: flow.splits)
qed

section \<open>The average over the runs\<close>

definition jitter_peak :: "jitter_env \<Rightarrow> nat \<Rightarrow> int" where
  "jitter_peak e r = run_max (latency_at (j_start e r) (j_now e r)) (jitter_passes (j_sleep e r))"

text \<open>Runs on a machine that has been up for less than two years, so that no sum wraps.\<close>

definition jitter_env_ok :: "jitter_env \<Rightarrow> bool" where
  "jitter_env_ok e \<longleftrightarrow> (\<forall>r. 1 \<le> r \<and> r \<le> JITTER_RUNS \<longrightarrow>
     ts_ok (j_start e r) \<and> tv_sec (j_start e r) < 2 ^ 26 \<and>
     (\<forall>i < ITERATIONS. ts_ok (j_now e r i) \<and> tv_sec (j_now e r i) < 2 ^ 26))"

lemma jitter_env_inputs:
  "jitter_env_ok e \<Longrightarrow> 1 \<le> r \<Longrightarrow> r \<le> JITTER_RUNS \<Longrightarrow> inputs_ok (j_start e r) (j_now e r)"
  by (auto simp: jitter_env_ok_def inputs_ok_def intro: order.strict_trans)

lemma jitter_passes_le: "jitter_passes sleep \<le> ITERATIONS"
  using length_takeWhile_le [of "\<lambda>i. sleep i = 0" "[0..<ITERATIONS]"]
  by (simp add: jitter_passes_def passes_def)

lemma jitter_peak_bounds:
  assumes ok: "jitter_env_ok e" and r: "1 \<le> r" "r \<le> JITTER_RUNS"
  shows "0 \<le> jitter_peak e r" and "jitter_peak e r \<le> (2 ^ 26 + 10) * NSEC_PER_SEC"
proof -
  show "0 \<le> jitter_peak e r" by (simp add: jitter_peak_def run_max_nonneg)
  have s: "0 \<le> nanos (j_start e r)" "nanos (j_start e r) \<le> 2 ^ 26 * NSEC_PER_SEC"
    using ok r by (auto simp: jitter_env_ok_def ts_ok_def nanos_def NSEC_PER_SEC_def)
  show "jitter_peak e r \<le> (2 ^ 26 + 10) * NSEC_PER_SEC"
    unfolding jitter_peak_def
  proof (rule run_max_le)
    fix i
    assume "i < jitter_passes (j_sleep e r)"
    then have i: "i < ITERATIONS" using jitter_passes_le by (rule less_le_trans)
    have now: "ts_ok (j_now e r i) \<and> tv_sec (j_now e r i) < 2 ^ 26"
      using ok r i unfolding jitter_env_ok_def by blast
    then have "0 \<le> nanos (j_now e r i)" "nanos (j_now e r i) \<le> 2 ^ 26 * NSEC_PER_SEC"
      by (auto simp: ts_ok_def nanos_def NSEC_PER_SEC_def)
    moreover have "int (Suc i) * PERIOD_NS \<le> 10 * NSEC_PER_SEC"
      "0 \<le> int (Suc i) * PERIOD_NS"
      using i by (simp_all add: ITERATIONS_def PERIOD_NS_def NSEC_PER_SEC_def)
    ultimately show "latency_at (j_start e r) (j_now e r) i \<le> (2 ^ 26 + 10) * NSEC_PER_SEC"
      using s by (simp add: latency_at_def NSEC_PER_SEC_def abs_le_iff)
  qed (simp add: NSEC_PER_SEC_def)
qed

lemma jitter_runs_sum:
  assumes ok: "jitter_env_ok e"
  shows "\<exists>outs acc. for_upto (jitter_run e) 1 JITTER_RUNS ([], 0) = Next (outs, acc) \<and>
    uint acc = (\<Sum>r = 1..JITTER_RUNS. jitter_peak e r)"
proof -
  define I where "I = (\<lambda>r (outs :: out list, acc :: 64 word). 1 \<le> r \<and> r \<le> Suc JITTER_RUNS \<and>
    uint acc = (\<Sum>q = 1..<r. jitter_peak e q) \<and>
    uint acc \<le> int (r - 1) * ((2 ^ 26 + 10) * NSEC_PER_SEC))"
  have "case for_upto (jitter_run e) 1 JITTER_RUNS ([], 0) of
      Next s \<Rightarrow> I (1 + JITTER_RUNS) s | Break s \<Rightarrow> False | Return r \<Rightarrow> False"
  proof (rule for_upto_inv)
    show "I 1 ([], 0)" by (simp add: I_def)
  next
    fix r s
    assume "I r s" "r < 1 + JITTER_RUNS"
    moreover obtain outs acc where s: "s = (outs, acc)" by fastforce
    ultimately have r: "1 \<le> r" "r \<le> JITTER_RUNS"
      and acc: "uint acc = (\<Sum>q = 1..<r. jitter_peak e q)"
        "uint acc \<le> int (r - 1) * ((2 ^ 26 + 10) * NSEC_PER_SEC)"
      by (auto simp: I_def)
    from measure_once_eq [OF jitter_env_inputs [OF ok r], of "j_sleep e r"]
    obtain os m where m: "measure_once (j_start e r) (j_sleep e r) (j_now e r) = Some (os, m)"
      "uint m = jitter_peak e r"
      by (auto simp: jitter_peak_def)
    have "int (r - 1) \<le> 99" using r by (simp add: JITTER_RUNS_def)
    then have "int (r - 1) * ((2 ^ 26 + 10) * NSEC_PER_SEC) \<le> 99 * ((2 ^ 26 + 10) * NSEC_PER_SEC)"
      by (intro mult_right_mono) (simp_all add: NSEC_PER_SEC_def)
    then have "uint acc + uint m < 2 ^ 64"
      using acc(2) m(2) jitter_peak_bounds(2) [OF ok r] by (simp add: NSEC_PER_SEC_def)
    then have "uint (acc + m) = uint acc + uint m" by (rule uint_plus_u64)
    moreover have "{1..<Suc r} = insert r {1..<r}" using r by auto
    moreover have "int (Suc r - 1) = int (r - 1) + 1" using r by simp
    ultimately have "I (Suc r) (outs @ os @
        [Printf ''Run %3d: max_jitter = %5llu ns'' [VI (int r), VU m]], acc + m)"
      using r acc m(2) jitter_peak_bounds(2) [OF ok r] by (simp add: I_def algebra_simps)
    then show "case jitter_run e r s of Next s' \<Rightarrow> I (Suc r) s' | Break s' \<Rightarrow> False | Return r \<Rightarrow> False"
      by (simp add: jitter_run_def s m(1))
  qed
  then show ?thesis
    by (auto simp: I_def atLeastLessThanSuc_atLeastAtMost split: flow.splits)
qed

section \<open>Properties\<close>

text \<open>One measurement returns the largest distance, in nanoseconds, between the i-th
  reading and the i-th deadline (start plus i + 1 periods), over the passes before the
  first failing sleep; it prints a message exactly if a sleep failed, and no operation
  overflows.\<close>

theorem jitter_measure_once_maximum:
  assumes "inputs_ok start now"
  shows "\<exists>m. measure_once start sleep now =
      Some (if jitter_passes sleep = ITERATIONS then [] else [Perror ''clock_nanosleep''], m) \<and>
    uint m = run_max (latency_at start now) (jitter_passes sleep)"
  using assms by (rule measure_once_eq)

theorem jitter_measure_once_maximum_witness:
  "\<exists>m. measure_once \<lparr>tv_sec = 5, tv_nsec = 999999999\<rparr> (\<lambda>i. if i = 7 then 4 else 0)
      (\<lambda>i. \<lparr>tv_sec = 6, tv_nsec = int i\<rparr>) =
      Some (if jitter_passes (\<lambda>i. if i = 7 then 4 else 0) = ITERATIONS then []
            else [Perror ''clock_nanosleep''], m) \<and>
    uint m = run_max (latency_at \<lparr>tv_sec = 5, tv_nsec = 999999999\<rparr> (\<lambda>i. \<lparr>tv_sec = 6, tv_nsec = int i\<rparr>))
      (jitter_passes (\<lambda>i. if i = 7 then 4 else 0))"
  by (rule jitter_measure_once_maximum)
    (simp add: inputs_ok_def ts_ok_def NSEC_PER_SEC_def ITERATIONS_def)

text \<open>C13. The whole program, given a known policy the system accepts: it exits with 0 after
  printing the integer average of the hundred maxima; the unsigned sum of the maxima does
  not wrap.\<close>

theorem jitter_main_average:
  assumes "jitter_env_ok e" and "parse_jitter pf a = Inr p"
    and "j_setsched e p (sched_args pf p (j_prio_max e p)) = 0"
  shows "\<exists>outs avg. jitter_main pf e prog (a # as) =
      (outs @ [Printf ''Average over %d runs: %llu ns'' [VI 100, VU avg]], Exits 0) \<and>
    uint avg = (\<Sum>r = 1..100. jitter_peak e r) div 100"
proof -
  from jitter_runs_sum [OF assms(1)] obtain outs acc
    where "for_upto (jitter_run e) 1 JITTER_RUNS ([], 0) = Next (outs, acc)"
      "uint acc = (\<Sum>r = 1..JITTER_RUNS. jitter_peak e r)" by blast
  moreover have "uint (acc div (100 :: 64 word)) = uint acc div 100" by (simp add: uint_div)
  ultimately show ?thesis
    using assms(2,3) by (simp add: jitter_main_def JITTER_RUNS_def)
qed

definition jitter_demo :: jitter_env where
  "jitter_demo = \<lparr>j_prio_max = (\<lambda>_. 99), j_setsched = (\<lambda>_ _. 0),
     j_start = (\<lambda>r. \<lparr>tv_sec = int r, tv_nsec = 0\<rparr>), j_sleep = (\<lambda>_ _. 0),
     j_now = (\<lambda>r i. \<lparr>tv_sec = 200, tv_nsec = int i\<rparr>)\<rparr>"

theorem jitter_main_average_witness:
  "\<exists>outs avg. jitter_main Linux jitter_demo ''jitter'' [''rr''] =
      (outs @ [Printf ''Average over %d runs: %llu ns'' [VI 100, VU avg]], Exits 0) \<and>
    uint avg = (\<Sum>r = 1..100. jitter_peak jitter_demo r) div 100"
  by (rule jitter_main_average [where p = SCHED_RR])
    (simp_all add: jitter_env_ok_def jitter_demo_def ts_ok_def NSEC_PER_SEC_def
      ITERATIONS_def JITTER_RUNS_def parse_jitter_def)

end
