(* ===== verification/MaxLatency.thy ===== *)
theory MaxLatency
  imports Deadlines Sched
begin

text \<open>
  \<open>src/scheduling/latency/max_latency_scheduling.c\<close>: one process under a real-time
  policy, waking up every millisecond; it reports the largest distance between a deadline
  and the time read after it. A failing sleep is reported but does not stop the loop.
\<close>

section \<open>The code\<close>

type_synonym ml_state = "timespec \<times> int \<times> out list"

text \<open>One pass of the loop in main, from the next deadline, the maximum so far and the messages.\<close>

definition ml_pass ::
  "(nat \<Rightarrow> int) \<Rightarrow> (nat \<Rightarrow> timespec) \<Rightarrow> nat \<Rightarrow> ml_state \<Rightarrow> (ml_state, out list) flow" where
  "ml_pass sleep now i s = (case s of (nxt, max_latency, outs) \<Rightarrow>
     let outs' = (if sleep i \<noteq> 0 then outs @ [Perror ''clock_nanosleep''] else outs) in
     (case do {
        latency \<leftarrow> timespec_diff_ns (now i) nxt;
        latency' \<leftarrow> (if latency < 0 then lneg latency else Some latency);
        nxt' \<leftarrow> timespec_add nxt PERIOD_NS;
        Some (nxt', if max_latency < latency' then latency' else max_latency)
      } of
        None \<Rightarrow> Return outs'
      | Some (nxt', max_latency') \<Rightarrow> Next (nxt', max_latency', outs')))"

record ml_env =
  ml_prio_max :: "policy \<Rightarrow> int"
  ml_affinity :: int
  ml_rlimit :: int
  ml_setsched :: "policy \<Rightarrow> sched_param \<Rightarrow> int"
  ml_start :: timespec
  ml_sleep :: "nat \<Rightarrow> int"
  ml_now :: "nat \<Rightarrow> timespec"

text \<open>The measurement: from the first clock reading to the report.\<close>

definition ml_measure :: "timespec \<Rightarrow> (nat \<Rightarrow> int) \<Rightarrow> (nat \<Rightarrow> timespec) \<Rightarrow> outcome" where
  "ml_measure start sleep now =
     (case timespec_add start PERIOD_NS of
        None \<Rightarrow> undef
      | Some nxt \<Rightarrow>
          (case for_upto (ml_pass sleep now) 0 ITERATIONS (nxt, 0, []) of
             Next (_, max_latency, outs) \<Rightarrow> say_all outs
               (say (Printf ''Max latency observed: %ld ns'' [VI max_latency]) (exits 0))
           | Break (_, _, outs) \<Rightarrow> say_all outs undef
           | Return outs \<Rightarrow> say_all outs undef))"

definition max_latency_main :: "platform \<Rightarrow> ml_env \<Rightarrow> string \<Rightarrow> string list \<Rightarrow> outcome" where
  "max_latency_main pf e prog args = (case args of
     [] \<Rightarrow> die (Eprintf ''Usage: %s [fifo|rr|sporadic]'' [VS prog])
   | a # _ \<Rightarrow> (case parse_max_latency pf a of
       Inl m \<Rightarrow> die m
     | Inr policy \<Rightarrow>
         let prio = ml_prio_max e policy in
         if pf = Linux \<and> ml_affinity e \<noteq> 0 then die (Perror ''sched_setaffinity'')
         else if pf = Linux \<and> ml_rlimit e \<noteq> 0 then die (Perror ''setrlimit'')
         else
           let rc = ml_setsched e policy (sched_args pf policy prio) in
           if pf = QNX \<and> policy = SCHED_SPORADIC
           then (if rc \<noteq> 0 then die (Perror ''sched_setscheduler (sporadic)'')
                 else ml_measure (ml_start e) (ml_sleep e) (ml_now e))
           else say_all (if rc \<noteq> 0 then [Perror ''sched_setscheduler''] else [])
                  (ml_measure (ml_start e) (ml_sleep e) (ml_now e))))"

section \<open>The loop\<close>

interpretation ml_clock: deadline_clock "\<lambda>t. timespec_add t PERIOD_NS"
  by unfold_locales (simp add: timespec_add_eq PERIOD_NS_def)

definition ml_complaints :: "(nat \<Rightarrow> int) \<Rightarrow> nat \<Rightarrow> out list" where
  "ml_complaints sleep n =
     map (\<lambda>_. Perror ''clock_nanosleep'') (filter (\<lambda>i. sleep i \<noteq> 0) [0..<n])"

lemma ml_complaints_Suc:
  "ml_complaints sleep (Suc n) =
     ml_complaints sleep n @ (if sleep n \<noteq> 0 then [Perror ''clock_nanosleep''] else [])"
  by (simp add: ml_complaints_def)

lemma checked_abs:
  "ts_ok a \<Longrightarrow> ts_ok b \<Longrightarrow> x = nanos a - nanos b \<Longrightarrow>
     (if x < 0 then lneg x else Some x) = Some \<bar>x\<bar>"
  using nanos_bound [of a] nanos_bound [of b]
  by (simp add: lneg_ok NSEC_PER_SEC_def long_ok_def)

lemma ml_pass_step:
  assumes ok: "inputs_ok start now" and i: "i < ITERATIONS"
  shows "ml_pass sleep now i (deadline start (Suc i), run_max (latency_at start now) i, outs) =
    (case timespec_add (deadline start (Suc i)) PERIOD_NS of
       None \<Rightarrow> Return (outs @ (if sleep i \<noteq> 0 then [Perror ''clock_nanosleep''] else []))
     | Some nxt \<Rightarrow> Next (nxt, run_max (latency_at start now) (Suc i),
         outs @ (if sleep i \<noteq> 0 then [Perror ''clock_nanosleep''] else [])))"
proof -
  have now: "ts_ok (now i)" using ok i by (simp add: inputs_ok_def)
  have d: "ts_ok (deadline start (Suc i))" using deadline_ok(1) [OF ok, of "Suc i"] i by simp
  define x where "x = nanos (now i) - nanos (deadline start (Suc i))"
  have x: "timespec_diff_ns (now i) (deadline start (Suc i)) = Some x"
    by (simp add: timespec_diff_ns_eq now d x_def)
  have "(if x < 0 then lneg x else Some x) = Some \<bar>x\<bar>"
    by (rule checked_abs [OF now d x_def])
  moreover have "\<bar>x\<bar> = latency_at start now i"
    by (simp add: x_def latency_at_def nanos_deadline)
  ultimately show ?thesis
    by (simp add: ml_pass_def x run_max_Suc max_def Let_def not_le split: option.split)
qed

lemma ml_loop:
  assumes ok: "inputs_ok start now"
  shows "\<exists>nxt. for_upto (ml_pass sleep now) 0 ITERATIONS (deadline start (Suc 0), 0, []) =
    Next (nxt, run_max (latency_at start now) ITERATIONS, ml_complaints sleep ITERATIONS)"
proof -
  define I where "I = (\<lambda>i (t, m, outs). (i < ITERATIONS \<longrightarrow> t = deadline start (Suc i)) \<and>
    m = run_max (latency_at start now) i \<and> outs = ml_complaints sleep i)"
  have "case for_upto (ml_pass sleep now) 0 ITERATIONS (deadline start (Suc 0), 0, []) of
      Next s \<Rightarrow> I (0 + ITERATIONS) s | Break s \<Rightarrow> False | Return r \<Rightarrow> False"
  proof (rule for_upto_inv)
    show "I 0 (deadline start (Suc 0), 0, [])" by (simp add: I_def ml_complaints_def)
  next
    fix i s
    assume a: "I i s" "i < 0 + ITERATIONS"
    then have s: "s = (deadline start (Suc i), run_max (latency_at start now) i, ml_complaints sleep i)"
      by (auto simp: I_def)
    from a(2) have "timespec_add (deadline start (Suc i)) PERIOD_NS = Some (deadline start (Suc (Suc i)))"
      by (intro timespec_add_deadline [OF ok]) simp
    with ml_pass_step [OF ok, of i sleep] a(2)
    show "case ml_pass sleep now i s of Next s' \<Rightarrow> I (Suc i) s' | Break s' \<Rightarrow> False | Return r \<Rightarrow> False"
      unfolding s by (simp add: I_def ml_complaints_Suc)
  qed
  then show ?thesis by (auto simp: I_def split: flow.splits)
qed

lemma ml_measure_eq:
  assumes ok: "inputs_ok start now"
  shows "ml_measure start sleep now =
    (ml_complaints sleep ITERATIONS @
       [Printf ''Max latency observed: %ld ns'' [VI (run_max (latency_at start now) ITERATIONS)]],
     Exits 0)"
proof -
  have "timespec_add start PERIOD_NS = Some (deadline start (Suc 0))"
    using timespec_add_deadline [OF ok, of 0] by (simp add: deadline_0 [OF ok])
  with ml_loop [OF ok, of sleep] show ?thesis by (auto simp: ml_measure_def)
qed

section \<open>Properties\<close>

text \<open>C23. With a known policy that the system accepts, the program reports the largest
  distance between the ten thousand readings and their deadlines (start plus i + 1
  periods), after one message for each failing sleep, and exits with 0; no signed
  operation overflows.\<close>

theorem max_latency_reports_maximum:
  assumes "inputs_ok (ml_start e) (ml_now e)" and "parse_max_latency pf a = Inr p"
    and "pf = Linux \<Longrightarrow> ml_affinity e = 0 \<and> ml_rlimit e = 0"
    and "ml_setsched e p (sched_args pf p (ml_prio_max e p)) = 0"
  shows "max_latency_main pf e prog (a # as) =
    (ml_complaints (ml_sleep e) ITERATIONS @
       [Printf ''Max latency observed: %ld ns''
          [VI (run_max (latency_at (ml_start e) (ml_now e)) ITERATIONS)]], Exits 0)"
  using assms(2-4)
  by (cases pf; cases "p = SCHED_SPORADIC")
    (simp_all add: max_latency_main_def ml_measure_eq [OF assms(1)] Let_def)

definition ml_demo :: ml_env where
  "ml_demo = \<lparr>ml_prio_max = (\<lambda>_. 99), ml_affinity = 0, ml_rlimit = 0, ml_setsched = (\<lambda>_ _. 0),
     ml_start = \<lparr>tv_sec = 3, tv_nsec = 5\<rparr>, ml_sleep = (\<lambda>i. if i = 2 then 4 else 0),
     ml_now = (\<lambda>i. \<lparr>tv_sec = 4, tv_nsec = int i\<rparr>)\<rparr>"

theorem max_latency_reports_maximum_witness:
  "max_latency_main QNX ml_demo ''max_latency'' [''sporadic''] =
    (ml_complaints (ml_sleep ml_demo) ITERATIONS @
       [Printf ''Max latency observed: %ld ns''
          [VI (run_max (latency_at (ml_start ml_demo) (ml_now ml_demo)) ITERATIONS)]], Exits 0)"
  by (rule max_latency_reports_maximum [where p = SCHED_SPORADIC])
    (simp_all add: inputs_ok_def ml_demo_def ts_ok_def NSEC_PER_SEC_def ITERATIONS_def
      parse_max_latency_def)

end
