(* ===== verification/Deterministic.thy ===== *)
theory Deterministic
  imports Deadlines Sched Machines
begin

text \<open>
  \<open>src/scheduling/latency/deterministic_latency.c\<close>: a real-time thread wakes up every
  millisecond while three load threads compete for the CPU; they poll the flag \<open>running\<close>,
  which the real-time thread clears when it is done. The first part models the
  real-time thread's computation and main; the second the threads and the flag.
\<close>

section \<open>The real-time thread\<close>

definition LOAD_THREADS :: nat where "LOAD_THREADS = 3"

text \<open>The deadline is advanced in place, with the carry of \<open>timespec_add\<close>.\<close>

definition rt_advance :: "timespec \<Rightarrow> timespec option" where
  "rt_advance nxt = do {
     n \<leftarrow> ladd (tv_nsec nxt) PERIOD_NS;
     if NSEC_PER_SEC \<le> n
     then do {
       s \<leftarrow> ladd (tv_sec nxt) (n sdiv NSEC_PER_SEC);
       Some \<lparr>tv_sec = s, tv_nsec = n smod NSEC_PER_SEC\<rparr>
     }
     else Some (nxt\<lparr>tv_nsec := n\<rparr>)
   }"

text \<open>On QNX the deadline is passed to the kernel as one number.\<close>

definition rt_abs_ns :: "timespec \<Rightarrow> 64 word option" where
  "rt_abs_ns nxt = do {
     m \<leftarrow> lmul (tv_sec nxt) NSEC_PER_SEC;
     x \<leftarrow> ladd m (tv_nsec nxt);
     Some (word_of_int x)
   }"

definition rt_latency :: "timespec \<Rightarrow> timespec \<Rightarrow> int option" where
  "rt_latency now nxt = do {
     dsec \<leftarrow> lsub (tv_sec now) (tv_sec nxt);
     dnsec \<leftarrow> lsub (tv_nsec now) (tv_nsec nxt);
     m \<leftarrow> lmul dsec NSEC_PER_SEC;
     x \<leftarrow> ladd m dnsec;
     (if x < 0 then lneg x else Some x)
   }"

text \<open>
  The wait of one pass: on QNX \<open>wait i x\<close> is what \<open>TimerTimeout\<close> returns for the
  timeout \<open>x\<close> (0 is EOK), and another value leaves the loop; the result of
  \<open>clock_nanosleep\<close> on the other platform is not looked at.
\<close>

definition rt_wait :: "platform \<Rightarrow> (nat \<Rightarrow> 64 word \<Rightarrow> int) \<Rightarrow> nat \<Rightarrow> timespec \<Rightarrow> bool option" where
  "rt_wait pf wait i nxt =
     (if pf = QNX then do { abs_ns \<leftarrow> rt_abs_ns nxt; Some (wait i abs_ns = 0) } else Some True)"

definition rt_pass ::
  "platform \<Rightarrow> (nat \<Rightarrow> 64 word \<Rightarrow> int) \<Rightarrow> (nat \<Rightarrow> timespec) \<Rightarrow> nat \<Rightarrow> timespec \<times> int \<Rightarrow>
     (timespec \<times> int, unit) flow" where
  "rt_pass pf wait now i s = (case s of (nxt, max_latency) \<Rightarrow>
     (case rt_advance nxt of
        None \<Rightarrow> Return ()
      | Some nxt' \<Rightarrow>
          (case rt_wait pf wait i nxt' of
             None \<Rightarrow> Return ()
           | Some False \<Rightarrow> Break (nxt', max_latency)
           | Some True \<Rightarrow>
               (case rt_latency (now i) nxt' of
                  None \<Rightarrow> Return ()
                | Some latency \<Rightarrow>
                    Next (nxt', if max_latency < latency then latency else max_latency)))))"

definition rt_thread ::
  "platform \<Rightarrow> timespec \<Rightarrow> (nat \<Rightarrow> 64 word \<Rightarrow> int) \<Rightarrow> (nat \<Rightarrow> timespec) \<Rightarrow> out list option" where
  "rt_thread pf start wait now =
     (case for_upto (rt_pass pf wait now) 0 ITERATIONS (start, 0) of
        Next (_, max_latency) \<Rightarrow> Some [Printf ''Max wake-up latency = %ld ns'' [VI max_latency]]
      | Break (_, max_latency) \<Rightarrow>
          Some [Perror ''TimerTimeout'', Printf ''Max wake-up latency = %ld ns'' [VI max_latency]]
      | Return _ \<Rightarrow> None)"

section \<open>main\<close>

record det_env =
  d_create_load :: "nat \<Rightarrow> int"
  d_create_rt :: "policy \<Rightarrow> sched_param \<Rightarrow> int"
  d_strerror :: "int \<Rightarrow> string"
  d_start :: timespec
  d_wait :: "nat \<Rightarrow> 64 word \<Rightarrow> int"
  d_now :: "nat \<Rightarrow> timespec"

definition det_spawn :: "det_env \<Rightarrow> nat \<Rightarrow> unit \<Rightarrow> (unit, out) flow" where
  "det_spawn e i s =
     (let ret = d_create_load e i in
      if ret \<noteq> 0
      then Return (Eprintf ''pthread_create load[%d] failed: %s'' [VI (int i), VS (d_strerror e ret)])
      else Next ())"

text \<open>
  After the threads are created main joins them; section \<open>The threads and the flag\<close>
  shows that the joins return.
\<close>

definition det_main :: "platform \<Rightarrow> det_env \<Rightarrow> string \<Rightarrow> string list \<Rightarrow> outcome" where
  "det_main pf e prog args = (case args of
     [] \<Rightarrow> die (Eprintf ''Usage: %s [fifo|rr|sporadic]'' [VS prog])
   | a # _ \<Rightarrow> (case parse_deterministic pf a of
       Inl m \<Rightarrow> die m
     | Inr policy \<Rightarrow> (case for_upto (det_spawn e) 0 LOAD_THREADS () of
         Return m \<Rightarrow> die m
       | _ \<Rightarrow>
           let ret = d_create_rt e policy (sched_args pf policy 80) in
           if ret \<noteq> 0
           then die (Eprintf ''pthread_create rt failed: %s'' [VS (d_strerror e ret)])
           else (case rt_thread pf (d_start e) (d_wait e) (d_now e) of
               None \<Rightarrow> undef
             | Some outs \<Rightarrow> say_all outs (exits 0)))))"

section \<open>What the real-time thread reports\<close>

lemma rt_advance_eq: "rt_advance t = timespec_add t PERIOD_NS"
  by (simp add: rt_advance_def timespec_add_def)

interpretation rt_clock: deadline_clock rt_advance
  by unfold_locales (simp add: rt_advance_eq timespec_add_eq PERIOD_NS_def)

lemma rt_abs_ns_eq:
  assumes "ts_ok t"
  shows "rt_abs_ns t = Some (ns_u64 t)"
proof -
  have "lmul (tv_sec t) NSEC_PER_SEC = Some (tv_sec t * NSEC_PER_SEC)"
    using assms by (intro lmul_ok) (simp add: ts_ok_def long_ok_def NSEC_PER_SEC_def)
  moreover have "ladd (tv_sec t * NSEC_PER_SEC) (tv_nsec t) = Some (nanos t)"
    using nanos_bound [OF assms] unfolding nanos_def
    by (intro ladd_ok) (simp add: long_ok_def NSEC_PER_SEC_def)
  ultimately show ?thesis
    by (simp add: rt_abs_ns_def ns_u64_def nanos_def NSEC_PER_SEC_def)
qed

lemma rt_latency_eq:
  assumes "ts_ok now" "ts_ok nxt"
  shows "rt_latency now nxt = Some \<bar>nanos now - nanos nxt\<bar>"
proof -
  have "lsub (tv_sec now) (tv_sec nxt) = Some (tv_sec now - tv_sec nxt)"
    "lsub (tv_nsec now) (tv_nsec nxt) = Some (tv_nsec now - tv_nsec nxt)"
    using assms by (auto intro!: lsub_ok simp: long_ok_def ts_ok_def NSEC_PER_SEC_def)
  moreover have "lmul (tv_sec now - tv_sec nxt) NSEC_PER_SEC =
      Some ((tv_sec now - tv_sec nxt) * NSEC_PER_SEC)"
    using assms by (intro lmul_ok) (auto simp: long_ok_def ts_ok_def NSEC_PER_SEC_def)
  moreover have x: "(tv_sec now - tv_sec nxt) * NSEC_PER_SEC + (tv_nsec now - tv_nsec nxt) =
      nanos now - nanos nxt"
    by (simp add: nanos_def left_diff_distrib)
  moreover have ok: "long_ok (nanos now - nanos nxt)" "long_ok (- (nanos now - nanos nxt))"
    using nanos_bound [OF assms(1)] nanos_bound [OF assms(2)]
    by (simp_all add: long_ok_def NSEC_PER_SEC_def)
  moreover have "ladd ((tv_sec now - tv_sec nxt) * NSEC_PER_SEC) (tv_nsec now - tv_nsec nxt) =
      Some (nanos now - nanos nxt)"
    unfolding x [symmetric] by (rule ladd_ok) (use ok x in simp)
  ultimately show ?thesis
    using lneg_ok [OF ok(2)] by (simp add: rt_latency_def abs_if)
qed

text \<open>Whether pass \<open>i\<close> gets past its wait: the kernel call is asked for exactly the deadline.\<close>

definition rt_waits :: "platform \<Rightarrow> timespec \<Rightarrow> (nat \<Rightarrow> 64 word \<Rightarrow> int) \<Rightarrow> nat \<Rightarrow> bool" where
  "rt_waits pf start wait i \<longleftrightarrow> pf = QNX \<longrightarrow> wait i (ns_u64 (deadline start (Suc i))) = 0"

lemma rt_pass_step:
  assumes ok: "inputs_ok start now" and i: "i < ITERATIONS"
  shows "rt_pass pf wait now i (deadline start i, run_max (latency_at start now) i) =
    (if rt_waits pf start wait i
     then Next (deadline start (Suc i), run_max (latency_at start now) (Suc i))
     else Break (deadline start (Suc i), run_max (latency_at start now) i))"
proof -
  have adv: "rt_advance (deadline start i) = Some (deadline start (Suc i))"
    using i by (simp add: rt_advance_eq timespec_add_deadline [OF ok])
  have d: "ts_ok (deadline start (Suc i))" using deadline_ok(1) [OF ok, of "Suc i"] i by simp
  have now: "ts_ok (now i)" using ok i by (simp add: inputs_ok_def)
  have w: "rt_wait pf wait i (deadline start (Suc i)) = Some (rt_waits pf start wait i)"
    by (simp add: rt_wait_def rt_abs_ns_eq [OF d] rt_waits_def)
  have l: "rt_latency (now i) (deadline start (Suc i)) = Some (latency_at start now i)"
    using rt_latency_eq [OF now d] by (simp add: latency_at_def nanos_deadline)
  show ?thesis
    by (simp add: rt_pass_def adv w l run_max_Suc max_def not_le)
qed

lemma rt_thread_eq:
  assumes ok: "inputs_ok start now"
  shows "rt_thread pf start wait now = Some
    ((if passes (rt_waits pf start wait) ITERATIONS = ITERATIONS then [] else [Perror ''TimerTimeout'']) @
     [Printf ''Max wake-up latency = %ld ns''
        [VI (run_max (latency_at start now) (passes (rt_waits pf start wait) ITERATIONS))]])"
proof -
  define I where "I = (\<lambda>i (t, m). t = deadline start i \<and> m = run_max (latency_at start now) i \<and>
    (\<forall>j < i. rt_waits pf start wait j))"
  define B where "B = (\<lambda>(t :: timespec, m). \<exists>j < ITERATIONS. \<not> rt_waits pf start wait j \<and>
    (\<forall>i < j. rt_waits pf start wait i) \<and> m = run_max (latency_at start now) j)"
  have "case for_upto (rt_pass pf wait now) 0 ITERATIONS (start, 0) of
      Next s \<Rightarrow> I (0 + ITERATIONS) s | Break s \<Rightarrow> B s | Return r \<Rightarrow> False"
  proof (rule for_upto_inv)
    show "I 0 (start, 0)" by (simp add: I_def deadline_0 [OF ok])
  next
    fix j s
    assume "I j s" "j < 0 + ITERATIONS"
    then show "case rt_pass pf wait now j s of Next s' \<Rightarrow> I (Suc j) s' | Break s' \<Rightarrow> B s' | Return r \<Rightarrow> False"
      using rt_pass_step [OF ok, of j pf wait] by (auto simp: I_def B_def less_Suc_eq)
  qed
  then show ?thesis
    by (auto simp: rt_thread_def I_def B_def passes_all passes_stop split: flow.splits)
qed

section \<open>The threads and the flag\<close>

text \<open>
  A load thread tests \<open>running\<close>, works (the busy loop and \<open>usleep\<close>), and tests again;
  it ends when it sees the flag cleared. The real-time thread makes its passes (on QNX it
  may leave them early), then prints, clears the flag and ends. Main joins the real-time
  thread and then the load threads in order.
\<close>

datatype load_pc = Testing | Working | Ended

datatype det_pc = Join_rt | Join_load nat | Returned

record det_state =
  rt_left :: nat
  rt_ended :: bool
  running :: bool
  loaders :: "load_pc list"
  main_pc :: det_pc

definition det_init :: "det_state \<Rightarrow> bool" where
  "det_init s \<longleftrightarrow> s = \<lparr>rt_left = ITERATIONS, rt_ended = False, running = True,
     loaders = replicate LOAD_THREADS Testing, main_pc = Join_rt\<rparr>"

inductive det_step :: "det_state \<Rightarrow> det_state \<Rightarrow> bool" where
  rt_iterate: "rt_left s = Suc n \<Longrightarrow> det_step s (s\<lparr>rt_left := n\<rparr>)"
| rt_break: "0 < rt_left s \<Longrightarrow> det_step s (s\<lparr>rt_left := 0\<rparr>)"
| rt_finish: "rt_left s = 0 \<Longrightarrow> \<not> rt_ended s \<Longrightarrow>
    det_step s (s\<lparr>running := False, rt_ended := True\<rparr>)"
| load_back: "i < length (loaders s) \<Longrightarrow> loaders s ! i = Working \<Longrightarrow>
    det_step s (s\<lparr>loaders := (loaders s)[i := Testing]\<rparr>)"
| load_end: "i < length (loaders s) \<Longrightarrow> loaders s ! i = Testing \<Longrightarrow> \<not> running s \<Longrightarrow>
    det_step s (s\<lparr>loaders := (loaders s)[i := Ended]\<rparr>)"
| join_rt: "main_pc s = Join_rt \<Longrightarrow> rt_ended s \<Longrightarrow> det_step s (s\<lparr>main_pc := Join_load 0\<rparr>)"
| join_load: "main_pc s = Join_load i \<Longrightarrow> i < LOAD_THREADS \<Longrightarrow> loaders s ! i = Ended \<Longrightarrow>
    det_step s (s\<lparr>main_pc := Join_load (Suc i)\<rparr>)"
| main_return: "main_pc s = Join_load LOAD_THREADS \<Longrightarrow> det_step s (s\<lparr>main_pc := Returned\<rparr>)"

text \<open>A load thread that sees the flag set goes round its loop: the environment's choice.\<close>

inductive det_load_pass :: "det_state \<Rightarrow> det_state \<Rightarrow> bool" where
  load_work: "i < length (loaders s) \<Longrightarrow> loaders s ! i = Testing \<Longrightarrow> running s \<Longrightarrow>
    det_load_pass s (s\<lparr>loaders := (loaders s)[i := Working]\<rparr>)"

definition det_inv :: "det_state \<Rightarrow> bool" where
  "det_inv s \<longleftrightarrow> length (loaders s) = LOAD_THREADS \<and> (running s \<longleftrightarrow> \<not> rt_ended s) \<and>
     (rt_ended s \<longrightarrow> rt_left s = 0) \<and>
     (main_pc s \<noteq> Join_rt \<longrightarrow> rt_ended s) \<and>
     (\<forall>i. main_pc s = Join_load i \<longrightarrow> i \<le> LOAD_THREADS \<and> (\<forall>j < i. loaders s ! j = Ended)) \<and>
     (main_pc s = Returned \<longrightarrow> (\<forall>j < LOAD_THREADS. loaders s ! j = Ended))"

definition det_final :: "det_state \<Rightarrow> bool" where
  "det_final s \<longleftrightarrow> main_pc s = Returned"

fun load_weight :: "load_pc \<Rightarrow> nat" where
  "load_weight Working = 2"
| "load_weight Testing = 1"
| "load_weight Ended = 0"

fun main_weight :: "det_pc \<Rightarrow> nat" where
  "main_weight Join_rt = LOAD_THREADS + 2"
| "main_weight (Join_load i) = LOAD_THREADS - i + 1"
| "main_weight Returned = 0"

definition det_meas :: "det_state \<Rightarrow> nat" where
  "det_meas s = rt_left s + (if rt_ended s then 0 else 1) +
     sum_list (map load_weight (loaders s)) + main_weight (main_pc s)"

inductive_cases det_stepE: "det_step s t"
inductive_cases det_load_passE: "det_load_pass s t"

lemma det_inv_init: "det_init s \<Longrightarrow> det_inv s"
  by (simp add: det_init_def det_inv_def)

lemma det_inv_step:
  assumes "det_inv s" "det_step s t"
  shows "det_inv t"
  using assms(2)
proof (cases rule: det_step.cases)
  case (join_load i)
  with assms(1) show ?thesis by (auto simp: det_inv_def less_Suc_eq)
qed (use assms(1) in \<open>auto simp: det_inv_def nth_list_update\<close>)

lemma det_inv_load_pass: "det_inv s \<Longrightarrow> det_load_pass s t \<Longrightarrow> det_inv t"
  by (elim det_load_passE) (auto simp: det_inv_def nth_list_update)

lemma det_meas_step:
  assumes "det_inv s" "det_step s t"
  shows "det_meas t < det_meas s"
  using assms(2)
proof (cases rule: det_step.cases)
  case (load_back i)
  with sum_list_update_nat [of i "loaders s" load_weight Testing] show ?thesis
    by (simp add: det_meas_def)
next
  case (load_end i)
  with sum_list_update_nat [of i "loaders s" load_weight Ended] show ?thesis
    by (simp add: det_meas_def)
qed (simp_all add: det_meas_def)

lemma det_meas_load_pass: "det_load_pass s t \<Longrightarrow> det_meas t \<le> det_meas s + 1"
proof (elim det_load_passE)
  fix i
  assume "t = s\<lparr>loaders := (loaders s)[i := Working]\<rparr>" "i < length (loaders s)" "loaders s ! i = Testing"
  with sum_list_update_nat [of i "loaders s" load_weight Working] show ?thesis
    by (simp add: det_meas_def)
qed

lemma det_progress:
  assumes inv: "det_inv s" and "\<not> det_final s"
  shows "\<exists>t. det_step s t"
proof (cases "rt_ended s")
  case False
  then show ?thesis
    by (cases "rt_left s") (auto intro: det_step.rt_iterate det_step.rt_finish)
next
  case True
  show ?thesis
  proof (cases "main_pc s")
    case Join_rt
    with True show ?thesis by (blast intro: det_step.join_rt)
  next
    case (Join_load i)
    show ?thesis
    proof (cases "i < LOAD_THREADS")
      case True
      with inv have i: "i < length (loaders s)" by (simp add: det_inv_def)
      have "\<not> running s" using inv \<open>rt_ended s\<close> by (simp add: det_inv_def)
      with det_step.load_end [OF i] det_step.load_back [OF i] det_step.join_load [OF Join_load True]
      show ?thesis by (cases "loaders s ! i") blast+
    next
      case False
      with inv Join_load have "i = LOAD_THREADS" by (simp add: det_inv_def)
      with Join_load show ?thesis by (auto intro: det_step.main_return)
    qed
  next
    case Returned
    with assms(2) show ?thesis by (simp add: det_final_def)
  qed
qed

interpretation det: bounded_system det_init det_step det_load_pass det_inv det_final det_meas 1
  by unfold_locales
    (rule det_inv_init det_inv_step det_inv_load_pass det_progress det_meas_step
      det_meas_load_pass; assumption)+

section \<open>Properties\<close>

text \<open>C24. With a known policy and every thread created, the program exits with 0 and reports
  the largest distance between a reading and its deadline over the passes made: all ten
  thousand, or those before the first refused kernel timeout, which is reported first. The
  kernel is asked for exactly the deadline of the pass, and no signed operation overflows.\<close>

theorem deterministic_reports_maximum:
  assumes "inputs_ok (d_start e) (d_now e)" and "parse_deterministic pf a = Inr p"
    and "d_create_load e 0 = 0" "d_create_load e 1 = 0" "d_create_load e 2 = 0"
    and "d_create_rt e p (sched_args pf p 80) = 0"
  shows "let k = passes (rt_waits pf (d_start e) (d_wait e)) ITERATIONS in
    det_main pf e prog (a # as) =
      ((if k = ITERATIONS then [] else [Perror ''TimerTimeout'']) @
       [Printf ''Max wake-up latency = %ld ns'' [VI (run_max (latency_at (d_start e) (d_now e)) k)]],
       Exits 0)"
proof -
  have "for_upto (det_spawn e) 0 LOAD_THREADS () = Next ()"
    using assms(3-5) by (simp add: LOAD_THREADS_def det_spawn_def numeral_3_eq_3 numeral_2_eq_2)
  with assms(2,6) rt_thread_eq [OF assms(1), of pf "d_wait e"] show ?thesis
    by (simp add: det_main_def Let_def)
qed

definition det_demo :: det_env where
  "det_demo = \<lparr>d_create_load = (\<lambda>_. 0), d_create_rt = (\<lambda>_ _. 0), d_strerror = (\<lambda>_. ''''),
     d_start = \<lparr>tv_sec = 9, tv_nsec = 999000000\<rparr>, d_wait = (\<lambda>i _. if i = 4000 then 1 else 0),
     d_now = (\<lambda>i. \<lparr>tv_sec = 12, tv_nsec = int i\<rparr>)\<rparr>"

theorem deterministic_reports_maximum_witness:
  "let k = passes (rt_waits QNX (d_start det_demo) (d_wait det_demo)) ITERATIONS in
    det_main QNX det_demo ''det'' [''sporadic''] =
      ((if k = ITERATIONS then [] else [Perror ''TimerTimeout'']) @
       [Printf ''Max wake-up latency = %ld ns''
          [VI (run_max (latency_at (d_start det_demo) (d_now det_demo)) k)]], Exits 0)"
  by (rule deterministic_reports_maximum [where p = SCHED_SPORADIC])
    (simp_all add: inputs_ok_def det_demo_def ts_ok_def NSEC_PER_SEC_def ITERATIONS_def
      parse_deterministic_def)

text \<open>C14. The hand-over through the flag \<open>running\<close>: in every state the threads can get to,
  main returns only when the real-time thread and all load threads have ended; the
  program is never stuck before that; and the steps of a run are bounded by 10009 plus
  the passes the load threads make while the flag is set.\<close>

theorem deterministic_threads_finish:
  assumes "det_init s" and "run det_step det_load_pass s p n t"
  shows "(main_pc t = Returned \<longrightarrow>
      rt_ended t \<and> \<not> running t \<and> loaders t = replicate LOAD_THREADS Ended) \<and>
    (main_pc t \<noteq> Returned \<longrightarrow> (\<exists>u. det_step t u)) \<and>
    p \<le> 10009 + n"
proof -
  have inv: "det_inv t" by (rule det.inv_run [OF assms])
  have "loaders t = replicate LOAD_THREADS Ended" if "main_pc t = Returned"
    using inv that by (intro replicate_eqI) (auto simp: det_inv_def in_set_conv_nth)
  moreover have "det_meas s = 10009"
    using assms(1) by (simp add: det_init_def det_meas_def ITERATIONS_def LOAD_THREADS_def
        sum_list_replicate)
  moreover have "main_pc t = Returned \<Longrightarrow> rt_ended t \<and> \<not> running t"
    using inv by (auto simp: det_inv_def)
  moreover have "main_pc t \<noteq> Returned \<Longrightarrow> \<exists>u. det_step t u"
    using det_progress [OF inv] by (simp add: det_final_def)
  ultimately show ?thesis using det.run_bound [OF assms] by simp
qed

definition det_start :: det_state where
  "det_start = \<lparr>rt_left = ITERATIONS, rt_ended = False, running = True,
     loaders = replicate LOAD_THREADS Testing, main_pc = Join_rt\<rparr>"

definition det_late :: det_state where
  "det_late = \<lparr>rt_left = 0, rt_ended = True, running = False,
     loaders = [Working, Testing, Testing], main_pc = Join_rt\<rparr>"

lemma det_late_run: "run det_step det_load_pass det_start 2 1 det_late"
proof -
  define s1 where "s1 = det_start\<lparr>loaders := [Working, Testing, Testing]\<rparr>"
  define s2 where "s2 = s1\<lparr>rt_left := 0\<rparr>"
  have "det_load_pass det_start s1"
    using det_load_pass.load_work [of 0 det_start]
    by (simp add: det_start_def s1_def LOAD_THREADS_def numeral_3_eq_3)
  then have 1: "run det_step det_load_pass det_start 0 (Suc 0) s1"
    by (rule run_env [OF run_nil])
  have "det_step s1 s2"
    using det_step.rt_break [of s1] by (simp add: s1_def s2_def det_start_def ITERATIONS_def)
  with 1 have 2: "run det_step det_load_pass det_start (Suc 0) (Suc 0) s2"
    by (rule run_step)
  have "det_step s2 det_late"
    using det_step.rt_finish [of s2] by (simp add: s1_def s2_def det_start_def det_late_def)
  with 2 show ?thesis by (simp add: numeral_2_eq_2 run_step)
qed

theorem deterministic_threads_finish_witness:
  "run det_step det_load_pass det_start 2 1 det_late \<and> (\<exists>u. det_step det_late u) \<and>
    (2 :: nat) \<le> 10009 + 1"
proof -
  have "det_init det_start" by (simp add: det_init_def det_start_def)
  from deterministic_threads_finish [OF this det_late_run] det_late_run show ?thesis
    by (simp add: det_late_def)
qed

end
