(* ===== verification/CText.thy ===== *)
theory CText
  imports Prelude "HOL-Library.Char_ord"
begin

text \<open>
  The text functions of the C library that the suite uses on numbers: the conversions
  \<open>%d\<close>, \<open>%ld\<close>, \<open>%llu\<close> of \<open>snprintf\<close>, and \<open>strtoull\<close>, \<open>strtol\<close>, \<open>atoi\<close> and the integer
  conversions of \<open>sscanf\<close>. A C string is a list of characters without the terminating
  NUL. The round trips at the end are what the programs rely on when a child process
  hands its numbers to its parent as text.
\<close>

section \<open>Characters\<close>

definition isdigit :: "char \<Rightarrow> bool" where
  "isdigit c \<longleftrightarrow> c \<in> set ''0123456789''"

definition isspace :: "char \<Rightarrow> bool" where
  "isspace c \<longleftrightarrow> c = CHR '' '' \<or> c = CHR 0x09 \<or> c = CHR 0x0A \<or> c = CHR 0x0B \<or> c = CHR 0x0C \<or> c = CHR 0x0D"

definition digit_val :: "char \<Rightarrow> nat" where
  "digit_val c = of_char c - 48"

definition digit_char :: "nat \<Rightarrow> char" where
  "digit_char n = char_of (48 + n)"

text \<open>The string in a buffer ends at its first NUL.\<close>

definition cstr :: "char list \<Rightarrow> string" where
  "cstr buf = takeWhile (\<lambda>c. c \<noteq> CHR 0x00) buf"

lemma digit_char_all: "\<forall>n \<in> set [0..<10]. isdigit (digit_char n)"
  by code_simp

lemma isdigit_digit_char [simp]: "n < 10 \<Longrightarrow> isdigit (digit_char n)"
  using digit_char_all by simp

lemma digit_val_digit_char [simp]: "n < 10 \<Longrightarrow> digit_val (digit_char n) = n"
  by (simp add: digit_val_def digit_char_def)

lemma isdigit_not_space: "isdigit c \<Longrightarrow> \<not> isspace c"
  by (auto simp: isdigit_def isspace_def)

lemma isdigit_not_sign: "isdigit c \<Longrightarrow> c \<noteq> CHR ''-'' \<and> c \<noteq> CHR ''+'' \<and> c \<noteq> CHR 0x00"
  by (auto simp: isdigit_def)

section \<open>Printing numbers\<close>

fun show_nat :: "nat \<Rightarrow> string" where
  "show_nat n = (if n < 10 then [digit_char n] else show_nat (n div 10) @ [digit_char (n mod 10)])"

declare show_nat.simps [simp del]

definition show_int :: "int \<Rightarrow> string" where
  "show_int i = (if i < 0 then CHR ''-'' # show_nat (nat (- i)) else show_nat (nat i))"

definition show_u64 :: "64 word \<Rightarrow> string" where
  "show_u64 w = show_nat (unat w)"

lemma show_nat_nonempty [simp]: "show_nat n \<noteq> []"
  by (subst show_nat.simps) simp

lemma show_nat_digits: "c \<in> set (show_nat n) \<Longrightarrow> isdigit c"
proof (induction n rule: show_nat.induct)
  case (1 n)
  then show ?case
    by (subst (asm) (2) show_nat.simps) (auto split: if_splits)
qed

lemma length_show_nat: "n < 10 ^ k \<Longrightarrow> 0 < k \<Longrightarrow> length (show_nat n) \<le> k"
proof (induction n arbitrary: k rule: show_nat.induct)
  case (1 n)
  show ?case
  proof (cases "n < 10")
    case True
    with 1 show ?thesis by (simp add: show_nat.simps [of n])
  next
    case False
    with 1 obtain j where k: "k = Suc j" "0 < j" by (cases k; cases "k - 1") auto
    have "n div 10 < 10 ^ j" using 1(2) k by (simp add: less_mult_imp_div_less mult.commute)
    then have "length (show_nat (n div 10)) \<le> j" using 1(1) False k by blast
    with False k show ?thesis by (simp add: show_nat.simps [of n])
  qed
qed

section \<open>Reading numbers\<close>

fun scan_digits :: "nat \<Rightarrow> string \<Rightarrow> nat \<times> string" where
  "scan_digits acc [] = (acc, [])"
| "scan_digits acc (c # cs) =
     (if isdigit c then scan_digits (acc * 10 + digit_val c) cs else (acc, c # cs))"

text \<open>The optional sign, then the digits; None if there is no digit.\<close>

definition scan_signed :: "string \<Rightarrow> (bool \<times> nat \<times> string) option" where
  "scan_signed s =
     (let s1 = dropWhile isspace s;
          (neg, s2) = (case s1 of
             c # cs \<Rightarrow> if c = CHR ''-'' then (True, cs) else if c = CHR ''+'' then (False, cs) else (False, s1)
           | [] \<Rightarrow> (False, []))
      in case s2 of
           c # _ \<Rightarrow> if isdigit c then (case scan_digits 0 s2 of (n, r) \<Rightarrow> Some (neg, n, r)) else None
         | [] \<Rightarrow> None)"

text \<open>\<open>strtoull(s, NULL, 10)\<close>: ULLONG_MAX out of range, a sign negates in the unsigned type.\<close>

definition strtoull :: "string \<Rightarrow> 64 word" where
  "strtoull s = (case scan_signed s of
     None \<Rightarrow> 0
   | Some (neg, n, _) \<Rightarrow>
       if 2 ^ 64 \<le> n then - 1 else if neg then - of_nat n else of_nat n)"

text \<open>\<open>strtol(s, NULL, 10)\<close>: out of range values are clamped to \<open>long\<close>.\<close>

definition clamp_long :: "int \<Rightarrow> int" where
  "clamp_long x = max (- (2 ^ 63)) (min (2 ^ 63 - 1) x)"

definition strtol :: "string \<Rightarrow> int" where
  "strtol s = (case scan_signed s of
     None \<Rightarrow> 0 | Some (neg, n, _) \<Rightarrow> clamp_long (if neg then - int n else int n))"

text \<open>A \<open>long\<close> converted to \<open>int\<close> keeps its low 32 bits; \<open>atoi\<close> is \<open>(int) strtol\<close>.\<close>

definition to_int :: "int \<Rightarrow> int" where
  "to_int x = sint (word_of_int x :: 32 word)"

definition atoi :: "string \<Rightarrow> int" where
  "atoi s = to_int (strtol s)"

text \<open>The conversions \<open>%d\<close> and \<open>%ld\<close> of \<open>sscanf\<close>: the value and the rest of the input.\<close>

definition scan_long :: "string \<Rightarrow> (int \<times> string) option" where
  "scan_long s = (case scan_signed s of
     None \<Rightarrow> None | Some (neg, n, r) \<Rightarrow> Some (clamp_long (if neg then - int n else int n), r))"

definition scan_int :: "string \<Rightarrow> (int \<times> string) option" where
  "scan_int s = (case scan_long s of None \<Rightarrow> None | Some (x, r) \<Rightarrow> Some (to_int x, r))"

section \<open>Round trips\<close>

text \<open>What follows a number does not continue it.\<close>

definition ends_number :: "string \<Rightarrow> bool" where
  "ends_number r \<longleftrightarrow> r = [] \<or> \<not> isdigit (hd r)"

lemma scan_digits_end [simp]: "ends_number r \<Longrightarrow> scan_digits acc r = (acc, r)"
  by (cases r) (auto simp: ends_number_def)

lemma scan_digits_append:
  "(\<And>c. c \<in> set ds \<Longrightarrow> isdigit c) \<Longrightarrow>
     scan_digits acc (ds @ r) = scan_digits (fst (scan_digits acc ds)) r"
  by (induction ds arbitrary: acc) auto

lemma scan_digits_show_nat_aux:
  "ends_number r \<Longrightarrow> scan_digits 0 (show_nat n @ r) = (n, r)"
proof (induction n arbitrary: r rule: show_nat.induct)
  case (1 n)
  show ?case
  proof (cases "n < 10")
    case True
    with 1 show ?thesis by (simp add: show_nat.simps [of n])
  next
    case False
    have d: "isdigit (digit_char (n mod 10))" by simp
    have "scan_digits 0 (show_nat n @ r) = scan_digits 0 (show_nat (n div 10) @ digit_char (n mod 10) # r)"
      using False by (simp add: show_nat.simps [of n])
    also have "\<dots> = scan_digits (fst (scan_digits 0 (show_nat (n div 10) @ []))) (digit_char (n mod 10) # r)"
      using show_nat_digits by (subst scan_digits_append) auto
    also have "\<dots> = scan_digits (n div 10) (digit_char (n mod 10) # r)"
      using "1.IH" [OF False, of "[]"] by (simp add: ends_number_def)
    also have "\<dots> = (n, r)" using d "1.prems" by simp
    finally show ?thesis .
  qed
qed

lemma show_nat_Cons: "\<exists>c cs. show_nat n = c # cs \<and> isdigit c"
  using show_nat_digits [of "hd (show_nat n)" n] by (cases "show_nat n") auto

lemma scan_signed_show_int:
  assumes "ends_number r"
  shows "scan_signed (show_int i @ r) = Some (i < 0, nat \<bar>i\<bar>, r)"
proof (cases "i < 0")
  case True
  obtain c cs where c: "show_nat (nat (- i)) = c # cs" "isdigit c" using show_nat_Cons by blast
  have "scan_digits 0 (show_nat (nat (- i)) @ r) = (nat (- i), r)"
    by (rule scan_digits_show_nat_aux [OF assms])
  with True c show ?thesis by (simp add: scan_signed_def show_int_def isspace_def)
next
  case False
  obtain c cs where c: "show_nat (nat i) = c # cs" "isdigit c" using show_nat_Cons by blast
  have "scan_digits 0 (show_nat (nat i) @ r) = (nat i, r)"
    by (rule scan_digits_show_nat_aux [OF assms])
  with False c isdigit_not_space [of c] isdigit_not_sign [of c] show ?thesis
    by (simp add: scan_signed_def show_int_def)
qed

lemma scan_signed_show_nat: "ends_number r \<Longrightarrow> scan_signed (show_nat n @ r) = Some (False, n, r)"
  using scan_signed_show_int [of r "int n"] by (simp add: show_int_def)

text \<open>White space before a number is skipped.\<close>

lemma scan_signed_space: "isspace c \<Longrightarrow> scan_signed (c # s) = scan_signed s"
  by (simp add: scan_signed_def)

lemma scan_long_show_int:
  "ends_number r \<Longrightarrow> long_ok i \<Longrightarrow> scan_long (show_int i @ r) = Some (i, r)"
  by (auto simp: scan_long_def scan_signed_show_int clamp_long_def long_ok_def)

lemma to_int_id: "int_ok i \<Longrightarrow> to_int i = i"
  by (simp add: to_int_def int_ok_def sint_sbintrunc' signed_take_bit_int_eq_self)

lemma scan_int_show_int:
  "ends_number r \<Longrightarrow> int_ok i \<Longrightarrow> scan_int (show_int i @ r) = Some (i, r)"
proof -
  assume "ends_number r" "int_ok i"
  moreover from this have "long_ok i" by (simp add: int_ok_def long_ok_def)
  ultimately show ?thesis by (simp add: scan_int_def scan_long_show_int to_int_id)
qed

lemma atoi_show_int: "int_ok i \<Longrightarrow> atoi (show_int i) = i"
  using scan_signed_show_int [of "[]" i]
  by (auto simp: atoi_def strtol_def ends_number_def clamp_long_def to_int_id int_ok_def)

lemma strtoull_show_u64: "strtoull (show_u64 w) = w"
proof -
  have "unat w < 2 ^ 64" using unsigned_less [of w, where ?'a = nat] by simp
  then show ?thesis
    using scan_signed_show_nat [of "[]" "unat w"]
    by (simp add: strtoull_def show_u64_def ends_number_def)
qed

lemma length_show_u64: "length (show_u64 w) \<le> 20"
proof -
  have "unat w < 2 ^ 64" using unsigned_less [of w, where ?'a = nat] by simp
  then show ?thesis unfolding show_u64_def by (intro length_show_nat) auto
qed

lemma length_show_int_long: "long_ok i \<Longrightarrow> length (show_int i) \<le> 20"
  using length_show_nat [of "nat \<bar>i\<bar>" 19]
  by (auto simp: show_int_def long_ok_def abs_if nat_less_iff split: if_splits)

lemma show_nat_no_nul: "c \<in> set (show_nat n) \<Longrightarrow> c \<noteq> CHR 0x00"
  using show_nat_digits isdigit_not_sign by blast

lemma cstr_id: "(\<And>c. c \<in> set s \<Longrightarrow> c \<noteq> CHR 0x00) \<Longrightarrow> cstr s = s"
  by (simp add: cstr_def takeWhile_eq_all_conv)

lemma show_int_no_nul: "c \<in> set (show_int i) \<Longrightarrow> c \<noteq> CHR 0x00"
  using show_nat_no_nul by (auto simp: show_int_def split: if_splits)

end
