(* ===== verification/Fairness.thy ===== *)
theory Fairness
  imports CTime CText
begin

text \<open>
  \<open>src/scheduling/process/process_fairness.c\<close>: ten child processes count as fast as they
  can for five seconds and hand their counts to the parent as text through one pipe each;
  the parent waits for all of them, reads the counts and reports minimum, maximum and
  average. The results of the system calls and the times the children read are inputs;
  \<open>fuel\<close> bounds the passes of each child's loop.
\<close>

section \<open>The child\<close>

definition NUM_PROCS :: nat where "NUM_PROCS = 10"
definition RUN_TIME :: int where "RUN_TIME = 5"

definition elapsed_tv :: "timeval \<Rightarrow> timeval \<Rightarrow> rat option" where
  "elapsed_tv current start = do {
     ds \<leftarrow> lsub (tvu_sec current) (tvu_sec start);
     du \<leftarrow> lsub (tvu_usec current) (tvu_usec start);
     Some (elapsed_double ds du 1000000)
   }"

text \<open>How a child's work ends: with its count, by \<open>exit(EXIT_FAILURE)\<close>, or undefined.\<close>

datatype child_end = Counted "64 word" | Failed | Child_undef

text \<open>
  The counting loop: the time is read (\<open>time k\<close> is the k-th reading, None if
  \<open>gettimeofday\<close> fails, which ends the loop as \<open>on_fail\<close>) every million passes. None: the
  loop is still running after \<open>fuel\<close> passes.
\<close>

fun count_loop ::
  "child_end \<Rightarrow> nat \<Rightarrow> timeval \<Rightarrow> (nat \<Rightarrow> timeval option) \<Rightarrow> 64 word \<Rightarrow> nat \<Rightarrow> child_end option" where
  "count_loop on_fail 0 start time counter k = None"
| "count_loop on_fail (Suc fuel) start time counter k =
     (let counter' = counter + 1 in
      if counter' mod 1000000 = 0 then
        (case time k of
           None \<Rightarrow> Some on_fail
         | Some current \<Rightarrow>
             (case elapsed_tv current start of
                None \<Rightarrow> Some Child_undef
              | Some elapsed \<Rightarrow>
                  if of_int RUN_TIME \<le> elapsed then Some (Counted counter')
                  else count_loop on_fail fuel start time counter' (Suc k)))
      else count_loop on_fail fuel start time counter' k)"

definition fair_child ::
  "nat \<Rightarrow> timeval option \<Rightarrow> (nat \<Rightarrow> timeval option) \<Rightarrow> child_end option" where
  "fair_child fuel start time =
     (case start of None \<Rightarrow> Some Failed | Some st \<Rightarrow> count_loop Failed fuel st time 0 0)"

text \<open>The bytes a finished child leaves in its pipe; \<open>wrote\<close>: whether its \<open>write\<close> succeeded.\<close>

definition child_bytes :: "child_end \<Rightarrow> bool \<Rightarrow> string" where
  "child_bytes c wrote = (case c of Counted n \<Rightarrow> if wrote then take 63 (show_u64 n) else [] | _ \<Rightarrow> [])"

section \<open>The parent\<close>

definition read_count :: "string \<Rightarrow> 64 word" where
  "read_count bytes =
     (let buf = take 63 bytes in if buf \<noteq> [] then strtoull (cstr buf) else 0)"

definition stat_step :: "64 word \<Rightarrow> 64 word \<times> 64 word \<times> 64 word \<Rightarrow> 64 word \<times> 64 word \<times> 64 word" where
  "stat_step c s = (case s of (mn, mx, sm) \<Rightarrow>
     (if c < mn then c else mn, if mx < c then c else mx, sm + c))"

definition count_stats :: "64 word list \<Rightarrow> 64 word \<times> 64 word \<times> 64 word" where
  "count_stats counts = fold stat_step counts (counts ! 0, counts ! 0, 0)"

text \<open>\<open>sum / (double)NUM_PROCS\<close>: the sum is converted to double first.\<close>

definition count_avg :: "64 word \<Rightarrow> rat" where
  "count_avg sm = rnd64 (rnd64 (of_int (uint sm)) / of_nat NUM_PROCS)"

definition count_report :: "64 word list \<Rightarrow> out list" where
  "count_report counts = (case count_stats counts of (mn, mx, sm) \<Rightarrow>
     map (\<lambda>i. Printf ''Process %d: %llu iterations'' [VI (int i), VU (counts ! i)]) [0..<NUM_PROCS] @
     [Printf ''Min: %llu, Max: %llu, Avg: %.0f'' [VU mn, VU mx, VD (count_avg sm)]])"

record fair_env =
  f_pipe :: "nat \<Rightarrow> int"
  f_fork :: "nat \<Rightarrow> int"
  f_start :: "nat \<Rightarrow> timeval option"
  f_time :: "nat \<Rightarrow> nat \<Rightarrow> timeval option"
  f_write :: "nat \<Rightarrow> bool"

definition fair_spawn :: "fair_env \<Rightarrow> nat \<Rightarrow> unit \<Rightarrow> (unit, out) flow" where
  "fair_spawn e i s =
     (if f_pipe e i = - 1 then Return (Perror ''pipe'')
      else if f_fork e i < 0 then Return (Perror ''fork'')
      else Next ())"

text \<open>
  The parent: create all children, close the write ends, wait for all, then read. What
  it prints is the outcome; it blocks in \<open>wait\<close> as long as a child is still counting.
\<close>

definition fair_main :: "nat \<Rightarrow> fair_env \<Rightarrow> outcome" where
  "fair_main fuel e = (case for_upto (fair_spawn e) 0 NUM_PROCS () of
     Return m \<Rightarrow> die m
   | _ \<Rightarrow>
       let ends = map (\<lambda>i. fair_child fuel (f_start e i) (f_time e i)) [0..<NUM_PROCS] in
       if None \<in> set ends then ([], Unfinished)
       else if Some Child_undef \<in> set ends then undef
       else
         let counts = map (\<lambda>i. read_count (child_bytes (the (ends ! i)) (f_write e i))) [0..<NUM_PROCS]
         in say (Printf ''Process fairness test results after %d seconds:'' [VI RUN_TIME])
              (say_all (count_report counts) (exits 0)))"

section \<open>The counting loop\<close>

definition tv_ok :: "timeval \<Rightarrow> bool" where
  "tv_ok t \<longleftrightarrow> 0 \<le> tvu_sec t \<and> tvu_sec t < 2 ^ 33 \<and> 0 \<le> tvu_usec t \<and> tvu_usec t < 1000000"

definition micros :: "timeval \<Rightarrow> int" where
  "micros t = tvu_sec t * 1000000 + tvu_usec t"

text \<open>The test against the double \<open>elapsed\<close> is the exact test on microseconds.\<close>

lemma elapsed_tv_deadline:
  assumes "tv_ok c" "tv_ok s"
  shows "\<exists>x. elapsed_tv c s = Some x \<and>
    (of_int RUN_TIME \<le> x \<longleftrightarrow> RUN_TIME * 1000000 \<le> micros c - micros s)"
proof -
  have "lsub (tvu_sec c) (tvu_sec s) = Some (tvu_sec c - tvu_sec s)"
    "lsub (tvu_usec c) (tvu_usec s) = Some (tvu_usec c - tvu_usec s)"
    using assms by (auto intro!: lsub_ok simp: long_ok_def tv_ok_def)
  moreover have "of_int RUN_TIME \<le> elapsed_double (tvu_sec c - tvu_sec s) (tvu_usec c - tvu_usec s) 1000000
      \<longleftrightarrow> RUN_TIME * 1000000 \<le> (tvu_sec c - tvu_sec s) * 1000000 + (tvu_usec c - tvu_usec s)"
    using assms by (intro elapsed_double_deadline) (auto simp: RUN_TIME_def tv_ok_def)
  moreover have "(tvu_sec c - tvu_sec s) * 1000000 + (tvu_usec c - tvu_usec s) = micros c - micros s"
    by (simp add: micros_def left_diff_distrib)
  ultimately show ?thesis by (simp add: elapsed_tv_def)
qed

lemma count_test: "c < 2 ^ 64 \<Longrightarrow> (of_nat c :: 64 word) mod 1000000 = 0 \<longleftrightarrow> c mod 1000000 = 0"
proof -
  assume "c < 2 ^ 64"
  then have "unat ((of_nat c :: 64 word) mod 1000000) = c mod 1000000"
    by (simp add: unat_mod unat_of_nat)
  then show ?thesis using unat_eq_zero [of "(of_nat c :: 64 word) mod 1000000"] by simp
qed

lemma count_loop_quiet:
  "c mod 1000000 + m < 1000000 \<Longrightarrow> c + m < 2 ^ 64 \<Longrightarrow>
     count_loop on_fail (m + fuel) start time (of_nat c) k =
     count_loop on_fail fuel start time (of_nat (c + m)) k"
proof (induction m arbitrary: c)
  case 0
  then show ?case by simp
next
  case (Suc m)
  have c: "Suc c < 2 ^ 64" "Suc c mod 1000000 = Suc (c mod 1000000)"
    using Suc.prems by (simp_all add: mod_Suc)
  then have "(of_nat (Suc c) :: 64 word) mod 1000000 \<noteq> 0"
    by (subst count_test) auto
  then have "count_loop on_fail (Suc m + fuel) start time (of_nat c) k =
      count_loop on_fail (m + fuel) start time (of_nat (Suc c)) k"
    by (simp add: Let_def add.commute)
  also have "\<dots> = count_loop on_fail fuel start time (of_nat (Suc c + m)) k"
    using Suc.prems c by (intro Suc.IH) auto
  finally show ?case by simp
qed

text \<open>A million passes from a multiple of a million: one reading of the time.\<close>

lemma count_loop_round:
  assumes "c mod 1000000 = 0" "c + 1000000 < 2 ^ 64"
  shows "count_loop on_fail (1000000 + fuel) start time (of_nat c) k =
    (case time k of
       None \<Rightarrow> Some on_fail
     | Some current \<Rightarrow>
         (case elapsed_tv current start of
            None \<Rightarrow> Some Child_undef
          | Some elapsed \<Rightarrow>
              if of_int RUN_TIME \<le> elapsed then Some (Counted (of_nat (c + 1000000)))
              else count_loop on_fail fuel start time (of_nat (c + 1000000)) (Suc k)))"
proof -
  have "count_loop on_fail (1000000 + fuel) start time (of_nat c) k =
      count_loop on_fail (999999 + Suc fuel) start time (of_nat c) k"
    by simp
  also have "\<dots> = count_loop on_fail (Suc fuel) start time (of_nat (c + 999999)) k"
    using assms by (intro count_loop_quiet) auto
  finally have 1: "count_loop on_fail (1000000 + fuel) start time (of_nat c) k =
    count_loop on_fail (Suc fuel) start time (of_nat (c + 999999)) k" .
  have 2: "(of_nat (c + 999999) + 1 :: 64 word) = of_nat (c + 1000000)" by simp
  have "(of_nat (c + 1000000) :: 64 word) mod 1000000 = 0"
    using assms by (subst count_test) auto
  then show ?thesis unfolding 1 count_loop.simps 2 Let_def by simp
qed

text \<open>The first reading that lies at least five seconds after the start ends the loop.\<close>

definition first_late :: "timeval \<Rightarrow> (nat \<Rightarrow> timeval option) \<Rightarrow> nat \<Rightarrow> bool" where
  "first_late start time n \<longleftrightarrow>
     (\<forall>k \<le> n. \<exists>t. time k = Some t \<and> tv_ok t \<and>
        (RUN_TIME * 1000000 \<le> micros t - micros start \<longleftrightarrow> k = n))"

lemma first_lateD:
  "first_late start time n \<Longrightarrow> k \<le> n \<Longrightarrow>
     \<exists>t. time k = Some t \<and> tv_ok t \<and> (RUN_TIME * 1000000 \<le> micros t - micros start \<longleftrightarrow> k = n)"
  by (simp add: first_late_def)

lemma count_loop_from:
  assumes late: "first_late start time n" and st: "tv_ok start"
    and bound: "Suc n * 1000000 < 2 ^ 64" and k: "k \<le> n"
  shows "count_loop on_fail ((Suc n - k) * 1000000 + extra) start time (of_nat (k * 1000000)) k =
    Some (Counted (of_nat (Suc n * 1000000)))"
  using k
proof (induction "n - k" arbitrary: k)
  case 0
  then have k: "k = n" by simp
  obtain t where t: "time n = Some t" "tv_ok t" "RUN_TIME * 1000000 \<le> micros t - micros start"
    using first_lateD [OF late, of n] by auto
  from elapsed_tv_deadline [OF t(2) st] t(3)
  obtain x where x: "elapsed_tv t start = Some x" "of_int RUN_TIME \<le> x" by auto
  have "count_loop on_fail (1000000 + extra) start time (of_nat (n * 1000000)) n =
      Some (Counted (of_nat (n * 1000000 + 1000000)))"
    by (subst count_loop_round) (use bound t(1) x in auto)
  then show ?case by (simp add: k add.commute)
next
  case (Suc d)
  then have k: "k < n" by simp
  obtain t where t: "time k = Some t" "tv_ok t" "\<not> RUN_TIME * 1000000 \<le> micros t - micros start"
    using first_lateD [OF late, of k] k by auto
  from elapsed_tv_deadline [OF t(2) st] t(3)
  obtain x where x: "elapsed_tv t start = Some x" "\<not> of_int RUN_TIME \<le> x" by auto
  have split: "(Suc n - k) * 1000000 + extra = 1000000 + ((Suc n - Suc k) * 1000000 + extra)"
    using k by (simp add: Suc_diff_le)
  have kb: "k * 1000000 + 1000000 < 2 ^ 64" using bound k by simp
  have "count_loop on_fail ((Suc n - k) * 1000000 + extra) start time (of_nat (k * 1000000)) k =
      count_loop on_fail ((Suc n - Suc k) * 1000000 + extra) start time (of_nat (k * 1000000 + 1000000)) (Suc k)"
    unfolding split by (subst count_loop_round) (use kb t(1) x in auto)
  also have "k * 1000000 + 1000000 = Suc k * 1000000" by simp
  also have "count_loop on_fail ((Suc n - Suc k) * 1000000 + extra) start time (of_nat (Suc k * 1000000)) (Suc k) =
      Some (Counted (of_nat (Suc n * 1000000)))"
    using Suc(2) k by (intro Suc(1)) auto
  finally show ?case .
qed

section \<open>The statistics\<close>

lemma fold_stat_step:
  "fold stat_step xs (a, b, s) =
     (Min (insert a (set xs)), Max (insert b (set xs)), s + sum_list xs)"
proof (induction xs arbitrary: a b s)
  case (Cons x xs)
  have "Min (insert a (insert x (set xs))) = Min (insert (if x < a then x else a) (set xs))"
    by (cases "set xs = {}") (auto simp: min_def not_less)
  moreover have "Max (insert b (insert x (set xs))) = Max (insert (if b < x then x else b) (set xs))"
    by (cases "set xs = {}") (auto simp: max_def not_less)
  ultimately show ?case
    using Cons [of "if x < a then x else a" "if b < x then x else b" "s + x"]
    by (simp add: stat_step_def add.assoc)
qed simp

lemma count_stats_eq:
  assumes "counts \<noteq> []"
  shows "count_stats counts = (Min (set counts), Max (set counts), sum_list counts)"
proof -
  have "insert (counts ! 0) (set counts) = set counts" using assms by (cases counts) auto
  then show ?thesis by (simp add: count_stats_def fold_stat_step)
qed

lemma uint_sum_list:
  "sum_list (map uint xs) < 2 ^ 64 \<Longrightarrow> uint (sum_list xs :: 64 word) = sum_list (map uint xs)"
proof (induction xs)
  case (Cons x xs)
  then have "sum_list (map uint xs) < 2 ^ 64"
    using uint_ge_0 [of x] unfolding list.map sum_list.Cons by linarith
  with Cons have "uint (sum_list xs) = sum_list (map uint xs)" by simp
  with Cons.prems uint_plus_u64 [of x "sum_list xs"] show ?case by simp
qed simp

lemma sum_list_bounds:
  fixes xs :: "int list"
  shows "(\<And>x. x \<in> set xs \<Longrightarrow> a \<le> x) \<Longrightarrow> a * int (length xs) \<le> sum_list xs"
    and "(\<And>x. x \<in> set xs \<Longrightarrow> x \<le> b) \<Longrightarrow> sum_list xs \<le> b * int (length xs)"
  by (induction xs) (force simp: distrib_left)+

lemma count_avg_between:
  assumes len: "length counts = NUM_PROCS" and small: "\<And>c. c \<in> set counts \<Longrightarrow> uint c \<le> 2 ^ 49"
  shows "of_int (uint (Min (set counts))) \<le> count_avg (sum_list counts) \<and>
    count_avg (sum_list counts) \<le> of_int (uint (Max (set counts)))"
proof -
  have ne: "set counts \<noteq> {}" using len by (auto simp: NUM_PROCS_def)
  define S where "S = sum_list (map uint counts)"
  have "S \<le> 2 ^ 49 * int (length (map uint counts))"
    unfolding S_def using small by (intro sum_list_bounds(2)) auto
  then have S2: "S \<le> 10 * 2 ^ 49" by (simp add: len NUM_PROCS_def)
  have S0: "0 \<le> S" unfolding S_def by (rule sum_list_nonneg) auto
  have S: "uint (sum_list counts) = S"
    unfolding S_def using S2 by (intro uint_sum_list) (simp add: S_def)
  have "\<bar>S\<bar> \<le> 2 ^ 53" using S0 S2 by simp
  then have avg: "count_avg (sum_list counts) = rnd64 (of_int S / 10)"
    by (simp add: count_avg_def S ieee.rnd_int NUM_PROCS_def)
  have lo: "uint (Min (set counts)) * int (length (map uint counts)) \<le> S"
    unfolding S_def by (intro sum_list_bounds(1)) (auto simp: word_le_def [symmetric])
  have hi: "S \<le> uint (Max (set counts)) * int (length (map uint counts))"
    unfolding S_def by (intro sum_list_bounds(2)) (auto simp: word_le_def [symmetric])
  have "of_int (uint (Min (set counts)) * 10) \<le> (of_int S :: rat)"
    "(of_int S :: rat) \<le> of_int (uint (Max (set counts)) * 10)"
    using lo hi by (simp_all only: of_int_le_iff) (simp_all add: len NUM_PROCS_def)
  then have 1: "of_int (uint (Min (set counts))) \<le> (of_int S / 10 :: rat)"
    "(of_int S / 10 :: rat) \<le> of_int (uint (Max (set counts)))"
    by simp_all
  have "\<bar>uint (Min (set counts))\<bar> \<le> 2 ^ 53" "\<bar>uint (Max (set counts))\<bar> \<le> 2 ^ 53"
    using small [of "Min (set counts)"] small [of "Max (set counts)"] ne by auto
  with 1 show ?thesis unfolding avg by (blast intro: ieee.rnd_ge_int ieee.rnd_le_int)
qed

section \<open>The hand-over through the pipes\<close>

text \<open>A count of 64 bits has at most 20 digits: neither buffer of the code cuts it.\<close>

lemma read_count_show: "read_count (take 63 (show_u64 c)) = c"
proof -
  have "take 63 (show_u64 c) = show_u64 c" using length_show_u64 [of c] by simp
  moreover have "show_u64 c \<noteq> []" by (simp add: show_u64_def)
  moreover have "cstr (show_u64 c) = show_u64 c"
    unfolding show_u64_def by (rule cstr_id) (rule show_nat_no_nul)
  ultimately show ?thesis by (simp add: read_count_def strtoull_show_u64)
qed

definition handed_over :: "nat \<Rightarrow> fair_env \<Rightarrow> nat \<Rightarrow> 64 word" where
  "handed_over fuel e i = (case fair_child fuel (f_start e i) (f_time e i) of
     Some (Counted c) \<Rightarrow> if f_write e i then c else 0 | _ \<Rightarrow> 0)"

lemma read_child_bytes:
  assumes "fair_child fuel (f_start e i) (f_time e i) = Some r"
  shows "read_count (child_bytes r (f_write e i)) = handed_over fuel e i"
  using assms read_count_show
  by (cases r) (auto simp: child_bytes_def handed_over_def read_count_def)

lemma fair_spawn_all:
  assumes "\<And>i. i < NUM_PROCS \<Longrightarrow> f_pipe e i \<noteq> - 1 \<and> 0 \<le> f_fork e i"
  shows "for_upto (fair_spawn e) 0 NUM_PROCS () = Next ()"
proof -
  have "for_upto (fair_spawn e) 0 NUM_PROCS () = Next (fold (\<lambda>_ s. s) [0..<0 + NUM_PROCS] ())"
    by (rule for_upto_Next) (use assms in \<open>auto simp: fair_spawn_def not_less\<close>)
  then show ?thesis by simp
qed

lemma fair_child_late:
  assumes "tv_ok start" and "first_late start time n" and "Suc n * 1000000 < 2 ^ 64"
    and "Suc n * 1000000 \<le> fuel"
  shows "count_loop on_fail fuel start time 0 0 = Some (Counted (of_nat (Suc n * 1000000)))"
proof -
  have "fuel = (Suc n - 0) * 1000000 + (fuel - Suc n * 1000000)" using assms(4) by simp
  then show ?thesis
    using count_loop_from [OF assms(2,1,3), of 0 on_fail "fuel - Suc n * 1000000"] by simp
qed

section \<open>Properties\<close>

text \<open>C9. A child whose clock first shows five seconds or more at its reading number n (counted
  from 0) stops there, with the count 1000000 (n + 1), after exactly that many passes: the
  test on the rounded doubles is the exact test, so the loop neither stops early nor runs on.\<close>

theorem fair_child_counts:
  assumes "tv_ok start" and "first_late start time n" and "Suc n * 1000000 < 2 ^ 64"
    and "Suc n * 1000000 \<le> fuel"
  shows "fair_child fuel (Some start) time = Some (Counted (of_nat (Suc n * 1000000)))"
  using fair_child_late [OF assms, of Failed] by (simp add: fair_child_def)

theorem fair_child_counts_witness:
  "fair_child 3000000 (Some \<lparr>tvu_sec = 10, tvu_usec = 900000\<rparr>)
     (\<lambda>k. Some \<lparr>tvu_sec = 13 + int k, tvu_usec = 900000 - (if k = 1 then 1 else 0)\<rparr>) =
   Some (Counted (of_nat (Suc 2 * 1000000)))"
proof (rule fair_child_counts)
  show "first_late \<lparr>tvu_sec = 10, tvu_usec = 900000\<rparr>
      (\<lambda>k. Some \<lparr>tvu_sec = 13 + int k, tvu_usec = 900000 - (if k = 1 then 1 else 0)\<rparr>) 2"
    by (auto simp: tv_ok_def first_late_def RUN_TIME_def micros_def le_Suc_eq numeral_2_eq_2)
qed (simp_all add: tv_ok_def)

text \<open>C11. The whole program: if all pipes and children could be created and every child has
  ended, the parent reports for each child the count it wrote (0 for a child that failed
  or could not write), and their minimum and maximum; no count is cut or changed on its
  way through the text and the pipe, and the parent exits with 0.\<close>

theorem fair_main_reports:
  assumes "\<And>i. i < NUM_PROCS \<Longrightarrow> f_pipe e i \<noteq> - 1 \<and> 0 \<le> f_fork e i"
    and "\<And>i. i < NUM_PROCS \<Longrightarrow> fair_child fuel (f_start e i) (f_time e i) \<in>
      {Some Failed} \<union> range (\<lambda>c. Some (Counted c))"
  shows "fair_main fuel e =
    (Printf ''Process fairness test results after %d seconds:'' [VI 5] #
     map (\<lambda>i. Printf ''Process %d: %llu iterations'' [VI (int i), VU (handed_over fuel e i)]) [0..<10] @
     [Printf ''Min: %llu, Max: %llu, Avg: %.0f''
        [VU (Min (handed_over fuel e ` {..<10})), VU (Max (handed_over fuel e ` {..<10})),
         VD (count_avg (\<Sum>i\<leftarrow>[0..<10]. handed_over fuel e i))]],
     Exits 0)"
proof -
  define ends where "ends = map (\<lambda>i. fair_child fuel (f_start e i) (f_time e i)) [0..<NUM_PROCS]"
  have "\<exists>r. fair_child fuel (f_start e i) (f_time e i) = Some r \<and> r \<noteq> Child_undef"
    if "i < NUM_PROCS" for i
    using assms(2) [OF that] by auto
  then have ends: "None \<notin> set ends" "Some Child_undef \<notin> set ends"
    by (fastforce simp: ends_def)+
  define counts where "counts = map (handed_over fuel e) [0..<NUM_PROCS]"
  have "map (\<lambda>i. read_count (child_bytes (the (ends ! i)) (f_write e i))) [0..<NUM_PROCS] = counts"
    unfolding counts_def ends_def
  proof (rule map_cong [OF refl])
    fix i
    assume "i \<in> set [0..<NUM_PROCS]"
    then have i: "i < NUM_PROCS" by simp
    with assms(2) obtain r where "fair_child fuel (f_start e i) (f_time e i) = Some r" by blast
    from read_child_bytes [OF this] this i
    show "read_count (child_bytes
        (the (map (\<lambda>i. fair_child fuel (f_start e i) (f_time e i)) [0..<NUM_PROCS] ! i)) (f_write e i)) =
      handed_over fuel e i" by simp
  qed
  then have main: "fair_main fuel e =
      say (Printf ''Process fairness test results after %d seconds:'' [VI RUN_TIME])
        (say_all (count_report counts) (exits 0))"
    using ends by (simp add: fair_main_def fair_spawn_all [OF assms(1)] Let_def flip: ends_def)
  have stats: "count_stats counts =
      (Min (handed_over fuel e ` {..<10}), Max (handed_over fuel e ` {..<10}),
       \<Sum>i\<leftarrow>[0..<10]. handed_over fuel e i)"
    by (subst count_stats_eq) (simp_all add: counts_def NUM_PROCS_def lessThan_atLeast0)
  have "map (\<lambda>i. Printf ''Process %d: %llu iterations'' [VI (int i), VU (counts ! i)]) [0..<NUM_PROCS] =
      map (\<lambda>i. Printf ''Process %d: %llu iterations'' [VI (int i), VU (handed_over fuel e i)]) [0..<10]"
    by (simp add: counts_def NUM_PROCS_def)
  then show ?thesis by (simp add: main count_report_def stats RUN_TIME_def)
qed

text \<open>The demonstration: nine children count for five seconds, one fails, one cannot write.\<close>

definition fair_demo :: fair_env where
  "fair_demo = \<lparr>f_pipe = (\<lambda>_. 0), f_fork = (\<lambda>i. 100 + int i),
     f_start = (\<lambda>i. if i = 4 then None else Some \<lparr>tvu_sec = 10, tvu_usec = 7\<rparr>),
     f_time = (\<lambda>_ _. Some \<lparr>tvu_sec = 15, tvu_usec = 7\<rparr>), f_write = (\<lambda>i. i \<noteq> 2)\<rparr>"

lemma fair_demo_child:
  "fair_child 1000000 (f_start fair_demo i) (f_time fair_demo i) =
     (if i = 4 then Some Failed else Some (Counted 1000000))"
proof -
  have "first_late \<lparr>tvu_sec = 10, tvu_usec = 7\<rparr> (\<lambda>_. Some \<lparr>tvu_sec = 15, tvu_usec = 7\<rparr>) 0"
    by (simp add: first_late_def tv_ok_def RUN_TIME_def micros_def)
  from fair_child_late [OF _ this, of 1000000 Failed] show ?thesis
    by (simp add: fair_demo_def fair_child_def tv_ok_def)
qed

theorem fair_main_reports_witness:
  "fair_main 1000000 fair_demo =
    (Printf ''Process fairness test results after %d seconds:'' [VI 5] #
     map (\<lambda>i. Printf ''Process %d: %llu iterations'' [VI (int i), VU (handed_over 1000000 fair_demo i)]) [0..<10] @
     [Printf ''Min: %llu, Max: %llu, Avg: %.0f''
        [VU (Min (handed_over 1000000 fair_demo ` {..<10})),
         VU (Max (handed_over 1000000 fair_demo ` {..<10})),
         VD (count_avg (\<Sum>i\<leftarrow>[0..<10]. handed_over 1000000 fair_demo i))]],
     Exits 0)"
  by (rule fair_main_reports) (auto simp: fair_demo_child, auto simp: fair_demo_def)

text \<open>The reported average, although computed with two roundings, lies between the reported
  minimum and maximum whenever the counts stay below 2 to the 49.\<close>

theorem fair_average_between:
  assumes "length counts = NUM_PROCS" and "\<And>c. c \<in> set counts \<Longrightarrow> uint c \<le> 2 ^ 49"
  shows "case count_stats counts of (mn, mx, sm) \<Rightarrow>
    of_int (uint mn) \<le> count_avg sm \<and> count_avg sm \<le> of_int (uint mx)"
  using count_avg_between [OF assms] assms(1)
  by (subst count_stats_eq) (auto simp: NUM_PROCS_def)

theorem fair_average_between_witness:
  "case count_stats [7, 3, 3, 3, 3, 3, 3, 3, 3, 5] of (mn, mx, sm) \<Rightarrow>
    of_int (uint mn) \<le> count_avg sm \<and> count_avg sm \<le> of_int (uint mx)"
  by (rule fair_average_between) (auto simp: NUM_PROCS_def)

end
