(* ===== verification/IpcPipe.thy ===== *)
theory IpcPipe
  imports Fairness Sched
begin

text \<open>
  \<open>src/ipc/ipc_pipe_latency.c\<close>: the same counting children and reporting parent as
  \<open>process_fairness.c\<close>, with the children under a real-time policy of staggered priority.
  The results of \<open>gettimeofday\<close> and of the children's \<open>write\<close> are not looked at: a reading
  that fails leaves the variable as it was, so the child computes with the last time it
  read, or with an uninitialised one, which is undefined.
\<close>

section \<open>The code\<close>

record ipcp_env =
  p_pipe :: "nat \<Rightarrow> int"
  p_fork :: "nat \<Rightarrow> int"
  p_prio_max :: "policy \<Rightarrow> int"
  p_setsched :: "nat \<Rightarrow> policy \<Rightarrow> sched_param \<Rightarrow> int"
  p_start :: "nat \<Rightarrow> timeval option"
  p_time :: "nat \<Rightarrow> nat \<Rightarrow> timeval option"
  p_write :: "nat \<Rightarrow> bool"

text \<open>A failing call ends the parent: it says so, and \<open>i\<close> children have been created by then.\<close>

definition ipcp_spawn :: "ipcp_env \<Rightarrow> nat \<Rightarrow> unit \<Rightarrow> (unit, nat \<times> out) flow" where
  "ipcp_spawn e i s =
     (if p_pipe e i = - 1 then Return (i, Perror ''pipe'')
      else if p_fork e i < 0 then Return (i, Perror ''fork'')
      else Next ())"

text \<open>Child \<open>i\<close>: the messages of its scheduling call, and how its loop ends.\<close>

definition ipcp_child_prio :: "ipcp_env \<Rightarrow> policy \<Rightarrow> nat \<Rightarrow> int" where
  "ipcp_child_prio e policy i = p_prio_max e policy - int (i mod 3)"

primrec current_time :: "(nat \<Rightarrow> timeval option) \<Rightarrow> nat \<Rightarrow> timeval option" where
  "current_time time 0 = time 0"
| "current_time time (Suc k) =
     (case time (Suc k) of None \<Rightarrow> current_time time k | Some t \<Rightarrow> Some t)"

definition ipcp_child ::
  "platform \<Rightarrow> nat \<Rightarrow> ipcp_env \<Rightarrow> policy \<Rightarrow> nat \<Rightarrow> out list \<times> child_end option" where
  "ipcp_child pf fuel e policy i =
     (if p_setsched e i policy (sched_args pf policy (ipcp_child_prio e policy i)) \<noteq> 0
      then [Perror ''sched_setscheduler (child)''] else [],
      case p_start e i of
        None \<Rightarrow> Some Child_undef
      | Some st \<Rightarrow> count_loop Child_undef fuel st (current_time (p_time e i)) 0 0)"

text \<open>
  The program prints from several processes at once: what each child prints, and what the
  parent does. (The parent writes its report when it has waited for all children.)
\<close>

definition ipcp_run :: "platform \<Rightarrow> nat \<Rightarrow> ipcp_env \<Rightarrow> policy \<Rightarrow> out list list \<times> outcome" where
  "ipcp_run pf fuel e policy = (case for_upto (ipcp_spawn e) 0 NUM_PROCS () of
     Return (created, m) \<Rightarrow> (map (\<lambda>i. fst (ipcp_child pf fuel e policy i)) [0..<created], die m)
   | _ \<Rightarrow>
       let children = map (ipcp_child pf fuel e policy) [0..<NUM_PROCS]; ends = map snd children in
       (map fst children,
        if None \<in> set ends then ([], Unfinished)
        else if Some Child_undef \<in> set ends then undef
        else
          let counts = map (\<lambda>i. read_count (child_bytes (the (ends ! i)) (p_write e i))) [0..<NUM_PROCS]
          in say (Printf ''Process fairness test (%s) results after %d seconds:''
                    [VS (policy_name policy), VI RUN_TIME])
               (say_all (count_report counts) (exits 0))))"

text \<open>Without an argument the policy stays the initial value of the global variable.\<close>

definition ipcp_main :: "platform \<Rightarrow> nat \<Rightarrow> ipcp_env \<Rightarrow> string list \<Rightarrow> out list list \<times> outcome" where
  "ipcp_main pf fuel e args = (case args of
     [] \<Rightarrow> ipcp_run pf fuel e SCHED_FIFO
   | a # _ \<Rightarrow> (case parse_ipc_pipe pf a of Inl m \<Rightarrow> ([], die m) | Inr policy \<Rightarrow> ipcp_run pf fuel e policy))"

section \<open>Lemmas\<close>

lemma ipcp_spawn_all:
  assumes "\<And>i. i < NUM_PROCS \<Longrightarrow> p_pipe e i \<noteq> - 1 \<and> 0 \<le> p_fork e i"
  shows "for_upto (ipcp_spawn e) 0 NUM_PROCS () = Next ()"
proof -
  have "for_upto (ipcp_spawn e) 0 NUM_PROCS () = Next (fold (\<lambda>_ s. s) [0..<0 + NUM_PROCS] ())"
    by (rule for_upto_Next) (use assms in \<open>auto simp: ipcp_spawn_def not_less\<close>)
  then show ?thesis by simp
qed

text \<open>
  A reading that fails leaves the last one: as long as the first succeeds, a child has a time
  at every test.
\<close>

lemma current_time_some: "time 0 \<noteq> None \<Longrightarrow> current_time time k \<noteq> None"
  by (induction k) (auto split: option.split)

lemma read_count_counted: "read_count (child_bytes (Counted c) w) = (if w then c else 0)"
  using read_count_show [of c] by (simp add: child_bytes_def read_count_def)

section \<open>Property\<close>

text \<open>C39. The pipe benchmark with a policy: where all pipes and children could be created, and child
  i finds its five seconds over at its test number n i (counted from 0) by the last time it
  could read, each child prints at most the message of its refused scheduling call (the
  priority is the maximum less i mod 3, with the sporadic parameters where the policy is
  sporadic), and the parent reports for child i the count 1000000 (n i + 1), through the
  decimal text in the pipe, or 0 where the child's \<open>write\<close> failed, then the minimum, the
  maximum and the average of these ten numbers, and exits with 0.\<close>

theorem ipc_pipe_reports:
  assumes "parse_ipc_pipe pf a = Inr policy"
    and "\<And>i. i < NUM_PROCS \<Longrightarrow> p_pipe e i \<noteq> - 1 \<and> 0 \<le> p_fork e i"
    and "\<And>i. i < NUM_PROCS \<Longrightarrow> p_start e i = Some (st i) \<and> tv_ok (st i) \<and>
      first_late (st i) (current_time (p_time e i)) (n i)"
    and "\<And>i. i < NUM_PROCS \<Longrightarrow> Suc (n i) * 1000000 < 2 ^ 64 \<and> Suc (n i) * 1000000 \<le> fuel"
  defines "c \<equiv> \<lambda>i. if p_write e i then of_nat (Suc (n i) * 1000000) else 0"
  shows "ipcp_main pf fuel e (a # as) =
    (map (\<lambda>i. if p_setsched e i policy (sched_args pf policy (p_prio_max e policy - int (i mod 3))) = 0
       then [] else [Perror ''sched_setscheduler (child)'']) [0..<10],
     Printf ''Process fairness test (%s) results after %d seconds:'' [VS (policy_name policy), VI 5] #
     map (\<lambda>i. Printf ''Process %d: %llu iterations'' [VI (int i), VU (c i)]) [0..<10] @
     [Printf ''Min: %llu, Max: %llu, Avg: %.0f''
        [VU (Min (c ` {..<10})), VU (Max (c ` {..<10})), VD (count_avg (\<Sum>i\<leftarrow>[0..<10]. c i))]],
     Exits 0)"
proof -
  have child: "snd (ipcp_child pf fuel e policy i) = Some (Counted (of_nat (Suc (n i) * 1000000)))"
    if "i < NUM_PROCS" for i
    using fair_child_late [of "st i" "current_time (p_time e i)" "n i" fuel Child_undef] assms(3,4) [OF that]
    by (simp add: ipcp_child_def)
  define ends where "ends = map snd (map (ipcp_child pf fuel e policy) [0..<NUM_PROCS])"
  have ends: "ends = map (\<lambda>i. Some (Counted (of_nat (Suc (n i) * 1000000)))) [0..<NUM_PROCS]"
    unfolding ends_def using child by simp
  define counts where "counts = map c [0..<NUM_PROCS]"
  have "map (\<lambda>i. read_count (child_bytes (the (ends ! i)) (p_write e i))) [0..<NUM_PROCS] = counts"
    unfolding counts_def ends c_def by (intro map_cong [OF refl]) (simp add: read_count_counted)
  moreover have "None \<notin> set ends" "Some Child_undef \<notin> set ends" unfolding ends by auto
  moreover have "for_upto (ipcp_spawn e) 0 NUM_PROCS () = Next ()"
    by (rule ipcp_spawn_all) (rule assms(2))
  ultimately have run: "ipcp_run pf fuel e policy =
      (map (\<lambda>i. fst (ipcp_child pf fuel e policy i)) [0..<NUM_PROCS],
       say (Printf ''Process fairness test (%s) results after %d seconds:'' [VS (policy_name policy), VI RUN_TIME])
         (say_all (count_report counts) (exits 0)))"
    unfolding ipcp_run_def Let_def ends_def [symmetric] by simp
  have stats: "count_stats counts = (Min (c ` {..<10}), Max (c ` {..<10}), \<Sum>i\<leftarrow>[0..<10]. c i)"
    by (subst count_stats_eq) (simp_all add: counts_def NUM_PROCS_def lessThan_atLeast0)
  have "map (\<lambda>i. Printf ''Process %d: %llu iterations'' [VI (int i), VU (counts ! i)]) [0..<NUM_PROCS] =
      map (\<lambda>i. Printf ''Process %d: %llu iterations'' [VI (int i), VU (c i)]) [0..<10]"
    by (simp add: counts_def NUM_PROCS_def)
  then show ?thesis
    by (simp add: ipcp_main_def assms(1) run count_report_def stats RUN_TIME_def ipcp_child_def
        ipcp_child_prio_def NUM_PROCS_def)
qed

text \<open>Round robin without the privilege for it; child 3 cannot write, child 4 misses a reading.\<close>

definition ipcp_demo :: ipcp_env where
  "ipcp_demo = \<lparr>p_pipe = \<lambda>_. 0, p_fork = \<lambda>i. 100 + int i, p_prio_max = \<lambda>_. 99,
     p_setsched = \<lambda>_ _ _. - 1, p_start = \<lambda>_. Some \<lparr>tvu_sec = 10, tvu_usec = 7\<rparr>,
     p_time = \<lambda>i k. if i = 4 \<and> k = 1 then None else Some \<lparr>tvu_sec = 12 + int k * 3, tvu_usec = 7\<rparr>,
     p_write = \<lambda>i. i \<noteq> 3\<rparr>"

theorem ipc_pipe_reports_witness:
  "\<exists>report. ipcp_main Linux 3000000 ipcp_demo [''rr''] =
    (map (\<lambda>_. [Perror ''sched_setscheduler (child)'']) [0..<10],
     Printf ''Process fairness test (%s) results after %d seconds:'' [VS ''RR'', VI 5] # report, Exits 0) \<and>
    Printf ''Process %d: %llu iterations'' [VI 4, VU 3000000] \<in> set report \<and>
    Printf ''Process %d: %llu iterations'' [VI 3, VU 0] \<in> set report \<and>
    Printf ''Process %d: %llu iterations'' [VI 2, VU 2000000] \<in> set report"
proof -
  let ?n = "\<lambda>i. if i = 4 then 2 else 1 :: nat"
  have late: "first_late \<lparr>tvu_sec = 10, tvu_usec = 7\<rparr> (current_time (p_time ipcp_demo i)) (?n i)" for i
    by (auto simp: first_late_def ipcp_demo_def tv_ok_def RUN_TIME_def micros_def le_Suc_eq numeral_2_eq_2)
  have parse: "parse_ipc_pipe Linux ''rr'' = Inr SCHED_RR" by (simp add: parse_ipc_pipe_def)
  have main: "ipcp_main Linux 3000000 ipcp_demo [''rr''] =
    (map (\<lambda>i. if p_setsched ipcp_demo i SCHED_RR (sched_args Linux SCHED_RR (p_prio_max ipcp_demo SCHED_RR - int (i mod 3))) = 0
       then [] else [Perror ''sched_setscheduler (child)'']) [0..<10],
     Printf ''Process fairness test (%s) results after %d seconds:'' [VS (policy_name SCHED_RR), VI 5] #
     map (\<lambda>i. Printf ''Process %d: %llu iterations'' [VI (int i), VU (if p_write ipcp_demo i then of_nat (Suc (?n i) * 1000000) else 0)]) [0..<10] @
     [Printf ''Min: %llu, Max: %llu, Avg: %.0f''
        [VU (Min ((\<lambda>i. if p_write ipcp_demo i then of_nat (Suc (?n i) * 1000000) else 0) ` {..<10})),
         VU (Max ((\<lambda>i. if p_write ipcp_demo i then of_nat (Suc (?n i) * 1000000) else 0) ` {..<10})),
         VD (count_avg (\<Sum>i\<leftarrow>[0..<10]. if p_write ipcp_demo i then of_nat (Suc (?n i) * 1000000) else 0))]],
     Exits 0)"
    by (rule ipc_pipe_reports [OF parse, where st = "\<lambda>_. \<lparr>tvu_sec = 10, tvu_usec = 7\<rparr>"])
      (use late in \<open>auto simp: ipcp_demo_def tv_ok_def\<close>)
  show ?thesis
    unfolding main by (simp add: ipcp_demo_def policy_name_def upt_conv_Cons)
qed

end
