(* ===== verification/SleepWake.thy ===== *)
theory SleepWake
  imports Fairness Sched
begin

text \<open>
  \<open>src/scheduling/process/sleep_wake_process.c\<close>: child processes sleep for ten
  milliseconds over and over and add up how much too late they woke, next to child processes
  that only burn time; each sleeper hands its result to the parent as text through a pipe.
  The first section is shared with \<open>src/scheduling/threads/sleep_wake_thread.c\<close>. \<open>fuel\<close>
  bounds the passes of every child's loop.
\<close>

section \<open>One sleep\<close>

definition SLEEP_INTERVAL_NS :: int where "SLEEP_INTERVAL_NS = 10000000"
definition TEST_DURATION :: int where "TEST_DURATION = 5"

record sleep_data =
  d_id :: int
  d_jitter :: int
  d_iter :: int

definition sleep_new :: "nat \<Rightarrow> sleep_data" where
  "sleep_new i = \<lparr>d_id = int i, d_jitter = 0, d_iter = 0\<rparr>"

text \<open>The time asleep beyond the interval; a wake-up that came early counts as 0.\<close>

definition sleep_jitter :: "timespec \<Rightarrow> timespec \<Rightarrow> int option" where
  "sleep_jitter before after = do {
     elapsed_ns \<leftarrow> timespec_diff_ns after before;
     jitter \<leftarrow> lsub elapsed_ns SLEEP_INTERVAL_NS;
     Some (if jitter < 0 then 0 else jitter)
   }"

definition sleep_add :: "timespec \<Rightarrow> timespec \<Rightarrow> sleep_data \<Rightarrow> sleep_data option" where
  "sleep_add before after data = do {
     jitter \<leftarrow> sleep_jitter before after;
     tot \<leftarrow> ladd (d_jitter data) jitter;
     n \<leftarrow> ladd (d_iter data) 1;
     Some (data\<lparr>d_jitter := tot, d_iter := n\<rparr>)
   }"

definition avg_jitter :: "sleep_data \<Rightarrow> rat" where
  "avg_jitter d = rnd64 (rnd64 (of_int (d_jitter d)) / rnd64 (of_int (d_iter d)))"

definition jitter_of :: "timespec \<Rightarrow> timespec \<Rightarrow> int" where
  "jitter_of b a = max 0 (nanos a - nanos b - SLEEP_INTERVAL_NS)"

lemma sleep_jitter_eq: "ts_ok b \<Longrightarrow> ts_ok a \<Longrightarrow> sleep_jitter b a = Some (jitter_of b a)"
  using nanos_bound [of a] nanos_bound [of b]
  by (auto simp: sleep_jitter_def timespec_diff_ns_eq SLEEP_INTERVAL_NS_def jitter_of_def
      lsub_ok long_ok_def NSEC_PER_SEC_def max_def)

lemma jitter_of_bounds: "ts_ok b \<Longrightarrow> ts_ok a \<Longrightarrow> 0 \<le> jitter_of b a \<and> jitter_of b a < 2 ^ 33 * NSEC_PER_SEC"
  using nanos_bound [of a] nanos_bound [of b]
  by (auto simp: jitter_of_def SLEEP_INTERVAL_NS_def NSEC_PER_SEC_def)

text \<open>
  Summing: \<open>n\<close> sleeps from a fresh record. On a clock that never runs backwards the sum is
  at most the time from the first reading to the last, so it cannot overflow.
\<close>

definition slept :: "nat \<Rightarrow> (nat \<Rightarrow> timespec) \<Rightarrow> (nat \<Rightarrow> timespec) \<Rightarrow> nat \<Rightarrow> sleep_data" where
  "slept i b a n = \<lparr>d_id = int i, d_jitter = (\<Sum>k<n. jitter_of (b k) (a k)), d_iter = int n\<rparr>"

definition clock_runs :: "(nat \<Rightarrow> timespec) \<Rightarrow> (nat \<Rightarrow> timespec) \<Rightarrow> nat \<Rightarrow> bool" where
  "clock_runs b a n \<longleftrightarrow> (\<forall>k<n. ts_ok (b k) \<and> ts_ok (a k) \<and> nanos (b k) \<le> nanos (a k) \<and>
     (Suc k < n \<longrightarrow> nanos (a k) \<le> nanos (b (Suc k))))"

lemma slept_0: "slept i b a 0 = sleep_new i"
  by (simp add: slept_def sleep_new_def)

lemma clock_runs_mono: "clock_runs b a n \<Longrightarrow> m \<le> n \<Longrightarrow> clock_runs b a m"
  by (auto simp: clock_runs_def)

lemma slept_bound:
  "clock_runs b a (Suc n) \<Longrightarrow> (\<Sum>k<Suc n. jitter_of (b k) (a k)) \<le> nanos (a n)"
proof (induction n)
  case 0
  then have "0 \<le> nanos (b 0)" "nanos (b 0) \<le> nanos (a 0)"
    using nanos_bound by (auto simp: clock_runs_def)
  then show ?case by (simp add: jitter_of_def SLEEP_INTERVAL_NS_def)
next
  case (Suc n)
  then have "(\<Sum>k<Suc n. jitter_of (b k) (a k)) \<le> nanos (a n)"
    by (blast intro: Suc.IH clock_runs_mono le_SucI)
  moreover have "nanos (a n) \<le> nanos (b (Suc n))" "nanos (b (Suc n)) \<le> nanos (a (Suc n))"
    using Suc.prems by (auto simp: clock_runs_def)
  ultimately show ?case by (simp add: jitter_of_def SLEEP_INTERVAL_NS_def)
qed

lemma slept_nonneg: "0 \<le> (\<Sum>k<n. jitter_of (b k) (a k))"
  by (rule sum_nonneg) (simp add: jitter_of_def)

lemma slept_long_ok:
  assumes "clock_runs b a n"
  shows "long_ok (\<Sum>k<n. jitter_of (b k) (a k))"
proof (cases n)
  case 0
  then show ?thesis by (simp add: long_ok_def)
next
  case (Suc m)
  with assms have "ts_ok (a m)" by (simp add: clock_runs_def)
  with slept_bound [of b a m] nanos_bound [of "a m"] assms Suc slept_nonneg [where n = n and b = b and a = a]
  show ?thesis by (simp add: long_ok_def NSEC_PER_SEC_def)
qed

lemma sleep_add_slept:
  assumes "clock_runs b a (Suc n)" and "Suc n < 2 ^ 63"
  shows "sleep_add (b n) (a n) (slept i b a n) = Some (slept i b a (Suc n))"
proof -
  have "ts_ok (b n)" "ts_ok (a n)" using assms(1) by (simp_all add: clock_runs_def)
  moreover have "long_ok ((\<Sum>k<n. jitter_of (b k) (a k)) + jitter_of (b n) (a n))"
    using slept_long_ok [OF assms(1)] by simp
  moreover have "long_ok (int n + 1)" using assms(2) by (simp add: long_ok_def)
  ultimately show ?thesis
    by (simp add: sleep_add_def sleep_jitter_eq slept_def ladd_ok)
qed

section \<open>The sleeping process\<close>

text \<open>
  What the calls of one child deliver: its readings, whether its k-th \<open>nanosleep\<close> was not
  interrupted, and how many of the bytes offered its \<open>write\<close> took.
\<close>

record sleeper_env =
  s_start :: "timespec option"
  s_before :: "nat \<Rightarrow> timespec option"
  s_sleep :: "nat \<Rightarrow> bool"
  s_after :: "nat \<Rightarrow> timespec option"
  s_now :: "nat \<Rightarrow> timespec option"
  s_write :: "nat \<Rightarrow> nat option"

datatype sleeper_end = Slept sleep_data | Sleep_failed | Sleep_undef

definition elapsed_ts :: "timespec \<Rightarrow> timespec \<Rightarrow> rat option" where
  "elapsed_ts now start = do {
     ds \<leftarrow> lsub (tv_sec now) (tv_sec start);
     dn \<leftarrow> lsub (tv_nsec now) (tv_nsec start);
     Some (elapsed_double ds dn 1000000000)
   }"

definition clock_died :: "out list \<times> sleeper_end option" where
  "clock_died = ([Perror ''clock_gettime''], Some Sleep_failed)"

definition after_msg :: "out list \<Rightarrow> out list \<times> 'a \<Rightarrow> out list \<times> 'a" where
  "after_msg m r = (m @ fst r, snd r)"

text \<open>The loop, with the messages it prints; None: still running after \<open>fuel\<close> passes.\<close>

fun sleep_loop ::
  "nat \<Rightarrow> sleeper_env \<Rightarrow> timespec \<Rightarrow> nat \<Rightarrow> sleep_data \<Rightarrow> out list \<times> sleeper_end option" where
  "sleep_loop 0 e start k data = ([], None)"
| "sleep_loop (Suc fuel) e start k data =
     (case s_before e k of None \<Rightarrow> clock_died | Some before \<Rightarrow>
      after_msg (if s_sleep e k then [] else [Perror ''nanosleep''])
       (case s_after e k of None \<Rightarrow> clock_died | Some after \<Rightarrow>
       (case sleep_add before after data of None \<Rightarrow> ([], Some Sleep_undef) | Some data' \<Rightarrow>
       (case s_now e k of None \<Rightarrow> clock_died | Some now \<Rightarrow>
       (case elapsed_ts now start of None \<Rightarrow> ([], Some Sleep_undef) | Some total_elapsed \<Rightarrow>
        if of_int TEST_DURATION \<le> total_elapsed then ([], Some (Slept data'))
        else sleep_loop fuel e start (Suc k) data')))))"

text \<open>The line of text a child sends, cut to its buffer of 128 bytes, and what it printed.\<close>

definition sleep_text :: "sleep_data \<Rightarrow> string" where
  "sleep_text d = show_int (d_id d) @ CHR '' '' # show_int (d_jitter d) @ CHR '' '' # show_int (d_iter d)"

definition sleep_write :: "sleeper_env \<Rightarrow> sleep_data \<Rightarrow> string \<times> out list" where
  "sleep_write e d =
     (let text = sleep_text d; len = length text in
      case s_write e len of
        None \<Rightarrow> ([], [Perror ''write''])
      | Some n \<Rightarrow> (take n (take 127 text), if n \<noteq> len then [Perror ''write''] else []))"

definition sleep_proc :: "nat \<Rightarrow> nat \<Rightarrow> sleeper_env \<Rightarrow> out list \<times> sleeper_end option" where
  "sleep_proc fuel i e =
     (case s_start e of None \<Rightarrow> clock_died | Some start \<Rightarrow> sleep_loop fuel e start 0 (sleep_new i))"

definition sleeper_bytes :: "sleeper_env \<Rightarrow> sleeper_end \<Rightarrow> string" where
  "sleeper_bytes e r = (case r of Slept d \<Rightarrow> fst (sleep_write e d) | _ \<Rightarrow> [])"

section \<open>The load process\<close>

datatype load_exit = Load_done | Load_failed | Load_undef

fun load_loop ::
  "nat \<Rightarrow> timespec \<Rightarrow> (nat \<Rightarrow> timespec option) \<Rightarrow> 64 word \<Rightarrow> nat \<Rightarrow> load_exit option" where
  "load_loop 0 start time counter k = None"
| "load_loop (Suc fuel) start time counter k =
     (let counter' = counter + 1 in
      if counter' mod 1000000 = 0 then
        (case time k of
           None \<Rightarrow> Some Load_failed
         | Some now \<Rightarrow>
             (case elapsed_ts now start of
                None \<Rightarrow> Some Load_undef
              | Some elapsed \<Rightarrow>
                  if of_int TEST_DURATION \<le> elapsed then Some Load_done
                  else load_loop fuel start time counter' (Suc k)))
      else load_loop fuel start time counter' k)"

definition load_proc :: "nat \<Rightarrow> timespec option \<Rightarrow> (nat \<Rightarrow> timespec option) \<Rightarrow> load_exit option" where
  "load_proc fuel start time =
     (case start of None \<Rightarrow> Some Load_failed | Some st \<Rightarrow> load_loop fuel st time 0 0)"

section \<open>The parent\<close>

definition DEFAULT_NUM_SLEEP_PROCS :: nat where "DEFAULT_NUM_SLEEP_PROCS = 2"
definition DEFAULT_NUM_LOAD_PROCS :: nat where "DEFAULT_NUM_LOAD_PROCS = 2"

text \<open>The optional arguments: how many sleepers (at least one) and loads (may be none).\<close>

definition num_sleepers :: "string list \<Rightarrow> nat" where
  "num_sleepers args = (case args of [] \<Rightarrow> DEFAULT_NUM_SLEEP_PROCS
     | a # _ \<Rightarrow> if atoi a \<le> 0 then DEFAULT_NUM_SLEEP_PROCS else nat (atoi a))"

definition num_loads :: "string list \<Rightarrow> nat" where
  "num_loads args = (case args of _ # a # _ \<Rightarrow>
       if atoi a < 0 then DEFAULT_NUM_LOAD_PROCS else nat (atoi a)
     | _ \<Rightarrow> DEFAULT_NUM_LOAD_PROCS)"

text \<open>Reading one result: \<open>sscanf(buf, "%d %ld %ld", ...) == 3\<close>.\<close>

definition scan_result :: "string \<Rightarrow> sleep_data option" where
  "scan_result s = do {
     (i, r1) \<leftarrow> scan_int s;
     (j, r2) \<leftarrow> scan_long r1;
     (n, r3) \<leftarrow> scan_long r2;
     Some \<lparr>d_id = i, d_jitter = j, d_iter = n\<rparr>
   }"

definition sleep_report :: "nat \<Rightarrow> string \<Rightarrow> out" where
  "sleep_report i bytes =
     (let buf = take 127 bytes in
      if buf = [] then Eprintf ''No data read from sleep process %d'' [VI (int i)]
      else case scan_result (cstr buf) of
        None \<Rightarrow> Eprintf ''Error parsing result from process %d: %s'' [VI (int i), VS (cstr buf)]
      | Some d \<Rightarrow> Printf ''Sleep Process %d: %ld iterations, Average Jitter: %.2f ns''
          [VI (d_id d), VI (d_iter d), VD (if 0 < d_iter d then avg_jitter d else 0)])"

record sleep_env =
  w_affinity :: int
  w_rlimit :: int
  w_malloc :: "nat \<Rightarrow> bool"
  w_pipe :: "nat \<Rightarrow> int"
  w_fork :: "nat \<Rightarrow> int"
  w_fork_load :: "nat \<Rightarrow> int"
  w_sleeper :: "nat \<Rightarrow> sleeper_env"
  w_load_start :: "nat \<Rightarrow> timespec option"
  w_load_time :: "nat \<Rightarrow> nat \<Rightarrow> timespec option"

definition sleep_spawn :: "sleep_env \<Rightarrow> nat \<Rightarrow> unit \<Rightarrow> (unit, out) flow" where
  "sleep_spawn e i s =
     (if w_pipe e i < 0 then Return (Perror ''pipe'')
      else if w_fork e i < 0 then Return (Perror ''fork'')
      else Next ())"

definition load_spawn :: "sleep_env \<Rightarrow> nat \<Rightarrow> unit \<Rightarrow> (unit, out) flow" where
  "load_spawn e i s = (if w_fork_load e i < 0 then Return (Perror ''fork'') else Next ())"

text \<open>
  The parent's own output. It waits until no child is left, so it reads only from pipes
  whose writers have ended.
\<close>

definition sleep_main :: "platform \<Rightarrow> nat \<Rightarrow> sleep_env \<Rightarrow> string list \<Rightarrow> outcome" where
  "sleep_main pf fuel e args = (case limit_resources pf (w_affinity e) (w_rlimit e) of
     Some m \<Rightarrow> die m
   | None \<Rightarrow>
     let ns = num_sleepers args; nl = num_loads args in
     if \<not> w_malloc e (8 * ns) then die (Perror ''malloc'')
     else case for_upto (sleep_spawn e) 0 ns () of Return m \<Rightarrow> die m | _ \<Rightarrow>
     (case for_upto (load_spawn e) 0 nl () of Return m \<Rightarrow> die m | _ \<Rightarrow>
       let ends = map (\<lambda>i. snd (sleep_proc fuel i (w_sleeper e i))) [0..<ns];
           loads = map (\<lambda>i. load_proc fuel (w_load_start e i) (w_load_time e i)) [0..<nl] in
       if None \<in> set ends \<or> None \<in> set loads then ([], Unfinished)
       else if Some Sleep_undef \<in> set ends \<or> Some Load_undef \<in> set loads then undef
       else say (Printf ''Sleep/Wake Precision Test Results (over %d seconds):'' [VI TEST_DURATION])
         (say_all (map (\<lambda>i. sleep_report i (sleeper_bytes (w_sleeper e i) (the (ends ! i)))) [0..<ns])
           (exits 0))))"

section \<open>The loops\<close>

lemma elapsed_ts_deadline:
  assumes "ts_ok c" "ts_ok s"
  shows "\<exists>x. elapsed_ts c s = Some x \<and>
    (of_int TEST_DURATION \<le> x \<longleftrightarrow> TEST_DURATION * NSEC_PER_SEC \<le> nanos c - nanos s)"
proof -
  have "lsub (tv_sec c) (tv_sec s) = Some (tv_sec c - tv_sec s)"
    "lsub (tv_nsec c) (tv_nsec s) = Some (tv_nsec c - tv_nsec s)"
    using assms by (auto intro!: lsub_ok simp: long_ok_def ts_ok_def NSEC_PER_SEC_def)
  moreover have "of_int TEST_DURATION \<le> elapsed_double (tv_sec c - tv_sec s) (tv_nsec c - tv_nsec s) 1000000000
      \<longleftrightarrow> TEST_DURATION * 1000000000 \<le> (tv_sec c - tv_sec s) * 1000000000 + (tv_nsec c - tv_nsec s)"
    using assms by (intro elapsed_double_deadline) (auto simp: TEST_DURATION_def ts_ok_def NSEC_PER_SEC_def)
  moreover have "(tv_sec c - tv_sec s) * 1000000000 + (tv_nsec c - tv_nsec s) = nanos c - nanos s"
    by (simp add: nanos_def NSEC_PER_SEC_def left_diff_distrib)
  ultimately show ?thesis by (simp add: elapsed_ts_def NSEC_PER_SEC_def)
qed

text \<open>\<open>w\<close> first shows that the test is over at its reading \<open>n\<close>.\<close>

definition over_at :: "timespec \<Rightarrow> (nat \<Rightarrow> timespec) \<Rightarrow> nat \<Rightarrow> bool" where
  "over_at start w n \<longleftrightarrow> ts_ok start \<and> (\<forall>k \<le> n. ts_ok (w k) \<and>
     (TEST_DURATION * NSEC_PER_SEC \<le> nanos (w k) - nanos start \<longleftrightarrow> k = n))"

lemma over_at_elapsed:
  assumes "over_at start w n" "k \<le> n"
  shows "\<exists>x. elapsed_ts (w k) start = Some x \<and> (of_int TEST_DURATION \<le> x \<longleftrightarrow> k = n)"
  using assms elapsed_ts_deadline [of "w k" start] by (auto simp: over_at_def)

definition sleeps_complain :: "sleeper_env \<Rightarrow> nat \<Rightarrow> nat \<Rightarrow> out list" where
  "sleeps_complain e k n = concat (map (\<lambda>j. if s_sleep e j then [] else [Perror ''nanosleep'']) [k..<n])"

lemma sleep_loop_from:
  assumes reads: "\<And>k. k \<le> n \<Longrightarrow> s_before e k = Some (b k) \<and> s_after e k = Some (a k) \<and> s_now e k = Some (w k)"
    and over: "over_at start w n" and runs: "clock_runs b a (Suc n)" and n: "Suc n < 2 ^ 63"
    and k: "k \<le> n"
  shows "sleep_loop (Suc (n - k) + extra) e start k (slept i b a k) =
    (sleeps_complain e k (Suc n), Some (Slept (slept i b a (Suc n))))"
  using k
proof (induction "n - k" arbitrary: k)
  case 0
  then have k: "k = n" by simp
  obtain x where x: "elapsed_ts (w n) start = Some x" "of_int TEST_DURATION \<le> x"
    using over_at_elapsed [OF over, of n] by auto
  show ?case
    using reads [of n] x sleep_add_slept [OF runs n, of i]
    by (simp add: k after_msg_def sleeps_complain_def)
next
  case (Suc d)
  then have k: "k < n" by simp
  obtain x where x: "elapsed_ts (w k) start = Some x" "\<not> of_int TEST_DURATION \<le> x"
    using over_at_elapsed [OF over, of k] k by auto
  have add: "sleep_add (b k) (a k) (slept i b a k) = Some (slept i b a (Suc k))"
    using k n by (intro sleep_add_slept clock_runs_mono [OF runs]) auto
  have "sleep_loop (Suc (n - Suc k) + extra) e start (Suc k) (slept i b a (Suc k)) =
      (sleeps_complain e (Suc k) (Suc n), Some (Slept (slept i b a (Suc n))))"
    using Suc k by (intro Suc(1)) auto
  moreover have "sleeps_complain e k (Suc n) =
      (if s_sleep e k then [] else [Perror ''nanosleep'']) @ sleeps_complain e (Suc k) (Suc n)"
    using k by (simp add: sleeps_complain_def upt_conv_Cons del: upt_Suc)
  moreover have "Suc (n - k) + extra = Suc (Suc (n - Suc k) + extra)" using k by simp
  ultimately show ?case
    using reads [of k] k x add by (simp add: after_msg_def)
qed

text \<open>
  The load loop is the counting loop of the fairness program on readings that agree with its
  own on the one question it asks: whether the five seconds are over.
\<close>

definition as_tv :: "timespec \<Rightarrow> timespec \<Rightarrow> timeval" where
  "as_tv start t = (case elapsed_ts t start of
     None \<Rightarrow> \<lparr>tvu_sec = 2 ^ 63, tvu_usec = 0\<rparr>
   | Some x \<Rightarrow> \<lparr>tvu_sec = if of_int TEST_DURATION \<le> x then 5 else 0, tvu_usec = 0\<rparr>)"

fun load_end_of :: "child_end \<Rightarrow> load_exit" where
  "load_end_of (Counted c) = Load_done"
| "load_end_of Failed = Load_failed"
| "load_end_of Child_undef = Load_undef"

lemma elapsed_tv_demo:
  "elapsed_tv \<lparr>tvu_sec = 2 ^ 63, tvu_usec = 0\<rparr> \<lparr>tvu_sec = 0, tvu_usec = 0\<rparr> = None"
  "\<exists>x. elapsed_tv \<lparr>tvu_sec = 5, tvu_usec = 0\<rparr> \<lparr>tvu_sec = 0, tvu_usec = 0\<rparr> = Some x \<and> of_int RUN_TIME \<le> x"
  "\<exists>x. elapsed_tv \<lparr>tvu_sec = 0, tvu_usec = 0\<rparr> \<lparr>tvu_sec = 0, tvu_usec = 0\<rparr> = Some x \<and> \<not> of_int RUN_TIME \<le> x"
  using elapsed_tv_deadline [of "\<lparr>tvu_sec = 5, tvu_usec = 0\<rparr>" "\<lparr>tvu_sec = 0, tvu_usec = 0\<rparr>"]
    elapsed_tv_deadline [of "\<lparr>tvu_sec = 0, tvu_usec = 0\<rparr>" "\<lparr>tvu_sec = 0, tvu_usec = 0\<rparr>"]
  by (auto simp: tv_ok_def micros_def RUN_TIME_def elapsed_tv_def lsub_def chk_long_def long_ok_def)

lemma load_loop_count:
  "load_loop fuel start time c k = map_option load_end_of
     (count_loop Failed fuel \<lparr>tvu_sec = 0, tvu_usec = 0\<rparr> (\<lambda>j. map_option (as_tv start) (time j)) c k)"
proof (induction fuel start time c k rule: load_loop.induct)
  case (2 fuel start time c k)
  note IH = 2
  show ?case
  proof (cases "(c + 1) mod 1000000 = 0")
    case False
    with IH(2) show ?thesis by (simp add: Let_def)
  next
    case True
    show ?thesis
    proof (cases "time k")
      case (Some now)
      with True IH(1) elapsed_tv_demo show ?thesis
        by (auto simp: Let_def as_tv_def split: option.split)
    qed (use True in \<open>simp add: Let_def\<close>)
  qed
qed simp

lemma load_proc_done:
  assumes over: "over_at start w n" and time: "\<And>k. k \<le> n \<Longrightarrow> time k = Some (w k)"
    and "Suc n * 1000000 < 2 ^ 64" "Suc n * 1000000 \<le> fuel"
  shows "load_proc fuel (Some start) time = Some Load_done"
proof -
  have "first_late \<lparr>tvu_sec = 0, tvu_usec = 0\<rparr> (\<lambda>j. map_option (as_tv start) (time j)) n"
    unfolding first_late_def
  proof (intro allI impI)
    fix k
    assume k: "k \<le> n"
    obtain x where "elapsed_ts (w k) start = Some x" "of_int TEST_DURATION \<le> x \<longleftrightarrow> k = n"
      using over_at_elapsed [OF over k] by blast
    then show "\<exists>t. map_option (as_tv start) (time k) = Some t \<and> tv_ok t \<and>
        (RUN_TIME * 1000000 \<le> micros t - micros \<lparr>tvu_sec = 0, tvu_usec = 0\<rparr> \<longleftrightarrow> k = n)"
      using time [OF k] by (simp add: as_tv_def tv_ok_def micros_def RUN_TIME_def)
  qed
  from fair_child_late [OF _ this assms(3,4), of Failed] show ?thesis
    by (simp add: load_proc_def load_loop_count tv_ok_def)
qed

lemma sleep_proc_slept:
  assumes "s_start e = Some start"
    and "\<And>k. k \<le> n \<Longrightarrow> s_before e k = Some (b k) \<and> s_after e k = Some (a k) \<and> s_now e k = Some (w k)"
    and "over_at start w n" and "clock_runs b a (Suc n)" and "Suc n < 2 ^ 63" and "Suc n \<le> fuel"
  shows "sleep_proc fuel i e = (sleeps_complain e 0 (Suc n), Some (Slept (slept i b a (Suc n))))"
proof -
  have fuel: "Suc (n - 0) + (fuel - Suc n) = fuel" using assms(6) by simp
  have "sleep_loop fuel e start 0 (sleep_new i) =
      (sleeps_complain e 0 (Suc n), Some (Slept (slept i b a (Suc n))))"
    using sleep_loop_from [OF assms(2-5), of 0 "fuel - Suc n" i] unfolding fuel slept_0 by simp
  then show ?thesis using assms(1) by (simp add: sleep_proc_def)
qed

section \<open>The hand-over as text\<close>

lemma ends_number_space [simp]: "ends_number (CHR '' '' # s)"
  by (simp add: ends_number_def isdigit_def)

lemma scan_long_space: "scan_long (CHR '' '' # s) = scan_long s"
  by (simp add: scan_long_def scan_signed_space isspace_def)

definition data_ok :: "sleep_data \<Rightarrow> bool" where
  "data_ok d \<longleftrightarrow> int_ok (d_id d) \<and> long_ok (d_jitter d) \<and> long_ok (d_iter d)"

lemma scan_sleep_text: "data_ok d \<Longrightarrow> scan_result (sleep_text d) = Some d"
proof -
  assume "data_ok d"
  then have "scan_int (show_int (d_id d) @ CHR '' '' # show_int (d_jitter d) @ CHR '' '' # show_int (d_iter d)) =
      Some (d_id d, CHR '' '' # show_int (d_jitter d) @ CHR '' '' # show_int (d_iter d))"
    "scan_long (show_int (d_jitter d) @ CHR '' '' # show_int (d_iter d)) =
      Some (d_jitter d, CHR '' '' # show_int (d_iter d))"
    "scan_long (show_int (d_iter d) @ []) = Some (d_iter d, [])"
    by (intro scan_int_show_int scan_long_show_int; simp add: data_ok_def ends_number_def isdigit_def)+
  then show ?thesis by (simp add: scan_result_def sleep_text_def scan_long_space)
qed

lemma length_sleep_text: "data_ok d \<Longrightarrow> length (sleep_text d) \<le> 62"
  using length_show_int_long [of "d_id d"] length_show_int_long [of "d_jitter d"]
    length_show_int_long [of "d_iter d"]
  by (auto simp: sleep_text_def data_ok_def int_ok_def long_ok_def)

lemma cstr_sleep_text: "cstr (sleep_text d) = sleep_text d"
  by (rule cstr_id) (auto simp: sleep_text_def dest: show_int_no_nul)

text \<open>A sleeper whose \<open>write\<close> took the whole line is reported with what it measured.\<close>

lemma sleep_report_whole:
  assumes "data_ok d" and "s_write e (length (sleep_text d)) = Some (length (sleep_text d))"
  shows "sleep_report i (sleeper_bytes e (Slept d)) =
    Printf ''Sleep Process %d: %ld iterations, Average Jitter: %.2f ns''
      [VI (d_id d), VI (d_iter d), VD (if 0 < d_iter d then avg_jitter d else 0)]"
proof -
  have len: "length (sleep_text d) \<le> 127" using length_sleep_text [OF assms(1)] by simp
  have ne: "sleep_text d \<noteq> []" by (simp add: sleep_text_def)
  have "take 127 (sleeper_bytes e (Slept d)) = sleep_text d"
    using assms(2) len by (simp add: sleeper_bytes_def sleep_write_def Let_def)
  then show ?thesis
    using ne by (simp add: sleep_report_def cstr_sleep_text scan_sleep_text [OF assms(1)])
qed

lemma sleep_report_none: "sleep_report i (sleeper_bytes e Sleep_failed) =
    Eprintf ''No data read from sleep process %d'' [VI (int i)]"
  by (simp add: sleep_report_def sleeper_bytes_def)

section \<open>Properties\<close>

text \<open>C10. A sleeper on a clock that never runs backwards ends with the first pass that finishes
  five seconds or more after its start (pass n, counted from 0), has made n + 1 sleeps, and its
  total is the sum of the delays beyond ten milliseconds, early wake-ups counting as 0; no sum
  overflows, and an interrupted sleep is reported but counted like the others.\<close>

theorem sleep_proc_sums:
  assumes "s_start e = Some start"
    and "\<And>k. k \<le> n \<Longrightarrow> s_before e k = Some (b k) \<and> s_after e k = Some (a k) \<and> s_now e k = Some (w k)"
    and "over_at start w n" and "clock_runs b a (Suc n)" and "Suc n < 2 ^ 63" and "Suc n \<le> fuel"
  shows "sleep_proc fuel i e =
    (concat (map (\<lambda>j. if s_sleep e j then [] else [Perror ''nanosleep'']) [0..<Suc n]),
     Some (Slept \<lparr>d_id = int i,
       d_jitter = (\<Sum>k<Suc n. max 0 (nanos (a k) - nanos (b k) - SLEEP_INTERVAL_NS)),
       d_iter = int (Suc n)\<rparr>))"
  using sleep_proc_slept [OF assms(1-6)] unfolding sleeps_complain_def slept_def jitter_of_def by simp

definition sleeper_demo :: sleeper_env where
  "sleeper_demo = \<lparr>s_start = Some \<lparr>tv_sec = 7, tv_nsec = 0\<rparr>,
     s_before = (\<lambda>k. Some \<lparr>tv_sec = 7 + 3 * int k, tv_nsec = 1\<rparr>), s_sleep = (\<lambda>k. k \<noteq> 0),
     s_after = (\<lambda>k. Some \<lparr>tv_sec = 7 + 3 * int k, tv_nsec = 10000400\<rparr>),
     s_now = (\<lambda>k. Some \<lparr>tv_sec = 9 + 3 * int k, tv_nsec = 0\<rparr>), s_write = Some\<rparr>"

abbreviation (input) demo_before :: "nat \<Rightarrow> timespec" where
  "demo_before k \<equiv> \<lparr>tv_sec = 7 + 3 * int k, tv_nsec = 1\<rparr>"
abbreviation (input) demo_after :: "nat \<Rightarrow> timespec" where
  "demo_after k \<equiv> \<lparr>tv_sec = 7 + 3 * int k, tv_nsec = 10000400\<rparr>"
abbreviation (input) demo_now :: "nat \<Rightarrow> timespec" where
  "demo_now k \<equiv> \<lparr>tv_sec = 9 + 3 * int k, tv_nsec = 0\<rparr>"

lemma sleeper_demo_reads:
  "s_start sleeper_demo = Some \<lparr>tv_sec = 7, tv_nsec = 0\<rparr>"
  "k \<le> 1 \<Longrightarrow> s_before sleeper_demo k = Some (demo_before k) \<and>
     s_after sleeper_demo k = Some (demo_after k) \<and> s_now sleeper_demo k = Some (demo_now k)"
  "over_at \<lparr>tv_sec = 7, tv_nsec = 0\<rparr> demo_now 1"
  "clock_runs demo_before demo_after (Suc 1)"
  by (auto simp: sleeper_demo_def over_at_def clock_runs_def ts_ok_def NSEC_PER_SEC_def
      TEST_DURATION_def nanos_def le_Suc_eq less_Suc_eq)

theorem sleep_proc_sums_witness:
  "sleep_proc 5 3 sleeper_demo = ([Perror ''nanosleep''],
     Some (Slept \<lparr>d_id = 3, d_jitter = 399 + 399, d_iter = 2\<rparr>))"
  using sleep_proc_sums [OF sleeper_demo_reads, of 5 3]
  by (simp add: nanos_def NSEC_PER_SEC_def SLEEP_INTERVAL_NS_def) (simp add: sleeper_demo_def)

text \<open>C35. The text a sleeper sends is read back as exactly the record it had: all three numbers
  survive the conversion to decimal text, the pipe and \<open>sscanf\<close>, for every int and every
  two longs, and the line always fits both buffers.\<close>

theorem sleep_text_roundtrip:
  assumes "int_ok (d_id d)" and "long_ok (d_jitter d)" and "long_ok (d_iter d)"
  shows "scan_result (cstr (take 127 (sleep_text d))) = Some d"
proof -
  have ok: "data_ok d" using assms by (simp add: data_ok_def)
  then have "take 127 (sleep_text d) = sleep_text d" using length_sleep_text by fastforce
  then show ?thesis by (simp add: cstr_sleep_text scan_sleep_text [OF ok])
qed

theorem sleep_text_roundtrip_witness:
  "scan_result (cstr (take 127 (sleep_text
     \<lparr>d_id = 2147483647, d_jitter = - 9223372036854775808, d_iter = 9223372036854775807\<rparr>))) =
   Some \<lparr>d_id = 2147483647, d_jitter = - 9223372036854775808, d_iter = 9223372036854775807\<rparr>"
  by (rule sleep_text_roundtrip) (simp_all add: int_ok_def long_ok_def)

text \<open>C12. The parent: with its resources limited and all processes created, once every child
  has ended (each sleeper with its record or by failing, each load without undefined
  behaviour) it prints the header and one line per sleeper in order: the average of the
  record the sleeper had where the sleeper could write its line, and on standard error that
  nothing came where the sleeper failed; and it exits with 0.\<close>

theorem sleep_main_reports:
  assumes "limit_resources pf (w_affinity e) (w_rlimit e) = None" and "w_malloc e (8 * num_sleepers args)"
    and "\<And>i. i < num_sleepers args \<Longrightarrow> 0 \<le> w_pipe e i \<and> 0 \<le> w_fork e i"
    and "\<And>i. i < num_loads args \<Longrightarrow> 0 \<le> w_fork_load e i"
    and "\<And>i. i < num_sleepers args \<Longrightarrow> snd (sleep_proc fuel i (w_sleeper e i)) =
      Some (case ds i of Some d \<Rightarrow> Slept d | None \<Rightarrow> Sleep_failed)"
    and "\<And>i d. i < num_sleepers args \<Longrightarrow> ds i = Some d \<Longrightarrow> data_ok d \<and> 0 < d_iter d \<and>
      s_write (w_sleeper e i) (length (sleep_text d)) = Some (length (sleep_text d))"
    and "\<And>i. i < num_loads args \<Longrightarrow>
      load_proc fuel (w_load_start e i) (w_load_time e i) \<in> {Some Load_done, Some Load_failed}"
  shows "sleep_main pf fuel e args =
    (Printf ''Sleep/Wake Precision Test Results (over %d seconds):'' [VI 5] #
     map (\<lambda>i. case ds i of
         Some d \<Rightarrow> Printf ''Sleep Process %d: %ld iterations, Average Jitter: %.2f ns''
           [VI (d_id d), VI (d_iter d), VD (avg_jitter d)]
       | None \<Rightarrow> Eprintf ''No data read from sleep process %d'' [VI (int i)])
       [0..<num_sleepers args], Exits 0)"
proof -
  define ends where "ends = map (\<lambda>i. snd (sleep_proc fuel i (w_sleeper e i))) [0..<num_sleepers args]"
  define loads where "loads = map (\<lambda>i. load_proc fuel (w_load_start e i) (w_load_time e i)) [0..<num_loads args]"
  have spawn: "for_upto (sleep_spawn e) 0 (num_sleepers args) () = Next ()"
    using for_upto_Next [of 0 "num_sleepers args" "sleep_spawn e" "\<lambda>_ s. s" "()"] assms(3)
    by (simp add: sleep_spawn_def not_less [symmetric])
  have spawn_load: "for_upto (load_spawn e) 0 (num_loads args) () = Next ()"
    using for_upto_Next [of 0 "num_loads args" "load_spawn e" "\<lambda>_ s. s" "()"] assms(4)
    by (simp add: load_spawn_def not_less [symmetric])
  have good: "None \<notin> set ends" "Some Sleep_undef \<notin> set ends"
    using assms(5) by (auto simp: ends_def split: option.splits)
  have good_loads: "None \<notin> set loads" "Some Load_undef \<notin> set loads"
    using assms(7) by (fastforce simp: loads_def)+
  have line: "sleep_report i (sleeper_bytes (w_sleeper e i) (the (ends ! i))) =
      (case ds i of
         Some d \<Rightarrow> Printf ''Sleep Process %d: %ld iterations, Average Jitter: %.2f ns''
           [VI (d_id d), VI (d_iter d), VD (avg_jitter d)]
       | None \<Rightarrow> Eprintf ''No data read from sleep process %d'' [VI (int i)])"
    if "i < num_sleepers args" for i
    using assms(5,6) [OF that] that
    by (auto simp: ends_def sleep_report_none sleep_report_whole split: option.splits)
  show ?thesis
    using good good_loads line
    by (simp add: sleep_main_def Let_def assms(1,2) spawn spawn_load TEST_DURATION_def
        flip: ends_def loads_def)
qed

text \<open>Two sleepers, one of which cannot read its clock, and two loads, one of which cannot.\<close>

definition sleep_demo :: sleep_env where
  "sleep_demo = \<lparr>w_affinity = 0, w_rlimit = 0, w_malloc = (\<lambda>_. True), w_pipe = (\<lambda>_. 0),
     w_fork = (\<lambda>i. 10 + int i), w_fork_load = (\<lambda>i. 20 + int i),
     w_sleeper = (\<lambda>i. if i = 0 then sleeper_demo else sleeper_demo\<lparr>s_start := None\<rparr>),
     w_load_start = (\<lambda>i. if i = 0 then None else Some \<lparr>tv_sec = 7, tv_nsec = 0\<rparr>),
     w_load_time = (\<lambda>_ k. Some (demo_now k))\<rparr>"

lemma sleep_demo_ends:
  "snd (sleep_proc 2000000 0 sleeper_demo) = Some (Slept \<lparr>d_id = 0, d_jitter = 798, d_iter = 2\<rparr>)"
  "snd (sleep_proc 2000000 i (sleeper_demo\<lparr>s_start := None\<rparr>)) = Some Sleep_failed"
  "load_proc 2000000 (Some \<lparr>tv_sec = 7, tv_nsec = 0\<rparr>) (\<lambda>k. Some (demo_now k)) = Some Load_done"
  "load_proc 2000000 None t = Some Load_failed"
proof -
  show "snd (sleep_proc 2000000 0 sleeper_demo) = Some (Slept \<lparr>d_id = 0, d_jitter = 798, d_iter = 2\<rparr>)"
    using sleep_proc_slept [OF sleeper_demo_reads, of 2000000 0]
    by (simp add: slept_def jitter_of_def nanos_def NSEC_PER_SEC_def SLEEP_INTERVAL_NS_def)
  show "snd (sleep_proc 2000000 i (sleeper_demo\<lparr>s_start := None\<rparr>)) = Some Sleep_failed"
    by (simp add: sleep_proc_def clock_died_def)
  show "load_proc 2000000 (Some \<lparr>tv_sec = 7, tv_nsec = 0\<rparr>) (\<lambda>k. Some (demo_now k)) = Some Load_done"
    by (rule load_proc_done [OF sleeper_demo_reads(3)]) simp_all
  show "load_proc 2000000 None t = Some Load_failed" by (simp add: load_proc_def)
qed

theorem sleep_main_reports_witness:
  "sleep_main Linux 2000000 sleep_demo [] =
    ([Printf ''Sleep/Wake Precision Test Results (over %d seconds):'' [VI 5],
      Printf ''Sleep Process %d: %ld iterations, Average Jitter: %.2f ns''
        [VI 0, VI 2, VD (avg_jitter \<lparr>d_id = 0, d_jitter = 798, d_iter = 2\<rparr>)],
      Eprintf ''No data read from sleep process %d'' [VI 1]], Exits 0)"
proof -
  have n: "num_sleepers [] = 2" "num_loads [] = 2"
    by (simp_all add: num_sleepers_def num_loads_def DEFAULT_NUM_SLEEP_PROCS_def DEFAULT_NUM_LOAD_PROCS_def)
  define ds where "ds i = (if i = 0 then Some \<lparr>d_id = 0, d_jitter = 798, d_iter = 2\<rparr> else None)" for i :: nat
  have "sleep_main Linux 2000000 sleep_demo [] =
    (Printf ''Sleep/Wake Precision Test Results (over %d seconds):'' [VI 5] #
     map (\<lambda>i. case ds i of
         Some d \<Rightarrow> Printf ''Sleep Process %d: %ld iterations, Average Jitter: %.2f ns''
           [VI (d_id d), VI (d_iter d), VD (avg_jitter d)]
       | None \<Rightarrow> Eprintf ''No data read from sleep process %d'' [VI (int i)])
       [0..<num_sleepers []], Exits 0)"
    by (rule sleep_main_reports)
      (auto simp: n sleep_demo_def ds_def limit_resources_def sleep_demo_ends data_ok_def int_ok_def
        long_ok_def, auto simp: sleeper_demo_def)
  then show ?thesis by (simp add: n ds_def upt_conv_Cons)
qed

text \<open>The number of sleepers is the first argument where that is a positive int, and two
  otherwise; the number of loads is the second where that is not negative, and two otherwise.\<close>

theorem sleep_arguments:
  assumes "int_ok m" and "int_ok n"
  shows "num_sleepers [show_int m, show_int n] = (if 0 < m then nat m else 2) \<and>
    num_loads [show_int m, show_int n] = (if 0 \<le> n then nat n else 2) \<and>
    num_sleepers [] = 2 \<and> num_loads [] = 2 \<and> num_loads [show_int m] = 2"
  using atoi_show_int [OF assms(1)] atoi_show_int [OF assms(2)]
  by (simp add: num_sleepers_def num_loads_def DEFAULT_NUM_SLEEP_PROCS_def DEFAULT_NUM_LOAD_PROCS_def)

theorem sleep_arguments_witness:
  "num_sleepers [show_int 0, show_int 0] = 2 \<and> num_loads [show_int 0, show_int 0] = 0"
  using sleep_arguments [of 0 0] by (simp add: int_ok_def)

end
