(* ===== verification/StopFlag.thy ===== *)
theory StopFlag
  imports Machines
begin

text \<open>
  The protocol of \<open>src/scheduling/threads/thread_fairness.c\<close> and
  \<open>src/scheduling/threads/sleep_wake_thread.c\<close>: main creates \<open>n\<close> threads, sleeps, sets the
  global flag \<open>stop\<close>, joins the threads in order and reports; each thread loops
  \<open>while (!stop) body\<close> on data of its own. The body of thread \<open>i\<close> is the function
  \<open>pass i\<close> on its data, \<open>start i\<close> is the data main gives it, and \<open>ok i\<close> tells whether
  \<open>pthread_create\<close> succeeds.
\<close>

section \<open>The machine\<close>

datatype worker_pc = At_test | In_body | Gone

datatype boss_pc = Creating nat | Sleeping | Joining nat | Reported | Failed_at nat

record 'd stop_state =
  stopped :: bool
  workers :: "(worker_pc \<times> 'd) list"
  boss :: boss_pc

definition stop_init :: "'d stop_state \<Rightarrow> bool" where
  "stop_init s \<longleftrightarrow> s = \<lparr>stopped = False, workers = [], boss = Creating 0\<rparr>"

text \<open>\<open>exit\<close> after a failing \<open>pthread_create\<close> ends all threads at once.\<close>

definition exited :: "'d stop_state \<Rightarrow> bool" where
  "exited s \<longleftrightarrow> (case boss s of Failed_at _ \<Rightarrow> True | _ \<Rightarrow> False)"

inductive stop_step ::
  "nat \<Rightarrow> (nat \<Rightarrow> bool) \<Rightarrow> (nat \<Rightarrow> 'd) \<Rightarrow> (nat \<Rightarrow> 'd \<Rightarrow> 'd) \<Rightarrow> 'd stop_state \<Rightarrow> 'd stop_state \<Rightarrow> bool"
  for n ok start pass where
  create: "boss s = Creating i \<Longrightarrow> i < n \<Longrightarrow> ok i \<Longrightarrow>
    stop_step n ok start pass s (s\<lparr>workers := workers s @ [(At_test, start i)], boss := Creating (Suc i)\<rparr>)"
| create_fail: "boss s = Creating i \<Longrightarrow> i < n \<Longrightarrow> \<not> ok i \<Longrightarrow>
    stop_step n ok start pass s (s\<lparr>boss := Failed_at i\<rparr>)"
| created: "boss s = Creating n \<Longrightarrow> stop_step n ok start pass s (s\<lparr>boss := Sleeping\<rparr>)"
| set_stop: "boss s = Sleeping \<Longrightarrow>
    stop_step n ok start pass s (s\<lparr>stopped := True, boss := Joining 0\<rparr>)"
| join: "boss s = Joining i \<Longrightarrow> i < n \<Longrightarrow> fst (workers s ! i) = Gone \<Longrightarrow>
    stop_step n ok start pass s (s\<lparr>boss := Joining (Suc i)\<rparr>)"
| report: "boss s = Joining n \<Longrightarrow> stop_step n ok start pass s (s\<lparr>boss := Reported\<rparr>)"
| body: "\<not> exited s \<Longrightarrow> i < length (workers s) \<Longrightarrow> workers s ! i = (In_body, d) \<Longrightarrow>
    stop_step n ok start pass s (s\<lparr>workers := (workers s)[i := (At_test, pass i d)]\<rparr>)"
| leave: "\<not> exited s \<Longrightarrow> i < length (workers s) \<Longrightarrow> workers s ! i = (At_test, d) \<Longrightarrow> stopped s \<Longrightarrow>
    stop_step n ok start pass s (s\<lparr>workers := (workers s)[i := (Gone, d)]\<rparr>)"

text \<open>Thread \<open>i\<close> finds the flag clear and enters its body: who and how often is up to the scheduler.\<close>

inductive enters :: "nat \<Rightarrow> 'd stop_state \<Rightarrow> 'd stop_state \<Rightarrow> bool" where
  enter: "\<not> exited s \<Longrightarrow> i < length (workers s) \<Longrightarrow> workers s ! i = (At_test, d) \<Longrightarrow> \<not> stopped s \<Longrightarrow>
    enters i s (s\<lparr>workers := (workers s)[i := (In_body, d)]\<rparr>)"

definition stop_enter :: "'d stop_state \<Rightarrow> 'd stop_state \<Rightarrow> bool" where
  "stop_enter = some_label enters"

lemma stop_enterE:
  assumes "stop_enter s t"
  obtains i d where "t = s\<lparr>workers := (workers s)[i := (In_body, d)]\<rparr>" "\<not> exited s"
    "i < length (workers s)" "workers s ! i = (At_test, d)" "\<not> stopped s"
  using assms that by (auto simp: stop_enter_def some_label_def elim!: enters.cases)

section \<open>Invariant and measure\<close>

fun created_by :: "nat \<Rightarrow> boss_pc \<Rightarrow> nat" where
  "created_by n (Creating i) = i"
| "created_by n (Failed_at i) = i"
| "created_by n _ = n"

fun has_stopped :: "boss_pc \<Rightarrow> bool" where
  "has_stopped (Joining i) = True"
| "has_stopped Reported = True"
| "has_stopped _ = False"

fun boss_ok :: "nat \<Rightarrow> (nat \<Rightarrow> bool) \<Rightarrow> (nat \<Rightarrow> bool) \<Rightarrow> boss_pc \<Rightarrow> bool" where
  "boss_ok n ok gone (Creating i) \<longleftrightarrow> i \<le> n"
| "boss_ok n ok gone (Failed_at i) \<longleftrightarrow> i < n \<and> \<not> ok i"
| "boss_ok n ok gone Sleeping \<longleftrightarrow> True"
| "boss_ok n ok gone (Joining i) \<longleftrightarrow> i \<le> n \<and> (\<forall>j<i. gone j)"
| "boss_ok n ok gone Reported \<longleftrightarrow> (\<forall>j<n. gone j)"

definition stop_inv :: "nat \<Rightarrow> (nat \<Rightarrow> bool) \<Rightarrow> 'd stop_state \<Rightarrow> bool" where
  "stop_inv n ok s \<longleftrightarrow> stopped s = has_stopped (boss s) \<and>
     length (workers s) = created_by n (boss s) \<and>
     (\<forall>j < length (workers s). ok j \<and> (fst (workers s ! j) = Gone \<longrightarrow> stopped s)) \<and>
     boss_ok n ok (\<lambda>j. fst (workers s ! j) = Gone) (boss s)"

definition stop_final :: "'d stop_state \<Rightarrow> bool" where
  "stop_final s \<longleftrightarrow> boss s = Reported \<or> exited s"

fun worker_weight :: "worker_pc \<times> 'd \<Rightarrow> nat" where
  "worker_weight (In_body, d) = 2"
| "worker_weight (At_test, d) = 1"
| "worker_weight (Gone, d) = 0"

fun boss_weight :: "nat \<Rightarrow> boss_pc \<Rightarrow> nat" where
  "boss_weight n (Creating i) = 2 * (n - i) + n + 3"
| "boss_weight n Sleeping = n + 2"
| "boss_weight n (Joining i) = n - i + 1"
| "boss_weight n Reported = 0"
| "boss_weight n (Failed_at i) = 0"

definition stop_meas :: "nat \<Rightarrow> 'd stop_state \<Rightarrow> nat" where
  "stop_meas n s = boss_weight n (boss s) + sum_list (map worker_weight (workers s))"

lemma stop_inv_init: "stop_init s \<Longrightarrow> stop_inv n ok s"
  by (simp add: stop_init_def stop_inv_def)

lemma boss_ok_mono: "boss_ok n ok g b \<Longrightarrow> (\<And>j. j < n \<Longrightarrow> g j \<Longrightarrow> h j) \<Longrightarrow> boss_ok n ok h b"
  by (cases b) auto

lemma stop_inv_step:
  assumes "stop_inv n ok s" "stop_step n ok start pass s t"
  shows "stop_inv n ok t"
  using assms(2)
proof (cases rule: stop_step.cases)
  case (create i)
  with assms(1) show ?thesis by (auto simp: stop_inv_def nth_append less_Suc_eq)
next
  case (join i)
  with assms(1) show ?thesis by (auto simp: stop_inv_def less_Suc_eq)
next
  case (body i d)
  with assms(1) show ?thesis
    by (auto simp: stop_inv_def nth_list_update intro: boss_ok_mono)
next
  case (leave i d)
  with assms(1) show ?thesis
    by (auto simp: stop_inv_def nth_list_update intro: boss_ok_mono)
qed (use assms(1) in \<open>auto simp: stop_inv_def\<close>)

lemma stop_inv_enter: "stop_inv n ok s \<Longrightarrow> stop_enter s t \<Longrightarrow> stop_inv n ok t"
  by (elim stop_enterE) (auto simp: stop_inv_def nth_list_update intro: boss_ok_mono)

lemma stop_meas_step:
  assumes "stop_inv n ok s" "stop_step n ok start pass s t"
  shows "stop_meas n t < stop_meas n s"
  using assms(2)
proof (cases rule: stop_step.cases)
  case (body i d)
  with sum_list_update_nat [of i "workers s" worker_weight "(At_test, pass i d)"] show ?thesis
    by (simp add: stop_meas_def)
next
  case (leave i d)
  with sum_list_update_nat [of i "workers s" worker_weight "(Gone, d)"] show ?thesis
    by (simp add: stop_meas_def)
qed (simp_all add: stop_meas_def)

lemma stop_meas_enter:
  assumes "stop_enter s t"
  shows "stop_meas n t \<le> stop_meas n s + 1"
  using assms
proof (rule stop_enterE)
  fix i d
  assume "t = s\<lparr>workers := (workers s)[i := (In_body, d)]\<rparr>" "i < length (workers s)"
    "workers s ! i = (At_test, d)"
  with sum_list_update_nat [of i "workers s" worker_weight "(In_body, d)"] show ?thesis
    by (simp add: stop_meas_def)
qed

lemma stop_progress:
  assumes inv: "stop_inv n ok s" and "\<not> stop_final s"
  shows "\<exists>t. stop_step n ok start pass s t"
proof (cases "boss s")
  case (Creating i)
  with inv have "i \<le> n" by (simp add: stop_inv_def)
  with Creating stop_step.create [OF Creating, of n ok] stop_step.create_fail [OF Creating, of n ok]
    stop_step.created [of s n] show ?thesis
    by (cases "i = n"; cases "ok i") auto
next
  case (Joining i)
  then have i: "i \<le> n" and len: "length (workers s) = n" and st: "stopped s" and ex: "\<not> exited s"
    using inv by (auto simp: stop_inv_def exited_def)
  show ?thesis
  proof (cases "i = n")
    case True
    with Joining show ?thesis by (auto intro: stop_step.report)
  next
    case False
    with i len have il: "i < length (workers s)" by simp
    obtain pc d where w: "workers s ! i = (pc, d)" by (cases "workers s ! i")
    show ?thesis
    proof (cases pc)
      case At_test
      with w st show ?thesis by (blast intro: stop_step.leave [OF ex il])
    next
      case In_body
      with w show ?thesis by (blast intro: stop_step.body [OF ex il])
    next
      case Gone
      with w il len stop_step.join [OF Joining, of n] show ?thesis by auto
    qed
  qed
qed (use assms(2) in \<open>auto simp: stop_final_def exited_def intro: stop_step.set_stop\<close>)

interpretation stop: bounded_system stop_init "stop_step n ok start pass" stop_enter
  "stop_inv n ok" stop_final "stop_meas n" 1
  for n ok start pass
  by unfold_locales
    (rule stop_inv_init stop_inv_step stop_inv_enter stop_progress stop_meas_step
      stop_meas_enter; assumption)+

section \<open>Counting the passes\<close>

text \<open>
  \<open>es\<close> is the list of the threads that entered their body, in order. Every pass thread \<open>i\<close>
  entered was either finished, and then it is one application of the body to the thread's
  data, or the thread is still inside it.
\<close>

fun inside :: "worker_pc \<times> 'd \<Rightarrow> nat" where
  "inside (pc, d) = (if pc = In_body then 1 else 0)"

definition counted :: "(nat \<Rightarrow> 'd) \<Rightarrow> (nat \<Rightarrow> 'd \<Rightarrow> 'd) \<Rightarrow> 'd stop_state \<Rightarrow> nat list \<Rightarrow> bool" where
  "counted start pass s es \<longleftrightarrow> set es \<subseteq> {..<length (workers s)} \<and>
     (\<forall>i < length (workers s). inside (workers s ! i) \<le> count_list es i \<and>
        snd (workers s ! i) = (pass i ^^ (count_list es i - inside (workers s ! i))) (start i))"

lemma counted_step:
  assumes "counted start pass s es" and "stop_inv n ok s" and "stop_step n ok start pass s t"
  shows "counted start pass t es"
  using assms(3)
proof (cases rule: stop_step.cases)
  case (create i)
  then have "i = length (workers s)" using assms(2) by (simp add: stop_inv_def)
  moreover from this have "count_list es i = 0" using assms(1) by (auto simp: counted_def count_list_0_iff)
  ultimately show ?thesis
    using create assms(1) by (auto simp: counted_def nth_append less_Suc_eq)
next
  case (body i d)
  then have "1 \<le> count_list es i" "d = (pass i ^^ (count_list es i - 1)) (start i)"
    using assms(1) by (auto simp: counted_def)
  then have "pass i d = (pass i ^^ count_list es i) (start i)"
    by (cases "count_list es i") simp_all
  with assms(1) body show ?thesis by (auto simp: counted_def nth_list_update)
next
  case (leave i d)
  with assms(1) show ?thesis by (auto simp: counted_def nth_list_update)
qed (use assms(1) in \<open>auto simp: counted_def\<close>)

lemma counted_enter:
  assumes "counted start pass s es" and "enters i s t"
  shows "counted start pass t (es @ [i])"
  using assms(2)
proof (cases rule: enters.cases)
  case (enter d)
  then have "d = (pass i ^^ count_list es i) (start i)" using assms(1) by (auto simp: counted_def)
  with assms(1) enter show ?thesis by (auto simp: counted_def nth_list_update)
qed

lemma stop_lrun: "lrun step enters s p es t \<Longrightarrow> run step stop_enter s p (length es) t"
  unfolding stop_enter_def by (rule lrun_run)

lemma counted_run:
  "lrun (stop_step n ok start pass) enters s p es t \<Longrightarrow> stop_init s \<Longrightarrow> counted start pass t es"
proof (induction rule: lrun.induct)
  case (lrun_nil s)
  then show ?case by (simp add: counted_def stop_init_def)
next
  case (lrun_step s p es t u)
  then show ?case using counted_step stop.inv_run stop_lrun by metis
next
  case (lrun_env s p es t i u)
  then show ?case using counted_enter by blast
qed

text \<open>When main reports, no thread is inside its body any more: all passes are in the data.\<close>

lemma reported_gone:
  assumes "stop_inv n ok s" "boss s = Reported"
  shows "length (workers s) = n" "i < n \<Longrightarrow> fst (workers s ! i) = Gone"
  using assms by (auto simp: stop_inv_def)

lemma reported_counts:
  assumes "stop_init s" "lrun (stop_step n ok start pass) enters s p es t" "boss t = Reported"
  shows "map snd (workers t) = map (\<lambda>i. (pass i ^^ count_list es i) (start i)) [0..<n]"
    and "set es \<subseteq> {..<n}"
proof -
  have inv: "stop_inv n ok t" by (rule stop.inv_run [OF assms(1) stop_lrun [OF assms(2)]])
  note gone = reported_gone [OF inv assms(3)]
  have counted: "counted start pass t es" by (rule counted_run [OF assms(2,1)])
  have "snd (workers t ! i) = (pass i ^^ count_list es i) (start i)" if "i < n" for i
  proof -
    have "inside (workers t ! i) = 0" using gone(2) [OF that] by (cases "workers t ! i") simp
    then show ?thesis using counted that gone(1) by (simp add: counted_def)
  qed
  then show "map snd (workers t) = map (\<lambda>i. (pass i ^^ count_list es i) (start i)) [0..<n]"
    using gone(1) by (intro nth_equalityI) simp_all
  show "set es \<subseteq> {..<n}" using counted gone(1) by (simp add: counted_def)
qed

section \<open>A run\<close>

text \<open>One thread makes one pass: created, inside its body when the flag is set, joined.\<close>

definition one_started :: "'d stop_state" where
  "one_started = \<lparr>stopped = False, workers = [], boss = Creating 0\<rparr>"

definition one_reported :: "(nat \<Rightarrow> 'd) \<Rightarrow> (nat \<Rightarrow> 'd \<Rightarrow> 'd) \<Rightarrow> 'd stop_state" where
  "one_reported start pass =
     \<lparr>stopped = True, workers = [(Gone, pass 0 (start 0))], boss = Reported\<rparr>"

lemma one_init: "stop_init one_started"
  by (simp add: stop_init_def one_started_def)

lemma one_lrun:
  assumes "ok 0"
  shows "lrun (stop_step 1 ok start pass) enters one_started 7 [0] (one_reported start pass)"
proof -
  let ?step = "stop_step 1 ok start pass"
  let ?d = "start 0"
  have create: "?step one_started \<lparr>stopped = False, workers = [(At_test, ?d)], boss = Creating 1\<rparr>"
    using stop_step.create [of one_started 0 1 ok start pass] assms by (simp add: one_started_def)
  have created: "?step \<lparr>stopped = False, workers = [(At_test, ?d)], boss = Creating 1\<rparr>
      \<lparr>stopped = False, workers = [(At_test, ?d)], boss = Sleeping\<rparr>"
    using stop_step.created [of "\<lparr>stopped = False, workers = [(At_test, ?d)], boss = Creating 1\<rparr>" 1 ok start pass]
    by simp
  have enter: "enters 0 \<lparr>stopped = False, workers = [(At_test, ?d)], boss = Sleeping\<rparr>
      \<lparr>stopped = False, workers = [(In_body, ?d)], boss = Sleeping\<rparr>"
    using enters.enter [of "\<lparr>stopped = False, workers = [(At_test, ?d)], boss = Sleeping\<rparr>" 0 ?d]
    by (simp add: exited_def)
  have set_stop: "?step \<lparr>stopped = False, workers = [(In_body, ?d)], boss = Sleeping\<rparr>
      \<lparr>stopped = True, workers = [(In_body, ?d)], boss = Joining 0\<rparr>"
    using stop_step.set_stop [of "\<lparr>stopped = False, workers = [(In_body, ?d)], boss = Sleeping\<rparr>" 1 ok start pass]
    by simp
  have rest: "chain ?step \<lparr>stopped = True, workers = [(In_body, ?d)], boss = Joining 0\<rparr>
      [\<lparr>stopped = True, workers = [(At_test, pass 0 ?d)], boss = Joining 0\<rparr>,
       \<lparr>stopped = True, workers = [(Gone, pass 0 ?d)], boss = Joining 0\<rparr>,
       \<lparr>stopped = True, workers = [(Gone, pass 0 ?d)], boss = Joining 1\<rparr>,
       one_reported start pass]"
    using stop_step.body [of "\<lparr>stopped = True, workers = [(In_body, ?d)], boss = Joining 0\<rparr>" 0 ?d 1 ok start pass]
      stop_step.leave [of "\<lparr>stopped = True, workers = [(At_test, pass 0 ?d)], boss = Joining 0\<rparr>" 0 "pass 0 ?d" 1 ok start pass]
      stop_step.join [of "\<lparr>stopped = True, workers = [(Gone, pass 0 ?d)], boss = Joining 0\<rparr>" 0 1 ok start pass]
      stop_step.report [of "\<lparr>stopped = True, workers = [(Gone, pass 0 ?d)], boss = Joining 1\<rparr>" 1 ok start pass]
    by (simp add: exited_def one_reported_def)
  have "lrun ?step enters one_started 0 [] one_started" by (rule lrun_nil)
  then have "lrun ?step enters one_started (Suc 0) []
      \<lparr>stopped = False, workers = [(At_test, ?d)], boss = Creating 1\<rparr>"
    by (rule lrun_step) (rule create)
  then have "lrun ?step enters one_started (Suc (Suc 0)) []
      \<lparr>stopped = False, workers = [(At_test, ?d)], boss = Sleeping\<rparr>"
    by (rule lrun_step) (rule created)
  then have "lrun ?step enters one_started (Suc (Suc 0)) ([] @ [0])
      \<lparr>stopped = False, workers = [(In_body, ?d)], boss = Sleeping\<rparr>"
    by (rule lrun_env) (rule enter)
  then have "lrun ?step enters one_started (Suc (Suc (Suc 0))) ([] @ [0])
      \<lparr>stopped = True, workers = [(In_body, ?d)], boss = Joining 0\<rparr>"
    by (rule lrun_step) (rule set_stop)
  from lrun_chain [OF this rest] show ?thesis by (simp add: eval_nat_numeral)
qed

lemma one_run:
  assumes "ok 0"
  shows "run (stop_step 1 ok start pass) stop_enter one_started 7 1 (one_reported start pass)"
  using stop_lrun [OF one_lrun [of ok, OF assms]] by simp

end
