(* ===== verification/ThreadFairness.thy ===== *)
theory ThreadFairness
  imports StopFlag Sched CText
begin

text \<open>
  \<open>src/scheduling/threads/thread_fairness.c\<close>: threads that do nothing but count until main
  sets the flag. The threads and main are the machine of theory \<open>StopFlag\<close>; what main does
  before it creates them and after it joined them is here.
\<close>

section \<open>The code\<close>

definition DEFAULT_NUM_THREADS :: nat where "DEFAULT_NUM_THREADS = 4"

record thread_data =
  t_id :: int
  t_iter :: "64 word"

definition tf_start :: "nat \<Rightarrow> thread_data" where
  "tf_start i = \<lparr>t_id = int i, t_iter = 0\<rparr>"

definition tf_pass :: "nat \<Rightarrow> thread_data \<Rightarrow> thread_data" where
  "tf_pass i data = data\<lparr>t_iter := t_iter data + 1\<rparr>"

record tf_env =
  t_affinity :: int
  t_rlimit :: int
  t_malloc :: "nat \<Rightarrow> bool"

text \<open>The number of threads, with what main prints about a bad argument.\<close>

definition tf_num_threads :: "string list \<Rightarrow> out list \<times> nat" where
  "tf_num_threads args = (case args of
     [] \<Rightarrow> ([], DEFAULT_NUM_THREADS)
   | a # _ \<Rightarrow>
       if atoi a \<le> 0
       then ([Eprintf ''Invalid number of threads provided. Using default: %d'' [VI (int DEFAULT_NUM_THREADS)]],
             DEFAULT_NUM_THREADS)
       else ([], nat (atoi a)))"

text \<open>Up to the creation of the threads: the outcome if main ends early, or their number.\<close>

definition tf_setup :: "platform \<Rightarrow> tf_env \<Rightarrow> string list \<Rightarrow> outcome + (out list \<times> nat)" where
  "tf_setup pf e args = (case limit_resources pf (t_affinity e) (t_rlimit e) of
     Some m \<Rightarrow> Inl (die m)
   | None \<Rightarrow> (case tf_num_threads args of (m, n) \<Rightarrow>
       if \<not> t_malloc e (n * 8) \<or> \<not> t_malloc e (n * 16) then Inl (say_all m (die (Perror ''malloc'')))
       else Inr (m, n)))"

definition tf_report :: "thread_data list \<Rightarrow> out list" where
  "tf_report datas = Printf ''Thread Fairness Test Results (2 seconds run):'' [] #
     map (\<lambda>d. Printf ''Thread %d: %lu iterations'' [VI (t_id d), VU (t_iter d)]) datas"

text \<open>The program's outcome, when its threads and main have come to the state \<open>s\<close>.\<close>

definition tf_end :: "thread_data stop_state \<Rightarrow> outcome" where
  "tf_end s = (case boss s of
     Failed_at _ \<Rightarrow> die (Perror ''pthread_create'')
   | Reported \<Rightarrow> say_all (tf_report (map snd (workers s))) (exits 0)
   | _ \<Rightarrow> ([], Unfinished))"

definition tf_main ::
  "platform \<Rightarrow> tf_env \<Rightarrow> string list \<Rightarrow> thread_data stop_state \<Rightarrow> outcome" where
  "tf_main pf e args s = (case tf_setup pf e args of Inl r \<Rightarrow> r | Inr (m, n) \<Rightarrow> say_all m (tf_end s))"

section \<open>Lemmas\<close>

lemma tf_passes: "(tf_pass i ^^ k) (tf_start i) = \<lparr>t_id = int i, t_iter = of_nat k\<rparr>"
  by (induction k) (simp_all add: tf_start_def tf_pass_def)

lemma tf_reported:
  assumes "stop_init s" and "lrun (stop_step n ok tf_start tf_pass) enters s p es t"
    and "boss t = Reported"
  shows "tf_end t = (Printf ''Thread Fairness Test Results (2 seconds run):'' [] #
      map (\<lambda>i. Printf ''Thread %d: %lu iterations'' [VI (int i), VU (of_nat (count_list es i))]) [0..<n], Exits 0)"
  by (simp add: tf_end_def assms(3) tf_report_def reported_counts(1) [OF assms] tf_passes)

section \<open>Properties\<close>

text \<open>C26. Threads and main always come to an end: in every state they can get to, either main has
  reported (or left because a thread could not be created) or some thread can make a step,
  and the steps are at most 3 n + 3, plus one for each time a thread finds the flag clear.\<close>

theorem thread_fairness_ends:
  assumes "stop_init s" and "run (stop_step n ok tf_start tf_pass) stop_enter s p k t"
  shows "(boss t = Reported \<or> (\<exists>i<n. boss t = Failed_at i \<and> \<not> ok i) \<or>
      (\<exists>u. stop_step n ok tf_start tf_pass t u)) \<and>
    p \<le> 3 * n + 3 + k \<and>
    (\<exists>q u. run (stop_step n ok tf_start tf_pass) stop_enter t q 0 u \<and> stop_final u)"
proof -
  have inv: "stop_inv n ok t" by (rule stop.inv_run [OF assms])
  have "stop_meas n s = 3 * n + 3" using assms(1) by (simp add: stop_init_def stop_meas_def)
  then have "p \<le> 3 * n + 3 + k" using stop.run_bound [OF assms] by simp
  moreover have "boss t = Reported \<or> (\<exists>i<n. boss t = Failed_at i \<and> \<not> ok i)" if "stop_final t"
    using that inv by (auto simp: stop_final_def exited_def stop_inv_def split: boss_pc.splits)
  ultimately show ?thesis
    using stop_progress [OF inv, of tf_start tf_pass] stop.can_always_finish [OF assms] by blast
qed

text \<open>C25. When main reports, no count is lost: it prints one line per thread, in the order of
  creation, and the line of thread i shows how often thread i, and no other, has entered its
  loop body in the run (modulo 2 to the 64): es lists the threads that entered, in order.
  Main reads the counts only after all threads have ended.\<close>

theorem thread_fairness_reports:
  assumes "tf_setup pf e args = Inr (m, n)" and "stop_init s"
    and "lrun (stop_step n ok tf_start tf_pass) enters s p es t" and "boss t = Reported"
  shows "(\<forall>i<n. fst (workers t ! i) = Gone) \<and> set es \<subseteq> {..<n} \<and>
    tf_main pf e args t = (m @ Printf ''Thread Fairness Test Results (2 seconds run):'' [] #
      map (\<lambda>i. Printf ''Thread %d: %lu iterations'' [VI (int i), VU (of_nat (count_list es i))]) [0..<n], Exits 0)"
  using tf_reported [OF assms(2-4)] assms(1) reported_counts(2) [OF assms(2-4)]
    reported_gone [OF stop.inv_run [OF assms(2) stop_lrun [OF assms(3)]] assms(4)]
  by (auto simp: tf_main_def)

definition tf_demo :: tf_env where
  "tf_demo = \<lparr>t_affinity = 0, t_rlimit = 0, t_malloc = (\<lambda>_. True)\<rparr>"

lemma tf_demo_setup: "tf_setup QNX tf_demo [show_int 1] = Inr ([], 1)"
  using atoi_show_int [of 1]
  by (simp add: tf_setup_def limit_resources_def tf_num_threads_def tf_demo_def int_ok_def)

theorem thread_fairness_ends_witness:
  "run (stop_step 1 (\<lambda>_. True) tf_start tf_pass) stop_enter one_started 7 1
     (one_reported tf_start tf_pass) \<and> (7 :: nat) \<le> 3 * 1 + 3 + 1"
  using thread_fairness_ends [OF one_init one_run [of "\<lambda>_. True" tf_start tf_pass]]
    one_run [of "\<lambda>_. True" tf_start tf_pass] by simp

theorem thread_fairness_reports_witness:
  "tf_main QNX tf_demo [show_int 1] (one_reported tf_start tf_pass) =
    ([Printf ''Thread Fairness Test Results (2 seconds run):'' [],
      Printf ''Thread %d: %lu iterations'' [VI 0, VU 1]], Exits 0)"
  using thread_fairness_reports [OF tf_demo_setup one_init one_lrun [of "\<lambda>_. True" tf_start tf_pass]]
  by (auto simp: one_reported_def length_Suc_conv)

end
