(* ===== verification/SleepThreads.thy ===== *)
theory SleepThreads
  imports StopFlag SleepWake
begin

text \<open>
  \<open>src/scheduling/threads/sleep_wake_thread.c\<close>: threads that measure how late they wake,
  next to threads that only burn time, under the flag protocol of theory \<open>StopFlag\<close>; one
  sleep is the arithmetic of theory \<open>SleepWake\<close>. The code does not look at the result of
  \<open>clock_gettime\<close>, which cannot fail for this clock: every reading is a value.
\<close>

section \<open>The code\<close>

text \<open>The data of a thread: a sleeper's record (None after undefined arithmetic), a load's counter.\<close>

datatype slot = Sleeper "sleep_data option" | Loader "64 word"

record st_env =
  x_affinity :: int
  x_rlimit :: int
  x_malloc :: "nat \<Rightarrow> bool"
  x_before :: "nat \<Rightarrow> nat \<Rightarrow> timespec"
  x_after :: "nat \<Rightarrow> nat \<Rightarrow> timespec"

text \<open>Threads \<open>0, \<dots>, ns - 1\<close> are the sleepers, the rest are loads.\<close>

definition st_start :: "nat \<Rightarrow> nat \<Rightarrow> slot" where
  "st_start ns i = (if i < ns then Sleeper (Some (sleep_new i)) else Loader 0)"

definition st_pass :: "st_env \<Rightarrow> nat \<Rightarrow> slot \<Rightarrow> slot" where
  "st_pass e i x = (case x of
     Sleeper data \<Rightarrow> Sleeper (do {
       d \<leftarrow> data;
       sleep_add (x_before e i (nat (d_iter d))) (x_after e i (nat (d_iter d))) d
     })
   | Loader counter \<Rightarrow> Loader (counter + 1))"

definition st_setup :: "platform \<Rightarrow> st_env \<Rightarrow> string list \<Rightarrow> outcome + (nat \<times> nat)" where
  "st_setup pf e args = (case limit_resources pf (x_affinity e) (x_rlimit e) of
     Some m \<Rightarrow> Inl (die m)
   | None \<Rightarrow>
       let ns = num_sleepers args; nl = num_loads args in
       if \<not> x_malloc e (ns * 8) \<or> \<not> x_malloc e (ns * 24) \<or> \<not> x_malloc e (nl * 8)
       then Inl (die (Perror ''malloc''))
       else Inr (ns, nl))"

definition st_line :: "slot \<Rightarrow> out list" where
  "st_line x = (case x of
     Sleeper (Some d) \<Rightarrow>
       if 0 < d_iter d
       then [Printf ''Sleep Thread %d: %ld iterations, Average Jitter: %.2f ns''
               [VI (d_id d), VI (d_iter d), VD (avg_jitter d)]]
       else []
   | _ \<Rightarrow> [])"

definition st_end :: "nat \<Rightarrow> slot stop_state \<Rightarrow> outcome" where
  "st_end ns s = (case boss s of
     Failed_at i \<Rightarrow> die (Perror (if i < ns then ''pthread_create (sleep thread)''
                                else ''pthread_create (load thread)''))
   | Reported \<Rightarrow>
       let datas = map snd (take ns (workers s)) in
       if Sleeper None \<in> set datas then undef
       else say (Printf ''Sleep/Wake Precision Test Results (over %d seconds):'' [VI TEST_DURATION])
         (say_all (concat (map st_line datas)) (exits 0))
   | _ \<Rightarrow> ([], Unfinished))"

definition st_main ::
  "platform \<Rightarrow> st_env \<Rightarrow> string list \<Rightarrow> slot stop_state \<Rightarrow> outcome" where
  "st_main pf e args s = (case st_setup pf e args of Inl r \<Rightarrow> r | Inr (ns, nl) \<Rightarrow> st_end ns s)"

section \<open>Lemmas\<close>

lemma st_sleeper_passes:
  assumes "i < ns" and "clock_runs (x_before e i) (x_after e i) n" and "n < 2 ^ 63" and "k \<le> n"
  shows "(st_pass e i ^^ k) (st_start ns i) =
    Sleeper (Some (slept i (x_before e i) (x_after e i) k))"
  using assms(4)
proof (induction k)
  case 0
  then show ?case using assms(1) by (simp add: st_start_def slept_0)
next
  case (Suc k)
  have "clock_runs (x_before e i) (x_after e i) (Suc k)"
    using assms(2) Suc.prems by (rule clock_runs_mono)
  from sleep_add_slept [OF this, of i] Suc assms(3) show ?case
    by (simp add: st_pass_def) (simp add: slept_def)
qed

lemma st_line_slept:
  "st_line (Sleeper (Some (slept i b a k))) =
    (if k = 0 then [] else [Printf ''Sleep Thread %d: %ld iterations, Average Jitter: %.2f ns''
      [VI (int i), VI (int k), VD (avg_jitter (slept i b a k))]])"
  by (simp add: st_line_def slept_def)

lemma st_reported:
  assumes "stop_init s" and "lrun (stop_step (ns + nl) ok (st_start ns) (st_pass e)) enters s p es t"
    and "boss t = Reported"
    and "\<And>i. i < ns \<Longrightarrow> count_list es i < 2 ^ 63 \<and> clock_runs (x_before e i) (x_after e i) (count_list es i)"
  shows "st_end ns t = (Printf ''Sleep/Wake Precision Test Results (over %d seconds):'' [VI 5] #
       concat (map (\<lambda>i. if count_list es i = 0 then []
         else [Printf ''Sleep Thread %d: %ld iterations, Average Jitter: %.2f ns''
           [VI (int i), VI (int (count_list es i)),
            VD (avg_jitter (slept i (x_before e i) (x_after e i) (count_list es i)))]]) [0..<ns]), Exits 0)"
proof -
  have "map snd (take ns (workers t)) = map (\<lambda>i. (st_pass e i ^^ count_list es i) (st_start ns i)) [0..<ns]"
    unfolding take_map [symmetric] reported_counts(1) [OF assms(1-3)] by (simp add: take_map)
  also have "\<dots> = map (\<lambda>i. Sleeper (Some (slept i (x_before e i) (x_after e i) (count_list es i)))) [0..<ns]"
    by (intro map_cong [OF refl] st_sleeper_passes [OF _ _ _ order_refl]) (use assms(4) in auto)
  finally have eq: "map snd (take ns (workers t)) =
      map (\<lambda>i. Sleeper (Some (slept i (x_before e i) (x_after e i) (count_list es i)))) [0..<ns]" .
  have "map st_line (map snd (take ns (workers t))) =
      map (\<lambda>i. if count_list es i = 0 then []
       else [Printf ''Sleep Thread %d: %ld iterations, Average Jitter: %.2f ns''
         [VI (int i), VI (int (count_list es i)),
          VD (avg_jitter (slept i (x_before e i) (x_after e i) (count_list es i)))]]) [0..<ns]"
    unfolding eq by (simp add: st_line_slept)
  moreover have "Sleeper None \<notin> set (map snd (take ns (workers t)))" unfolding eq by auto
  ultimately show ?thesis by (simp add: st_end_def assms(3) Let_def TEST_DURATION_def)
qed

section \<open>Properties\<close>

text \<open>C27. When main reports, each sleeper that slept at least once has its line, in the order of
  creation, with the number of times that this sleeper entered its loop body in the run (es
  lists the threads that entered, in order) and the average of the delays of just these
  sleeps: no measurement is lost, seen half done or credited to another thread. No sum
  overflows, on a clock that never runs backwards for any sleeper.\<close>

theorem sleep_threads_report:
  assumes "st_setup pf e args = Inr (ns, nl)" and "stop_init s"
    and "lrun (stop_step (ns + nl) ok (st_start ns) (st_pass e)) enters s p es t"
    and "boss t = Reported"
    and "\<And>i. i < ns \<Longrightarrow> count_list es i < 2 ^ 63 \<and> clock_runs (x_before e i) (x_after e i) (count_list es i)"
  shows "st_main pf e args t = (Printf ''Sleep/Wake Precision Test Results (over %d seconds):'' [VI 5] #
       concat (map (\<lambda>i. if count_list es i = 0 then []
         else [Printf ''Sleep Thread %d: %ld iterations, Average Jitter: %.2f ns''
           [VI (int i), VI (int (count_list es i)),
            VD (avg_jitter (slept i (x_before e i) (x_after e i) (count_list es i)))]]) [0..<ns]), Exits 0)"
  using st_reported [OF assms(2-5)] by (simp add: st_main_def assms(1))

definition st_demo :: st_env where
  "st_demo = \<lparr>x_affinity = 0, x_rlimit = 0, x_malloc = (\<lambda>_. True),
     x_before = (\<lambda>i k. \<lparr>tv_sec = int k, tv_nsec = 5\<rparr>),
     x_after = (\<lambda>i k. \<lparr>tv_sec = int k, tv_nsec = 10000007\<rparr>)\<rparr>"

lemma st_demo_setup: "st_setup Linux st_demo [show_int 1, show_int 0] = Inr (1, 0)"
  using atoi_show_int [of 1] atoi_show_int [of 0]
  by (simp add: st_setup_def limit_resources_def num_sleepers_def num_loads_def st_demo_def int_ok_def)

theorem sleep_threads_report_witness:
  "st_main Linux st_demo [show_int 1, show_int 0] (one_reported (st_start 1) (st_pass st_demo)) =
    ([Printf ''Sleep/Wake Precision Test Results (over %d seconds):'' [VI 5],
      Printf ''Sleep Thread %d: %ld iterations, Average Jitter: %.2f ns''
        [VI 0, VI 1, VD (avg_jitter \<lparr>d_id = 0, d_jitter = 2, d_iter = 1\<rparr>)]], Exits 0)"
proof -
  have run: "lrun (stop_step (1 + 0) (\<lambda>_. True) (st_start 1) (st_pass st_demo)) enters
      one_started 7 [0] (one_reported (st_start 1) (st_pass st_demo))"
    using one_lrun [of "\<lambda>_. True" "st_start 1" "st_pass st_demo"] by simp
  have "clock_runs (x_before st_demo 0) (x_after st_demo 0) 1"
    by (simp add: clock_runs_def st_demo_def ts_ok_def NSEC_PER_SEC_def nanos_def)
  with sleep_threads_report [OF st_demo_setup one_init run] show ?thesis
    by (simp add: one_reported_def slept_def jitter_of_def st_demo_def nanos_def
        NSEC_PER_SEC_def SLEEP_INTERVAL_NS_def)
qed

end
