(* ===== verification/ThreadPingPong.thy ===== *)
theory ThreadPingPong
  imports Rounds CTime CText
begin

text \<open>
  \<open>src/scheduling/threads/thread_ctx_switch.c\<close>: main and the pong thread hand a turn to and
  fro under one mutex and two condition variables, and main reports the average time of a
  round trip. The two threads are a step relation whose steps are the calls on the mutex and
  the condition variables and the accesses to \<open>turn\<close>; \<open>N\<close> is the number of iterations.
\<close>

section \<open>The threads\<close>

datatype side = Ping | Pong

text \<open>
  Where main is in an iteration: at its lock, before it sets the turn, before its signal, at
  its test of the turn, inside the wait, woken but without the mutex, at its unlock; then
  at its join, and past it.
\<close>

datatype ping_pc = M_lock | M_set | M_signal | M_test | M_wait | M_wake | M_unlock | M_end | M_joined

datatype pong_pc = P_lock | P_test | P_wait | P_wake | P_set | P_signal | P_unlock | P_end

record pp_state =
  owner :: "side option"
  turn :: int
  m_pc :: ping_pc
  m_i :: nat
  p_pc :: pong_pc
  p_i :: nat

definition pp_start :: "nat \<Rightarrow> pp_state" where
  "pp_start N = \<lparr>owner = None, turn = 0, m_pc = (if 0 < N then M_lock else M_end), m_i = 0,
     p_pc = (if 0 < N then P_lock else P_end), p_i = 0\<rparr>"

definition pp_init :: "nat \<Rightarrow> pp_state \<Rightarrow> bool" where
  "pp_init N s \<longleftrightarrow> s = pp_start N"

text \<open>A wait gives up the mutex and blocks in one step; a signal moves a waiter on.\<close>

inductive pp_step :: "nat \<Rightarrow> pp_state \<Rightarrow> pp_state \<Rightarrow> bool" for N where
  m_lock: "m_pc s = M_lock \<Longrightarrow> owner s = None \<Longrightarrow>
    pp_step N s (s\<lparr>owner := Some Ping, m_pc := M_set\<rparr>)"
| m_set: "m_pc s = M_set \<Longrightarrow> pp_step N s (s\<lparr>turn := 1, m_pc := M_signal\<rparr>)"
| m_signal: "m_pc s = M_signal \<Longrightarrow>
    pp_step N s (s\<lparr>m_pc := M_test, p_pc := (if p_pc s = P_wait then P_wake else p_pc s)\<rparr>)"
| m_wait: "m_pc s = M_test \<Longrightarrow> turn s \<noteq> 0 \<Longrightarrow> pp_step N s (s\<lparr>owner := None, m_pc := M_wait\<rparr>)"
| m_rewake: "m_pc s = M_wake \<Longrightarrow> owner s = None \<Longrightarrow>
    pp_step N s (s\<lparr>owner := Some Ping, m_pc := M_test\<rparr>)"
| m_go: "m_pc s = M_test \<Longrightarrow> turn s = 0 \<Longrightarrow> pp_step N s (s\<lparr>m_pc := M_unlock\<rparr>)"
| m_unlock: "m_pc s = M_unlock \<Longrightarrow>
    pp_step N s (s\<lparr>owner := None, m_i := Suc (m_i s), m_pc := (if Suc (m_i s) < N then M_lock else M_end)\<rparr>)"
| m_join: "m_pc s = M_end \<Longrightarrow> p_pc s = P_end \<Longrightarrow> pp_step N s (s\<lparr>m_pc := M_joined\<rparr>)"
| p_lock: "p_pc s = P_lock \<Longrightarrow> owner s = None \<Longrightarrow>
    pp_step N s (s\<lparr>owner := Some Pong, p_pc := P_test\<rparr>)"
| p_wait: "p_pc s = P_test \<Longrightarrow> turn s \<noteq> 1 \<Longrightarrow> pp_step N s (s\<lparr>owner := None, p_pc := P_wait\<rparr>)"
| p_rewake: "p_pc s = P_wake \<Longrightarrow> owner s = None \<Longrightarrow>
    pp_step N s (s\<lparr>owner := Some Pong, p_pc := P_test\<rparr>)"
| p_go: "p_pc s = P_test \<Longrightarrow> turn s = 1 \<Longrightarrow> pp_step N s (s\<lparr>p_pc := P_set\<rparr>)"
| p_set: "p_pc s = P_set \<Longrightarrow> pp_step N s (s\<lparr>turn := 0, p_pc := P_signal\<rparr>)"
| p_signal: "p_pc s = P_signal \<Longrightarrow>
    pp_step N s (s\<lparr>p_pc := P_unlock, m_pc := (if m_pc s = M_wait then M_wake else m_pc s)\<rparr>)"
| p_unlock: "p_pc s = P_unlock \<Longrightarrow>
    pp_step N s (s\<lparr>owner := None, p_i := Suc (p_i s), p_pc := (if Suc (p_i s) < N then P_lock else P_end)\<rparr>)"

text \<open>A condition variable may wake its waiter without a signal.\<close>

inductive pp_spurious :: "pp_state \<Rightarrow> pp_state \<Rightarrow> bool" where
  spurious_ping: "m_pc s = M_wait \<Longrightarrow> pp_spurious s (s\<lparr>m_pc := M_wake\<rparr>)"
| spurious_pong: "p_pc s = P_wait \<Longrightarrow> pp_spurious s (s\<lparr>p_pc := P_wake\<rparr>)"

section \<open>Invariant and measure\<close>

definition m_holds :: "ping_pc \<Rightarrow> bool" where
  "m_holds c \<longleftrightarrow> c \<in> {M_set, M_signal, M_test, M_unlock}"

definition p_holds :: "pong_pc \<Rightarrow> bool" where
  "p_holds c \<longleftrightarrow> c \<in> {P_test, P_set, P_signal, P_unlock}"

text \<open>How often main has set the turn to 1, and pong to 0.\<close>

definition pings :: "pp_state \<Rightarrow> nat" where
  "pings s = m_i s + (if m_pc s \<in> {M_signal, M_test, M_wait, M_wake, M_unlock} then 1 else 0)"

definition pongs :: "pp_state \<Rightarrow> nat" where
  "pongs s = p_i s + (if p_pc s \<in> {P_signal, P_unlock} then 1 else 0)"

definition pp_inv :: "nat \<Rightarrow> pp_state \<Rightarrow> bool" where
  "pp_inv N s \<longleftrightarrow>
     (owner s = Some Ping \<longleftrightarrow> m_holds (m_pc s)) \<and> (owner s = Some Pong \<longleftrightarrow> p_holds (p_pc s)) \<and>
     (turn s = 0 \<and> pings s = pongs s \<or> turn s = 1 \<and> pings s = Suc (pongs s)) \<and>
     (m_pc s \<in> {M_lock, M_set, M_unlock, M_end, M_joined} \<longrightarrow> turn s = 0) \<and>
     (m_pc s = M_signal \<longrightarrow> turn s = 1) \<and>
     (p_pc s = P_set \<longrightarrow> turn s = 1) \<and> (p_pc s \<in> {P_signal, P_unlock} \<longrightarrow> turn s = 0) \<and>
     (m_pc s = M_wait \<and> turn s = 0 \<longrightarrow> p_pc s = P_signal) \<and>
     (p_pc s = P_wait \<and> turn s = 1 \<longrightarrow> m_pc s = M_signal) \<and>
     m_i s \<le> N \<and> (m_i s = N \<longleftrightarrow> m_pc s \<in> {M_end, M_joined}) \<and>
     p_i s \<le> N \<and> (p_i s = N \<longleftrightarrow> p_pc s = P_end) \<and>
     (m_pc s = M_joined \<longrightarrow> p_pc s = P_end)"

definition pp_final :: "pp_state \<Rightarrow> bool" where
  "pp_final s \<longleftrightarrow> m_pc s = M_joined"

text \<open>What is left to do in an iteration; a wake-up with the wrong turn has the wait before it again.\<close>

fun m_weight :: "int \<Rightarrow> ping_pc \<Rightarrow> nat" where
  "m_weight t M_lock = 9"
| "m_weight t M_set = 8"
| "m_weight t M_signal = 7"
| "m_weight t M_test = (if t = 0 then 3 else 6)"
| "m_weight t M_wait = 5"
| "m_weight t M_wake = (if t = 0 then 4 else 7)"
| "m_weight t M_unlock = 2"
| "m_weight t M_end = 1"
| "m_weight t M_joined = 0"

fun p_weight :: "int \<Rightarrow> pong_pc \<Rightarrow> nat" where
  "p_weight t P_lock = 9"
| "p_weight t P_test = (if t = 1 then 4 else 7)"
| "p_weight t P_wait = 6"
| "p_weight t P_wake = (if t = 1 then 5 else 8)"
| "p_weight t P_set = 3"
| "p_weight t P_signal = 2"
| "p_weight t P_unlock = 1"
| "p_weight t P_end = 0"

definition pp_meas :: "nat \<Rightarrow> pp_state \<Rightarrow> nat" where
  "pp_meas N s = 9 * (N - Suc (m_i s)) + m_weight (turn s) (m_pc s) +
     9 * (N - Suc (p_i s)) + p_weight (turn s) (p_pc s)"

lemmas pp_defs = pp_inv_def m_holds_def p_holds_def pings_def pongs_def

lemma pp_inv_init: "pp_init N s \<Longrightarrow> pp_inv N s"
  by (auto simp: pp_init_def pp_start_def pp_defs)

text \<open>A step of one side, with the other side's place in its code.\<close>

lemma pp_inv_step:
  assumes inv: "pp_inv N s" and step: "pp_step N s t"
  shows "pp_inv N t"
  using step
proof (cases rule: pp_step.cases)
  case m_lock
  with inv show ?thesis by (cases "p_pc s"; simp add: pp_defs)
next
  case m_set
  with inv show ?thesis by (cases "p_pc s"; simp add: pp_defs)
next
  case m_signal
  with inv show ?thesis by (cases "p_pc s"; simp add: pp_defs)
next
  case m_wait
  with inv show ?thesis by (cases "p_pc s"; simp add: pp_defs)
next
  case m_rewake
  with inv show ?thesis by (cases "turn s = 0"; cases "p_pc s"; simp add: pp_defs)
next
  case m_go
  with inv show ?thesis by (cases "p_pc s"; simp add: pp_defs)
next
  case m_unlock
  have "Suc (m_i s) \<le> N" using inv m_unlock(2) by (simp add: pp_defs)
  then show ?thesis using inv m_unlock by (cases "p_pc s"; cases "Suc (m_i s) = N"; simp add: pp_defs)
next
  case m_join
  with inv show ?thesis by (simp add: pp_defs)
next
  case p_lock
  with inv show ?thesis by (cases "m_pc s"; simp add: pp_defs)
next
  case p_wait
  with inv show ?thesis by (cases "m_pc s"; simp add: pp_defs)
next
  case p_rewake
  with inv show ?thesis by (cases "m_pc s"; simp add: pp_defs)
next
  case p_go
  with inv show ?thesis by (cases "m_pc s"; simp add: pp_defs)
next
  case p_set
  with inv show ?thesis by (cases "m_pc s"; simp add: pp_defs)
next
  case p_signal
  with inv show ?thesis by (cases "m_pc s"; simp add: pp_defs)
next
  case p_unlock
  have "Suc (p_i s) \<le> N" using inv p_unlock(2) by (simp add: pp_defs)
  then show ?thesis using inv p_unlock by (cases "m_pc s"; cases "Suc (p_i s) = N"; simp add: pp_defs)
qed

lemma pp_inv_spurious:
  assumes inv: "pp_inv N s" and step: "pp_spurious s t"
  shows "pp_inv N t"
  using step
proof (cases rule: pp_spurious.cases)
  case spurious_ping
  with inv show ?thesis by (cases "turn s = 0"; cases "p_pc s"; simp add: pp_defs)
next
  case spurious_pong
  with inv show ?thesis by (cases "turn s = 0"; cases "m_pc s"; simp add: pp_defs)
qed

text \<open>The parts of the invariant, one by one.\<close>

lemma pp_inv_parts:
  assumes "pp_inv N s"
  shows pp_owner_ping: "owner s = Some Ping \<longleftrightarrow> m_holds (m_pc s)"
    and pp_owner_pong: "owner s = Some Pong \<longleftrightarrow> p_holds (p_pc s)"
    and pp_turn: "turn s = 0 \<and> pings s = pongs s \<or> turn s = 1 \<and> pings s = Suc (pongs s)"
    and pp_turn_ping: "m_pc s \<in> {M_lock, M_set, M_unlock, M_end, M_joined} \<Longrightarrow> turn s = 0"
    and pp_turn_signal: "m_pc s = M_signal \<Longrightarrow> turn s = 1"
    and pp_turn_pong: "p_pc s \<in> {P_signal, P_unlock} \<Longrightarrow> turn s = 0"
    and pp_wait_ping: "m_pc s = M_wait \<Longrightarrow> turn s = 0 \<Longrightarrow> p_pc s = P_signal"
    and pp_wait_pong: "p_pc s = P_wait \<Longrightarrow> turn s = 1 \<Longrightarrow> m_pc s = M_signal"
    and pp_left_ping: "m_i s \<le> N" "m_i s = N \<longleftrightarrow> m_pc s \<in> {M_end, M_joined}"
    and pp_left_pong: "p_i s \<le> N" "p_i s = N \<longleftrightarrow> p_pc s = P_end"
    and pp_joined: "m_pc s = M_joined \<Longrightarrow> p_pc s = P_end"
  using assms unfolding pp_inv_def by blast+

lemma pp_meas_step:
  assumes inv: "pp_inv N s" and step: "pp_step N s t"
  shows "pp_meas N t < pp_meas N s"
  using step
proof (cases rule: pp_step.cases)
  case m_set
  have "turn s = 0" using pp_turn_ping [OF inv] m_set(2) by simp
  then have "p_weight 1 (p_pc s) \<le> p_weight (turn s) (p_pc s)" by (cases "p_pc s") auto
  then show ?thesis by (simp add: pp_meas_def m_set)
next
  case m_signal
  have "turn s = 1" using pp_turn_signal [OF inv] m_signal(2) by simp
  then show ?thesis by (auto simp: pp_meas_def m_signal)
next
  case m_unlock
  have "turn s = 0" "m_i s < N"
    using pp_turn_ping [OF inv] pp_left_ping [OF inv] m_unlock(2) by simp_all
  then show ?thesis by (auto simp: pp_meas_def m_unlock)
next
  case p_set
  have "m_weight 0 (m_pc s) \<le> m_weight (turn s) (m_pc s)" by (cases "m_pc s") auto
  then show ?thesis by (simp add: pp_meas_def p_set)
next
  case p_signal
  have "turn s = 0" using pp_turn_pong [OF inv] p_signal(2) by simp
  then show ?thesis by (auto simp: pp_meas_def p_signal)
next
  case p_unlock
  have "p_i s < N" using pp_left_pong [OF inv] p_unlock(2) by simp
  then show ?thesis by (auto simp: pp_meas_def p_unlock)
qed (simp_all add: pp_meas_def)

lemma pp_meas_spurious: "pp_spurious s t \<Longrightarrow> pp_meas N t \<le> pp_meas N s + 2"
  by (erule pp_spurious.cases) (auto simp: pp_meas_def)

text \<open>
  Nobody waits for ever: a side that waits while it is its turn is about to be signalled,
  and the side that has the turn is never at its end.
\<close>

lemma pp_holder_moves:
  "m_holds (m_pc s) \<Longrightarrow> \<exists>t. pp_step N s t" "p_holds (p_pc s) \<Longrightarrow> \<exists>t. pp_step N s t"
  unfolding m_holds_def p_holds_def
  using pp_step.m_go [of s N] pp_step.m_wait [of s N] pp_step.p_go [of s N] pp_step.p_wait [of s N]
  by (blast intro: pp_step.intros)+

lemma pp_both_wait:
  assumes inv: "pp_inv N s" and "m_pc s \<in> {M_wait, M_end}" "p_pc s \<in> {P_wait, P_end}"
  shows "m_pc s = M_end \<and> p_pc s = P_end"
proof (cases "turn s = 0")
  case True
  then have "m_pc s = M_end" using pp_wait_ping [OF inv] assms(2,3) by auto
  moreover have "p_pc s \<noteq> P_wait"
    using pp_turn [OF inv] pp_left_ping [OF inv] pp_left_pong [OF inv] calculation True
    by (auto simp: pings_def pongs_def)
  ultimately show ?thesis using assms(3) by simp
next
  case False
  then have "turn s = 1" "m_pc s = M_wait"
    using pp_turn [OF inv] pp_turn_ping [OF inv] assms(2) by auto
  moreover from this have "p_pc s = P_end" using pp_wait_pong [OF inv] assms(3) by auto
  ultimately show ?thesis
    using pp_turn [OF inv] pp_left_ping [OF inv] pp_left_pong [OF inv]
    by (auto simp: pings_def pongs_def)
qed

lemma pp_progress:
  assumes inv: "pp_inv N s" and nf: "\<not> pp_final s"
  shows "\<exists>t. pp_step N s t"
proof (cases "owner s")
  case (Some x)
  then show ?thesis
    using pp_owner_ping [OF inv] pp_owner_pong [OF inv] by (cases x) (auto intro: pp_holder_moves)
next
  case None
  have none: "\<not> m_holds (m_pc s)" "\<not> p_holds (p_pc s)"
    using pp_owner_ping [OF inv] pp_owner_pong [OF inv] None by simp_all
  show ?thesis
  proof (cases "m_pc s \<in> {M_lock, M_wake} \<or> p_pc s \<in> {P_lock, P_wake}")
    case True
    with None show ?thesis by (auto intro: pp_step.intros)
  next
    case False
    then have "m_pc s \<in> {M_wait, M_end}"
      using none nf by (cases "m_pc s") (auto simp: m_holds_def pp_final_def)
    moreover have "p_pc s \<in> {P_wait, P_end}"
      using none False by (cases "p_pc s") (auto simp: p_holds_def)
    ultimately have "m_pc s = M_end \<and> p_pc s = P_end" by (rule pp_both_wait [OF inv])
    then show ?thesis by (auto intro: pp_step.m_join)
  qed
qed

interpretation pp: bounded_system "pp_init N" "pp_step N" pp_spurious "pp_inv N" pp_final "pp_meas N" 2
  for N
  by unfold_locales
    (rule pp_inv_init pp_inv_step pp_inv_spurious pp_progress pp_meas_step pp_meas_spurious; assumption)+

section \<open>The rounds\<close>

text \<open>A round is answered when pong has set the turn back, and completed when main has seen it.\<close>

definition pp_rounds :: "pp_state \<Rightarrow> rounds" where
  "pp_rounds s = \<lparr>answered = pongs s, completed = m_i s + (if m_pc s = M_unlock then 1 else 0)\<rparr>"

lemma pp_rounds_step:
  assumes "pp_inv N s" and "pp_step N s t"
  shows "pp_rounds t = pp_rounds s \<or> round_step N (pp_rounds s) (pp_rounds t)"
  using assms(2)
proof (cases rule: pp_step.cases)
  case m_go
  then show ?thesis
    using pp_turn [OF assms(1)] by (auto simp: pp_rounds_def round_step_iff pings_def pongs_def)
next
  case p_set
  have "turn s = 1" using assms(1) p_set(2) unfolding pp_inv_def by blast
  then have "m_pc s \<notin> {M_lock, M_set, M_unlock, M_end, M_joined}"
    using pp_turn_ping [OF assms(1)] by auto
  moreover have "pings s = Suc (pongs s)" using pp_turn [OF assms(1)] \<open>turn s = 1\<close> by auto
  moreover have "p_i s < N" using pp_left_pong [OF assms(1)] p_set(2) by auto
  ultimately show ?thesis
    using p_set by (cases "m_pc s"; simp add: pp_rounds_def round_step_iff pings_def pongs_def)
qed (auto simp: pp_rounds_def pongs_def)

interpretation ppr: round_trips "pp_init N" "pp_step N" pp_spurious "pp_inv N" pp_rounds N
  for N
proof
  fix s t
  show "pp_init N s \<Longrightarrow> no_rounds (pp_rounds s)"
    by (auto simp: pp_init_def pp_start_def no_rounds_def pp_rounds_def pongs_def)
  show "pp_inv N s \<Longrightarrow> pp_step N s t \<Longrightarrow> pp_rounds t = pp_rounds s \<or> round_step N (pp_rounds s) (pp_rounds t)"
    by (rule pp_rounds_step)
  show "pp_inv N s \<Longrightarrow> pp_spurious s t \<Longrightarrow> pp_rounds t = pp_rounds s"
    by (erule pp_spurious.cases) (auto simp: pp_rounds_def pongs_def)
qed

section \<open>The program\<close>

definition ITERATIONS_DEFAULT :: nat where "ITERATIONS_DEFAULT = 100000"

definition pp_iterations :: "string list \<Rightarrow> nat" where
  "pp_iterations args = (case args of [] \<Rightarrow> ITERATIONS_DEFAULT
     | a # _ \<Rightarrow> if atoi a \<le> 0 then ITERATIONS_DEFAULT else nat (atoi a))"

text \<open>\<open>total_ns / iterations / 1000.0\<close>, and the other doubles of the report.\<close>

definition pp_avg_rt_us :: "int \<Rightarrow> nat \<Rightarrow> rat" where
  "pp_avg_rt_us total_ns n = rnd64 (rnd64 (rnd64 (of_int total_ns) / rnd64 (of_nat n)) / 1000)"

definition micros_fmt :: "string \<Rightarrow> string" where
  "micros_fmt s = s @ [CHR 0xC2, CHR 0xB5, CHR ''s'']"

definition pp_report :: "nat \<Rightarrow> int \<Rightarrow> out list" where
  "pp_report n total_ns =
     [Printf ''Iterations:        %d'' [VI (int n)],
      Printf ''Total time:        %.3f ms'' [VD (rnd64 (rnd64 (of_int total_ns) / 1000000))],
      Printf (micros_fmt ''Avg round-trip:    %.3f '') [VD (pp_avg_rt_us total_ns n)],
      Printf (micros_fmt ''Est. one-way cost: %.3f '') [VD (rnd64 (pp_avg_rt_us total_ns n / 2))]]"

record pp_env =
  pp_create :: int
  pp_begin :: timespec
  pp_finish :: timespec

text \<open>The outcome when the threads have come to the state \<open>s\<close>.\<close>

definition pp_main :: "pp_env \<Rightarrow> string list \<Rightarrow> pp_state \<Rightarrow> outcome" where
  "pp_main e args s =
     (if pp_create e \<noteq> 0 then die (Perror ''pthread_create'')
      else if m_pc s \<noteq> M_joined then ([], Unfinished)
      else case timespec_diff_ns (pp_finish e) (pp_begin e) of
        None \<Rightarrow> undef
      | Some total_ns \<Rightarrow> say_all (pp_report (pp_iterations args) total_ns) (exits 0))"

section \<open>Properties\<close>

text \<open>C15. Mutual exclusion and alternation: in every state the two threads can get to, whatever the
  scheduling and the spurious wake-ups, at most one of them is between its lock and its
  unlock, and the turn is exactly the number of times main has given it away minus the
  number of times pong has given it back, which is 0 or 1: neither side ever overtakes.\<close>

theorem ping_pong_alternates:
  assumes "pp_init N s" and "run (pp_step N) pp_spurious s p e t"
  shows "\<not> (m_holds (m_pc t) \<and> p_holds (p_pc t)) \<and>
    turn t = int (pings t) - int (pongs t) \<and> turn t \<in> {0, 1}"
proof -
  have inv: "pp_inv N t" by (rule pp.inv_run [OF assms])
  then show ?thesis
    using pp_owner_ping [OF inv] pp_owner_pong [OF inv] pp_turn [OF inv] by auto
qed

text \<open>C1. No wake-up is lost: as long as main has not joined pong some thread can make a step, so
  the program cannot hang (it does not need the pause that main makes after creating pong);
  its steps are at most 18 per iteration and two more for every spurious wake-up; and when
  main has joined pong, both sides have made all their iterations.\<close>

theorem ping_pong_finishes:
  assumes "pp_init N s" and "run (pp_step N) pp_spurious s p e t"
  shows "(m_pc t = M_joined \<or> (\<exists>u. pp_step N t u)) \<and> p \<le> 18 * N + 2 * e + 1 \<and>
    (m_pc t = M_joined \<longrightarrow> m_i t = N \<and> p_i t = N \<and> p_pc t = P_end \<and> owner t = None) \<and>
    (\<exists>q u. run (pp_step N) pp_spurious t q 0 u \<and> m_pc u = M_joined)"
proof -
  have inv: "pp_inv N t" by (rule pp.inv_run [OF assms])
  have "pp_meas N s \<le> 18 * N + 1"
    using assms(1) by (auto simp: pp_init_def pp_start_def pp_meas_def)
  then have "p \<le> 18 * N + 2 * e + 1" using pp.run_bound [OF assms] by simp
  moreover have "m_i t = N \<and> p_i t = N \<and> p_pc t = P_end \<and> owner t = None" if "m_pc t = M_joined"
    using that pp_left_ping [OF inv] pp_left_pong [OF inv] pp_joined [OF inv]
      pp_owner_ping [OF inv] pp_owner_pong [OF inv]
    by (cases "owner t"; simp add: m_holds_def p_holds_def) (metis side.exhaust)
  moreover have "m_pc t = M_joined \<or> (\<exists>u. pp_step N t u)"
    using pp_progress [OF inv] by (auto simp: pp_final_def)
  ultimately show ?thesis
    using pp.can_always_finish [OF assms] by (simp add: pp_final_def)
qed

text \<open>A run of one iteration: main waits before pong has taken the mutex for the first time.\<close>

definition pp_done :: pp_state where
  "pp_done = \<lparr>owner = None, turn = 0, m_pc = M_joined, m_i = 1, p_pc = P_end, p_i = 1\<rparr>"

lemma pp_done_run: "run (pp_step 1) pp_spurious (pp_start 1) 13 0 pp_done"
proof -
  have "chain (pp_step 1) (pp_start 1)
    [\<lparr>owner = Some Ping, turn = 0, m_pc = M_set, m_i = 0, p_pc = P_lock, p_i = 0\<rparr>,
     \<lparr>owner = Some Ping, turn = 1, m_pc = M_signal, m_i = 0, p_pc = P_lock, p_i = 0\<rparr>,
     \<lparr>owner = Some Ping, turn = 1, m_pc = M_test, m_i = 0, p_pc = P_lock, p_i = 0\<rparr>,
     \<lparr>owner = None, turn = 1, m_pc = M_wait, m_i = 0, p_pc = P_lock, p_i = 0\<rparr>,
     \<lparr>owner = Some Pong, turn = 1, m_pc = M_wait, m_i = 0, p_pc = P_test, p_i = 0\<rparr>,
     \<lparr>owner = Some Pong, turn = 1, m_pc = M_wait, m_i = 0, p_pc = P_set, p_i = 0\<rparr>,
     \<lparr>owner = Some Pong, turn = 0, m_pc = M_wait, m_i = 0, p_pc = P_signal, p_i = 0\<rparr>,
     \<lparr>owner = Some Pong, turn = 0, m_pc = M_wake, m_i = 0, p_pc = P_unlock, p_i = 0\<rparr>,
     \<lparr>owner = None, turn = 0, m_pc = M_wake, m_i = 0, p_pc = P_end, p_i = 1\<rparr>,
     \<lparr>owner = Some Ping, turn = 0, m_pc = M_test, m_i = 0, p_pc = P_end, p_i = 1\<rparr>,
     \<lparr>owner = Some Ping, turn = 0, m_pc = M_unlock, m_i = 0, p_pc = P_end, p_i = 1\<rparr>,
     \<lparr>owner = None, turn = 0, m_pc = M_end, m_i = 1, p_pc = P_end, p_i = 1\<rparr>,
     pp_done]"
    by (simp add: pp_step.simps pp_start_def pp_done_def)
  from chain_run [OF this, of pp_spurious] show ?thesis by (simp add: eval_nat_numeral)
qed

theorem ping_pong_alternates_witness:
  "\<not> (m_holds (m_pc pp_done) \<and> p_holds (p_pc pp_done)) \<and>
    turn pp_done = int (pings pp_done) - int (pongs pp_done) \<and> turn pp_done \<in> {0, 1}"
  by (rule ping_pong_alternates [OF _ pp_done_run]) (simp add: pp_init_def)

theorem ping_pong_finishes_witness:
  "m_i pp_done = 1 \<and> p_i pp_done = 1 \<and> (13 :: nat) \<le> 18 * 1 + 2 * 0 + 1"
  using ping_pong_finishes [OF _ pp_done_run] by (simp add: pp_init_def pp_done_def)

text \<open>What is reported: with the threads at their end, main prints the iterations asked for
  (100000 where the argument is missing or not positive), the exact number of nanoseconds
  between its two readings in milliseconds, and the averages of a round trip; the sum over
  the iterations is divided by a number that is never 0.\<close>

theorem ping_pong_reports:
  assumes "pp_create e = 0" and "m_pc s = M_joined" and "ts_ok (pp_begin e)" and "ts_ok (pp_finish e)"
  shows "pp_main e args s = (pp_report (pp_iterations args) (nanos (pp_finish e) - nanos (pp_begin e)), Exits 0) \<and>
    0 < pp_iterations args"
  using assms by (simp add: pp_main_def timespec_diff_ns_eq pp_iterations_def ITERATIONS_DEFAULT_def
      split: list.split)

theorem ping_pong_reports_witness:
  "pp_main \<lparr>pp_create = 0, pp_begin = \<lparr>tv_sec = 4, tv_nsec = 999999999\<rparr>, pp_finish = \<lparr>tv_sec = 5, tv_nsec = 1999\<rparr>\<rparr>
     [show_int 1] pp_done = (pp_report 1 2000, Exits 0)"
proof -
  have "pp_iterations [show_int 1] = 1"
    using atoi_show_int [of 1] by (simp add: pp_iterations_def int_ok_def)
  then show ?thesis
    using ping_pong_reports [of "\<lparr>pp_create = 0, pp_begin = \<lparr>tv_sec = 4, tv_nsec = 999999999\<rparr>,
        pp_finish = \<lparr>tv_sec = 5, tv_nsec = 1999\<rparr>\<rparr>" pp_done "[show_int 1]"]
    by (simp add: pp_done_def ts_ok_def nanos_def NSEC_PER_SEC_def)
qed

end
