(* ===== verification/ProcPingPong.thy ===== *)
theory ProcPingPong
  imports Rounds CTime CText
begin

text \<open>
  \<open>src/scheduling/process/process_ctx_switch.c\<close>: a parent and a child send one byte to and
  fro through two pipes, and the parent reports the average time of a round trip. The two
  processes are a step relation over the bytes in the pipes; \<open>N\<close> is the number of passes
  of both loops. Each process has closed the ends it does not use before its first call, so
  a pipe has lost its reader or writer exactly when the process at that end is gone.
\<close>

section \<open>The processes\<close>

text \<open>How a process ends: with status 0, with status 1 after a message, or by SIGPIPE.\<close>

datatype proc_end = Done | Died string | Sigpipe

datatype parent_pc = A_begin | A_write | A_read | A_stop | A_wait | A_exit proc_end

datatype child_pc = C_read | C_write | C_exit proc_end

record cs_state =
  p2c :: "8 word list"
  c2p :: "8 word list"
  a_pc :: parent_pc
  a_i :: nat
  a_buf :: "8 word"
  c_pc :: child_pc
  c_i :: nat
  c_buf :: "8 word"

text \<open>What a pipe holds at least before a write of one byte has to wait (POSIX).\<close>

definition PIPE_CAP :: nat where "PIPE_CAP = 512"

definition cs_init :: "nat \<Rightarrow> cs_state \<Rightarrow> bool" where
  "cs_init N s \<longleftrightarrow> p2c s = [] \<and> c2p s = [] \<and> a_pc s = A_begin \<and> a_i s = 0 \<and> a_buf s = 0 \<and>
     c_pc s = (if 0 < N then C_read else C_exit Done) \<and> c_i s = 0"

fun parent_gone :: "parent_pc \<Rightarrow> bool" where
  "parent_gone (A_exit c) = True"
| "parent_gone _ = False"

fun child_gone :: "child_pc \<Rightarrow> bool" where
  "child_gone (C_exit c) = True"
| "child_gone _ = False"

inductive cs_step :: "nat \<Rightarrow> cs_state \<Rightarrow> cs_state \<Rightarrow> bool" for N where
  a_start: "a_pc s = A_begin \<Longrightarrow> cs_step N s (s\<lparr>a_pc := (if 0 < N then A_write else A_stop)\<rparr>)"
| a_write: "a_pc s = A_write \<Longrightarrow> \<not> child_gone (c_pc s) \<Longrightarrow> length (p2c s) < PIPE_CAP \<Longrightarrow>
    cs_step N s (s\<lparr>p2c := p2c s @ [a_buf s], a_pc := A_read\<rparr>)"
| a_sigpipe: "a_pc s = A_write \<Longrightarrow> child_gone (c_pc s) \<Longrightarrow> cs_step N s (s\<lparr>a_pc := A_exit Sigpipe\<rparr>)"
| a_read: "a_pc s = A_read \<Longrightarrow> c2p s = b # bs \<Longrightarrow>
    cs_step N s (s\<lparr>c2p := bs, a_buf := b, a_i := Suc (a_i s),
      a_pc := (if Suc (a_i s) < N then A_write else A_stop)\<rparr>)"
| a_eof: "a_pc s = A_read \<Longrightarrow> c2p s = [] \<Longrightarrow> child_gone (c_pc s) \<Longrightarrow>
    cs_step N s (s\<lparr>a_pc := A_exit (Died ''parent read'')\<rparr>)"
| a_stop: "a_pc s = A_stop \<Longrightarrow> cs_step N s (s\<lparr>a_pc := A_wait\<rparr>)"
| a_wait: "a_pc s = A_wait \<Longrightarrow> child_gone (c_pc s) \<Longrightarrow> cs_step N s (s\<lparr>a_pc := A_exit Done\<rparr>)"
| c_read: "c_pc s = C_read \<Longrightarrow> p2c s = b # bs \<Longrightarrow>
    cs_step N s (s\<lparr>p2c := bs, c_buf := b, c_pc := C_write\<rparr>)"
| c_eof: "c_pc s = C_read \<Longrightarrow> p2c s = [] \<Longrightarrow> parent_gone (a_pc s) \<Longrightarrow>
    cs_step N s (s\<lparr>c_pc := C_exit (Died ''child read'')\<rparr>)"
| c_write: "c_pc s = C_write \<Longrightarrow> \<not> parent_gone (a_pc s) \<Longrightarrow> length (c2p s) < PIPE_CAP \<Longrightarrow>
    cs_step N s (s\<lparr>c2p := c2p s @ [c_buf s], c_i := Suc (c_i s),
      c_pc := (if Suc (c_i s) < N then C_read else C_exit Done)\<rparr>)"
| c_sigpipe: "c_pc s = C_write \<Longrightarrow> parent_gone (a_pc s) \<Longrightarrow> cs_step N s (s\<lparr>c_pc := C_exit Sigpipe\<rparr>)"

text \<open>Any call may also fail for a reason of its own; the process then exits with 1.\<close>

fun a_call :: "parent_pc \<Rightarrow> string" where
  "a_call A_write = ''parent write''"
| "a_call A_read = ''parent read''"
| "a_call c = ''clock_gettime''"

fun c_call :: "child_pc \<Rightarrow> string" where
  "c_call C_write = ''child write''"
| "c_call c = ''child read''"

inductive cs_fault :: "cs_state \<Rightarrow> cs_state \<Rightarrow> bool" where
  a_fault: "a_pc s \<in> {A_begin, A_write, A_read, A_stop} \<Longrightarrow> 
    cs_fault s (s\<lparr>a_pc := A_exit (Died (a_call (a_pc s)))\<rparr>)"
| c_fault: "c_pc s \<in> {C_read, C_write} \<Longrightarrow> 
    cs_fault s (s\<lparr>c_pc := C_exit (Died (c_call (c_pc s)))\<rparr>)"

section \<open>Invariant and measure\<close>

definition flying :: "cs_state \<Rightarrow> nat" where
  "flying s = length (p2c s) + (if c_pc s = C_write then 1 else 0) + length (c2p s)"

definition cs_inv :: "nat \<Rightarrow> cs_state \<Rightarrow> bool" where
  "cs_inv N s \<longleftrightarrow>
     flying s \<le> 1 \<and> c_i s = a_i s + length (c2p s) \<and> c_i s \<le> N \<and>
     (a_pc s \<in> {A_begin, A_write, A_stop, A_wait} \<longrightarrow> flying s = 0) \<and>
     (a_pc s = A_read \<and> \<not> child_gone (c_pc s) \<longrightarrow> flying s = 1) \<and>
     (a_pc s \<in> {A_write, A_read} \<longrightarrow> a_i s < N) \<and>
     (a_pc s = A_begin \<longrightarrow> a_i s = 0) \<and>
     (a_pc s \<in> {A_stop, A_wait, A_exit Done} \<longrightarrow> a_i s = N) \<and>
     (c_i s = N \<longleftrightarrow> c_pc s = C_exit Done) \<and>
     (a_pc s = A_exit Done \<longrightarrow> child_gone (c_pc s)) \<and>
     set (p2c s) \<subseteq> {0} \<and> set (c2p s) \<subseteq> {0} \<and> a_buf s = 0 \<and> (c_pc s = C_write \<longrightarrow> c_buf s = 0)"

definition cs_final :: "cs_state \<Rightarrow> bool" where
  "cs_final s \<longleftrightarrow> parent_gone (a_pc s) \<and> child_gone (c_pc s)"

fun a_weight :: "nat \<Rightarrow> parent_pc \<Rightarrow> nat" where
  "a_weight l A_begin = 2 * l + 3"
| "a_weight l A_write = 2 * l + 2"
| "a_weight l A_read = 2 * l + 1"
| "a_weight l A_stop = 2"
| "a_weight l A_wait = 1"
| "a_weight l (A_exit c) = 0"

fun c_weight :: "nat \<Rightarrow> child_pc \<Rightarrow> nat" where
  "c_weight l C_read = 2 * l"
| "c_weight l C_write = 2 * l - 1"
| "c_weight l (C_exit c) = 0"

definition cs_meas :: "nat \<Rightarrow> cs_state \<Rightarrow> nat" where
  "cs_meas N s = a_weight (N - a_i s) (a_pc s) + c_weight (N - c_i s) (c_pc s)"

lemmas cs_defs = cs_inv_def flying_def

lemma cs_inv_init: "cs_init N s \<Longrightarrow> cs_inv N s"
  by (auto simp: cs_init_def cs_defs)

lemma cs_inv_step:
  assumes inv: "cs_inv N s" and step: "cs_step N s t"
  shows "cs_inv N t"
  using step
proof (cases rule: cs_step.cases)
  case a_start
  with inv show ?thesis by (cases "c_pc s"; simp add: cs_defs)
next
  case a_write
  with inv show ?thesis by (cases "c_pc s"; simp add: cs_defs)
next
  case a_sigpipe
  with inv show ?thesis by (cases "c_pc s"; auto simp: cs_defs)
next
  case (a_read b bs)
  with inv show ?thesis by (cases "c_pc s"; simp add: cs_defs) auto
next
  case a_eof
  with inv show ?thesis by (cases "c_pc s"; auto simp: cs_defs)
next
  case a_stop
  with inv show ?thesis by (cases "c_pc s"; auto simp: cs_defs)
next
  case a_wait
  with inv show ?thesis by (cases "c_pc s"; auto simp: cs_defs)
next
  case (c_read b bs)
  with inv show ?thesis by (cases "a_pc s"; simp add: cs_defs)
next
  case c_eof
  with inv show ?thesis by (cases "a_pc s"; simp add: cs_defs)
next
  case c_write
  with inv show ?thesis by (cases "a_pc s"; auto simp: cs_defs)
next
  case c_sigpipe
  with inv show ?thesis by (cases "a_pc s"; simp add: cs_defs)
qed


lemma cs_inv_fault:
  assumes inv: "cs_inv N s" and step: "cs_fault s t"
  shows "cs_inv N t"
  using step
proof (cases rule: cs_fault.cases)
  case a_fault
  with inv show ?thesis by (cases "c_pc s"; auto simp: cs_defs)
next
  case c_fault
  with inv show ?thesis by (cases "a_pc s"; auto simp: cs_defs)
qed

lemma cs_inv_left:
  assumes "cs_inv N s"
  shows "a_pc s \<in> {A_write, A_read} \<Longrightarrow> a_i s < N" and "\<not> child_gone (c_pc s) \<Longrightarrow> c_i s < N"
proof -
  show "a_pc s \<in> {A_write, A_read} \<Longrightarrow> a_i s < N"
    using assms unfolding cs_inv_def by blast
  have "c_i s \<le> N" "c_i s = N \<longleftrightarrow> c_pc s = C_exit Done"
    using assms unfolding cs_inv_def by blast+
  then show "\<not> child_gone (c_pc s) \<Longrightarrow> c_i s < N" by (cases "c_pc s") auto
qed

lemma cs_meas_step:
  assumes inv: "cs_inv N s" and step: "cs_step N s t"
  shows "cs_meas N t < cs_meas N s"
  using step
proof (cases rule: cs_step.cases)
  case (a_read b bs)
  with cs_inv_left(1) [OF inv] show ?thesis by (auto simp: cs_meas_def)
next
  case (c_read b bs)
  with cs_inv_left(2) [OF inv] show ?thesis by (auto simp: cs_meas_def)
next
  case c_write
  with cs_inv_left(2) [OF inv] show ?thesis by (auto simp: cs_meas_def)
next
  case c_eof
  with cs_inv_left(2) [OF inv] show ?thesis by (auto simp: cs_meas_def)
next
  case c_sigpipe
  with cs_inv_left(2) [OF inv] show ?thesis by (auto simp: cs_meas_def)
next
  case a_start
  with inv show ?thesis by (auto simp: cs_meas_def cs_inv_def)
qed (auto simp: cs_meas_def)

lemma cs_meas_fault: "cs_fault s t \<Longrightarrow> cs_meas N t \<le> cs_meas N s + 0"
  by (erule cs_fault.cases) (auto simp: cs_meas_def)

text \<open>
  While the parent waits for a byte and the child is there, the byte is in one of the
  pipes or in the child's hands: one of them can move.
\<close>

lemma cs_progress:
  assumes inv: "cs_inv N s" and nf: "\<not> cs_final s"
  shows "\<exists>t. cs_step N s t"
proof (cases "p2c s")
  case (Cons b bs)
  with inv have fl: "flying s = 1" "c2p s = []" "c_pc s \<noteq> C_write" by (auto simp: cs_defs)
  show ?thesis
  proof (cases "c_pc s")
    case C_read
    with Cons show ?thesis by (blast intro: cs_step.c_read)
  next
    case (C_exit c)
    with nf have "\<not> parent_gone (a_pc s)" by (simp add: cs_final_def)
    with inv fl have "a_pc s = A_read" by (cases "a_pc s") (auto simp: cs_inv_def)
    with fl C_exit show ?thesis using cs_step.a_eof [of s N] by auto
  qed (use fl in simp)
next
  case Nil
  have cap: "length (p2c s) < PIPE_CAP" "length (c2p s) < PIPE_CAP"
    using inv by (auto simp: cs_defs PIPE_CAP_def)
  show ?thesis
  proof (cases "c_pc s")
    case C_write
    with cap show ?thesis
      by (cases "parent_gone (a_pc s)") (blast intro: cs_step.c_write cs_step.c_sigpipe)+
  next
    case C_read
    show ?thesis
    proof (cases "a_pc s")
      case A_read
      with inv Nil C_read have "length (c2p s) = 1" by (simp add: cs_defs)
      then obtain b bs where "c2p s = b # bs" by (cases "c2p s") auto
      with A_read show ?thesis by (blast intro: cs_step.a_read)
    next
      case A_wait
      with inv Nil C_read have False by (auto simp: cs_defs)
      then show ?thesis ..
    next
      case (A_exit c)
      with Nil C_read show ?thesis using cs_step.c_eof [of s N] by auto
    next
      case A_write
      with C_read cap show ?thesis using cs_step.a_write [of s N] by auto
    qed (blast intro: cs_step.a_start cs_step.a_stop)+
  next
    case (C_exit c)
    then have gone: "child_gone (c_pc s)" by simp
    show ?thesis
    proof (cases "a_pc s")
      case A_read
      with gone show ?thesis by (cases "c2p s") (blast intro: cs_step.a_read cs_step.a_eof)+
    qed (use gone nf in \<open>auto simp: cs_final_def intro: cs_step.intros\<close>)
  qed
qed

interpretation cs: bounded_system "cs_init N" "cs_step N" cs_fault "cs_inv N" cs_final "cs_meas N" 0
  for N
  by unfold_locales
    (rule cs_inv_init cs_inv_step cs_inv_fault cs_progress cs_meas_step cs_meas_fault; assumption)+

section \<open>The rounds\<close>

text \<open>A round is answered when the child has written, and completed when the parent has read.\<close>

definition cs_rounds :: "cs_state \<Rightarrow> rounds" where
  "cs_rounds s = \<lparr>answered = c_i s, completed = a_i s\<rparr>"

lemma cs_rounds_step:
  assumes "cs_inv N s" and "cs_step N s t"
  shows "cs_rounds t = cs_rounds s \<or> round_step N (cs_rounds s) (cs_rounds t)"
  using assms(2)
proof (cases rule: cs_step.cases)
  case c_write
  then have "c2p s = []" "c_i s < N" using assms(1) by (auto simp: cs_defs)
  with c_write assms(1) show ?thesis by (simp add: cs_rounds_def round_step_iff cs_inv_def)
next
  case (a_read b bs)
  with assms(1) show ?thesis by (simp add: cs_rounds_def round_step_iff cs_inv_def)
qed (simp_all add: cs_rounds_def)

interpretation csr: round_trips "cs_init N" "cs_step N" cs_fault "cs_inv N" cs_rounds N
  for N
proof
  fix s t
  show "cs_init N s \<Longrightarrow> no_rounds (cs_rounds s)" by (simp add: cs_init_def no_rounds_def cs_rounds_def)
  show "cs_inv N s \<Longrightarrow> cs_step N s t \<Longrightarrow> cs_rounds t = cs_rounds s \<or> round_step N (cs_rounds s) (cs_rounds t)"
    by (rule cs_rounds_step)
  show "cs_inv N s \<Longrightarrow> cs_fault s t \<Longrightarrow> cs_rounds t = cs_rounds s"
    by (erule cs_fault.cases) (simp_all add: cs_rounds_def)
qed

section \<open>The program\<close>

text \<open>\<open>atoi\<close> of the argument as it is; the loops make no pass where it is not positive.\<close>

definition cs_iterations :: "string list \<Rightarrow> int" where
  "cs_iterations args = (case args of [] \<Rightarrow> 100000 | a # _ \<Rightarrow> atoi a)"

definition usec_fmt :: "string \<Rightarrow> string" where
  "usec_fmt s = s @ [CHR 0xC2, CHR 0xB5, CHR ''s'']"

definition cs_report :: "int \<Rightarrow> int \<Rightarrow> out list" where
  "cs_report iterations total_ns =
     (let avg_roundtrip_ns = fdiv (rnd64 (of_int total_ns)) (rnd64 (of_int iterations)) in
      [Printf ''Iterations: %d'' [VI iterations],
       Printf ''Total time: %.3f ms'' [VD (rnd64 (rnd64 (of_int total_ns) / 1000000))],
       Printf (usec_fmt ''Avg round-trip latency: %.3f '') [VX (over avg_roundtrip_ns 1000)],
       Printf (usec_fmt ''Est. one-way context switch:  %.3f '')
         [VX (over (over avg_roundtrip_ns 2) 1000)]])"

record cs_env =
  k_pipes :: "int \<times> int"
  k_fork :: int
  k_start :: timespec
  k_end :: timespec

text \<open>
  The outcome on standard output when the processes have come to the state \<open>s\<close>: the report
  precedes the \<open>wait\<close>.
\<close>

definition cs_main :: "cs_env \<Rightarrow> string list \<Rightarrow> cs_state \<Rightarrow> outcome" where
  "cs_main e args s =
     (if fst (k_pipes e) = - 1 \<or> snd (k_pipes e) = - 1 then die (Perror ''pipe'')
      else if k_fork e < 0 then die (Perror ''fork'')
      else case a_pc s of
        A_exit r \<Rightarrow> (case r of
          Died m \<Rightarrow> die (Perror m)
        | Sigpipe \<Rightarrow> ([], Killed)
        | Done \<Rightarrow>
          (case timespec_diff_ns (k_end e) (k_start e) of
             None \<Rightarrow> undef
           | Some total_ns \<Rightarrow> say_all (cs_report (cs_iterations args) total_ns) (exits 0)))
      | _ \<Rightarrow> ([], Unfinished))"

section \<open>Runs without faults\<close>

definition cs_clean :: "cs_state \<Rightarrow> bool" where
  "cs_clean s \<longleftrightarrow> (\<forall>r. a_pc s = A_exit r \<or> c_pc s = C_exit r \<longrightarrow> r = Done)"

lemma cs_inv_counts:
  assumes "cs_inv N s"
  shows "c_i s = a_i s + length (c2p s)" "c_i s \<le> N" "c_i s = N \<longleftrightarrow> c_pc s = C_exit Done"
    "a_pc s \<in> {A_stop, A_wait, A_exit Done} \<Longrightarrow> a_i s = N"
    "a_pc s = A_write \<Longrightarrow> c2p s = []"
  using assms unfolding cs_inv_def flying_def by (blast | simp)+

lemma cs_clean_step:
  assumes inv: "cs_inv N s" and clean: "cs_clean s" and step: "cs_step N s t"
  shows "cs_clean t"
  using step
proof (cases rule: cs_step.cases)
  case a_sigpipe
  then have "c_pc s = C_exit Done" using clean by (cases "c_pc s") (auto simp: cs_clean_def)
  with cs_inv_counts [OF inv] cs_inv_left(1) [OF inv] a_sigpipe show ?thesis by auto
next
  case a_eof
  then have "c_pc s = C_exit Done" using clean by (cases "c_pc s") (auto simp: cs_clean_def)
  with cs_inv_counts [OF inv] cs_inv_left(1) [OF inv] a_eof show ?thesis by auto
next
  case c_eof
  then have "a_pc s = A_exit Done" using clean by (cases "a_pc s") (auto simp: cs_clean_def)
  with cs_inv_counts [OF inv] cs_inv_left(2) [OF inv] c_eof show ?thesis by auto
next
  case c_sigpipe
  then have "a_pc s = A_exit Done" using clean by (cases "a_pc s") (auto simp: cs_clean_def)
  with cs_inv_counts [OF inv] cs_inv_left(2) [OF inv] c_sigpipe show ?thesis by auto
qed (use clean in \<open>auto simp: cs_clean_def\<close>)

lemma cs_clean_run:
  assumes "run (cs_step N) cs_fault s p 0 t" and "cs_init N s"
  shows "cs_clean t"
proof -
  have "run (cs_step N) cs_fault s p e t \<Longrightarrow> e = 0 \<longrightarrow> cs_init N s \<longrightarrow> cs_clean t" for e
  proof (induction rule: run.induct)
    case (run_nil s)
    then show ?case by (auto simp: cs_clean_def cs_init_def)
  next
    case (run_step s p e t u)
    then show ?case using cs.inv_run cs_clean_step by metis
  qed simp
  with assms show ?thesis by blast
qed

section \<open>Properties\<close>

text \<open>C16. Whatever fails and whenever, at most one byte is on its way at any time, it is the zero
  byte main started with, the child has answered exactly as often as the parent has read
  plus what is still in the pipe, and when the parent has reported and ended with status 0,
  both have made all their passes and the child has ended with status 0.\<close>

theorem pipe_ping_pong_invariant:
  assumes "cs_init N s" and "run (cs_step N) cs_fault s p e t"
  shows "flying t \<le> 1 \<and> set (p2c t) \<subseteq> {0} \<and> set (c2p t) \<subseteq> {0} \<and> a_buf t = 0 \<and>
    c_i t = a_i t + length (c2p t) \<and>
    (a_pc t = A_exit Done \<longrightarrow> a_i t = N \<and> c_i t = N \<and> c_pc t = C_exit Done)"
proof -
  have inv: "cs_inv N t" by (rule cs.inv_run [OF assms])
  note counts = cs_inv_counts [OF inv]
  have "a_i t = N \<and> c_i t = N \<and> c_pc t = C_exit Done" if "a_pc t = A_exit Done"
    using counts that by auto
  with counts(1) inv show ?thesis unfolding cs_inv_def by blast
qed

text \<open>C3. The benchmark never hangs, even if one side fails in the middle: as long as one process
  is left, one of them can make a step (a lost partner is noticed by end of file or by
  SIGPIPE), the steps are at most 4 N + 3, and without faults both end with status 0.\<close>

theorem pipe_ping_pong_ends:
  assumes "cs_init N s" and "run (cs_step N) cs_fault s p e t"
  shows "(parent_gone (a_pc t) \<and> child_gone (c_pc t) \<or> (\<exists>u. cs_step N t u)) \<and> p \<le> 4 * N + 3 \<and>
    (\<exists>q u. run (cs_step N) cs_fault t q 0 u \<and> parent_gone (a_pc u) \<and> child_gone (c_pc u)) \<and>
    (e = 0 \<and> parent_gone (a_pc t) \<longrightarrow> a_pc t = A_exit Done \<and> c_pc t = C_exit Done)"
proof -
  have inv: "cs_inv N t" by (rule cs.inv_run [OF assms])
  have "cs_meas N s \<le> 4 * N + 3" using assms(1) by (auto simp: cs_init_def cs_meas_def)
  then have "p \<le> 4 * N + 3" using cs.run_bound [OF assms] by simp
  moreover have "a_pc t = A_exit Done \<and> c_pc t = C_exit Done" if "e = 0" "parent_gone (a_pc t)"
  proof -
    have "a_pc t = A_exit Done"
      using cs_clean_run [of N s p t] assms that by (cases "a_pc t") (auto simp: cs_clean_def)
    with cs_inv_counts [OF inv] show ?thesis by auto
  qed
  ultimately show ?thesis
    using cs_progress [OF inv] cs.can_always_finish [OF assms] unfolding cs_final_def by blast
qed

definition cs_at :: "8 word list \<Rightarrow> 8 word list \<Rightarrow> parent_pc \<Rightarrow> nat \<Rightarrow> child_pc \<Rightarrow> nat \<Rightarrow> cs_state" where
  "cs_at p c a i b j = \<lparr>p2c = p, c2p = c, a_pc = a, a_i = i, a_buf = 0, c_pc = b, c_i = j, c_buf = 0\<rparr>"

lemma cs_demo_run:
  "run (cs_step 1) cs_fault (cs_at [] [] A_begin 0 C_read 0) 7 0
     (cs_at [] [] (A_exit Done) 1 (C_exit Done) 1)"
proof -
  have "chain (cs_step 1) (cs_at [] [] A_begin 0 C_read 0)
    [cs_at [] [] A_write 0 C_read 0, cs_at [0] [] A_read 0 C_read 0, cs_at [] [] A_read 0 C_write 0,
     cs_at [] [0] A_read 0 (C_exit Done) 1, cs_at [] [] A_stop 1 (C_exit Done) 1,
     cs_at [] [] A_wait 1 (C_exit Done) 1, cs_at [] [] (A_exit Done) 1 (C_exit Done) 1]"
    by (simp add: cs_step.simps cs_at_def PIPE_CAP_def)
  from chain_run [OF this, of cs_fault] show ?thesis by (simp add: eval_nat_numeral)
qed

lemma cs_demo_init: "cs_init 1 (cs_at [] [] A_begin 0 C_read 0)"
  by (simp add: cs_init_def cs_at_def)

theorem pipe_ping_pong_invariant_witness:
  "c_i (cs_at [] [] (A_exit Done) 1 (C_exit Done) 1) = 1 \<and> flying (cs_at [] [] (A_exit Done) 1 (C_exit Done) 1) \<le> 1"
  using pipe_ping_pong_invariant [OF cs_demo_init cs_demo_run] by (simp add: cs_at_def)

theorem pipe_ping_pong_ends_witness:
  "a_pc (cs_at [] [] (A_exit Done) 1 (C_exit Done) 1) = A_exit Done \<and> (7 :: nat) \<le> 4 * 1 + 3"
  using pipe_ping_pong_ends [OF cs_demo_init cs_demo_run] by (simp add: cs_at_def)

text \<open>What is reported: the iterations as given, the exact elapsed nanoseconds in
  milliseconds, and the quotient. An argument that is not a number, or 0, is not replaced by
  the default: no pass is made and the averages are infinite, or not a number where no
  time went by.\<close>

theorem pipe_ping_pong_reports:
  assumes "fst (k_pipes e) \<noteq> - 1" and "snd (k_pipes e) \<noteq> - 1" and "0 \<le> k_fork e"
    and "a_pc s = A_exit Done" and "ts_ok (k_start e)" and "ts_ok (k_end e)"
  shows "cs_main e args s = (cs_report (cs_iterations args) (nanos (k_end e) - nanos (k_start e)), Exits 0) \<and>
    (cs_iterations args = 0 \<and> nanos (k_start e) < nanos (k_end e) \<longrightarrow>
      Printf (usec_fmt ''Avg round-trip latency: %.3f '') [VX (Infinite False)] \<in> set (fst (cs_main e args s)))"
proof -
  define d where "d = nanos (k_end e) - nanos (k_start e)"
  have main: "cs_main e args s = (cs_report (cs_iterations args) d, Exits 0)"
    using assms by (simp add: cs_main_def timespec_diff_ns_eq d_def)
  moreover have "Printf (usec_fmt ''Avg round-trip latency: %.3f '') [VX (Infinite False)] \<in> set (cs_report 0 d)"
    if "0 < d"
  proof -
    have "of_int 1 \<le> rnd64 (of_int d)" by (rule ieee.rnd_ge_int) (use that in auto)
    moreover have "rnd64 (of_int 0) = 0" by (subst ieee.rnd_int) auto
    ultimately show ?thesis by (simp add: cs_report_def fdiv_def Let_def)
  qed
  ultimately show ?thesis by (simp add: d_def)
qed

theorem pipe_ping_pong_reports_witness:
  "Printf (usec_fmt ''Avg round-trip latency: %.3f '') [VX (Infinite False)] \<in>
    set (fst (cs_main \<lparr>k_pipes = (0, 0), k_fork = 7, k_start = \<lparr>tv_sec = 1, tv_nsec = 0\<rparr>,
      k_end = \<lparr>tv_sec = 1, tv_nsec = 500\<rparr>\<rparr> [show_int 0] (cs_at [] [] (A_exit Done) 0 (C_exit Done) 0)))"
proof -
  have "cs_iterations [show_int 0] = 0"
    using atoi_show_int [of 0] by (simp add: cs_iterations_def int_ok_def)
  then show ?thesis
    by (intro pipe_ping_pong_reports [THEN conjunct2, THEN mp])
      (simp_all add: cs_at_def ts_ok_def nanos_def NSEC_PER_SEC_def)
qed

end
