(* ===== verification/MqEcho.thy ===== *)
theory MqEcho
  imports Rounds CTime Sched
begin

text \<open>
  \<open>src/ipc/ipc_mq_latency.c\<close>: a parent sends a message of 64 bytes to a child through one
  POSIX message queue, the child sends it back through another, and the parent reports the
  largest round-trip time. The two processes are a step relation over the messages in the
  queues; \<open>N\<close> is the number of passes of both loops (\<open>ITERATIONS\<close> in the code). The running
  maximum is shared with \<open>src/ipc/ipc_latency.c\<close>.
\<close>

section \<open>The largest latency\<close>

definition MQ_ITERATIONS :: nat where "MQ_ITERATIONS = 10000"

record latency_env =
  l_start :: "nat \<Rightarrow> timespec"
  l_end :: "nat \<Rightarrow> timespec"

text \<open>\<open>max_latency\<close> after the first \<open>n\<close> round trips.\<close>

primrec max_latency :: "latency_env \<Rightarrow> nat \<Rightarrow> int option" where
  "max_latency e 0 = Some 0"
| "max_latency e (Suc n) = do {
     m \<leftarrow> max_latency e n;
     latency \<leftarrow> timespec_diff_ns (l_end e n) (l_start e n);
     Some (if m < latency then latency else m)
   }"

lemma max_latency_eq:
  assumes "\<And>i. i < n \<Longrightarrow> ts_ok (l_start e i) \<and> ts_ok (l_end e i)"
  shows "max_latency e n = Some (run_max (\<lambda>i. nanos (l_end e i) - nanos (l_start e i)) n)"
  using assms by (induction n) (auto simp: timespec_diff_ns_eq run_max_Suc)

section \<open>The processes\<close>

type_synonym msg = "char list"

datatype sender_pc = Q_send | Q_recv | Q_after | Q_wait | Q_done

datatype echo_pc = E_recv | E_send | E_exit | E_failed | E_killed

text \<open>\<open>q_out\<close>, \<open>e_out\<close>: what parent and child have printed about a failing call.\<close>

record mq_state =
  to_c :: "msg list"
  to_p :: "msg list"
  q_pc :: sender_pc
  q_i :: nat
  q_buf :: msg
  q_out :: "out list"
  e_pc :: echo_pc
  e_i :: nat
  e_buf :: msg
  e_out :: "out list"

definition MQ_MAXMSG :: nat where "MQ_MAXMSG = 10"

text \<open>\<open>memset(buf, 'M', MSG_SIZE - 1); buf[MSG_SIZE - 1] = '\0'\<close>\<close>

definition mq_msg :: msg where
  "mq_msg = replicate 63 CHR ''M'' @ [CHR 0x00]"

definition mq_init :: "nat \<Rightarrow> mq_state \<Rightarrow> bool" where
  "mq_init N s \<longleftrightarrow> to_c s = [] \<and> to_p s = [] \<and> q_pc s = (if 0 < N then Q_send else Q_after) \<and>
     q_i s = 0 \<and> q_buf s = mq_msg \<and> q_out s = [] \<and>
     e_pc s = (if 0 < N then E_recv else E_exit) \<and> e_i s = 0 \<and> e_out s = []"

fun echo_ended :: "echo_pc \<Rightarrow> bool" where
  "echo_ended E_exit = True"
| "echo_ended E_failed = True"
| "echo_ended E_killed = True"
| "echo_ended _ = False"

inductive mq_step :: "nat \<Rightarrow> mq_state \<Rightarrow> mq_state \<Rightarrow> bool" for N where
  q_send: "q_pc s = Q_send \<Longrightarrow> length (to_c s) < MQ_MAXMSG \<Longrightarrow>
    mq_step N s (s\<lparr>to_c := to_c s @ [q_buf s], q_pc := Q_recv\<rparr>)"
| q_recv: "q_pc s = Q_recv \<Longrightarrow> to_p s = m # ms \<Longrightarrow>
    mq_step N s (s\<lparr>to_p := ms, q_buf := m, q_i := Suc (q_i s),
      q_pc := (if Suc (q_i s) < N then Q_send else Q_after)\<rparr>)"
| q_kill: "q_pc s = Q_after \<Longrightarrow>
    mq_step N s (s\<lparr>q_pc := Q_wait, e_pc := (if echo_ended (e_pc s) then e_pc s else E_killed)\<rparr>)"
| q_wait: "q_pc s = Q_wait \<Longrightarrow> echo_ended (e_pc s) \<Longrightarrow> mq_step N s (s\<lparr>q_pc := Q_done\<rparr>)"
| e_recv: "e_pc s = E_recv \<Longrightarrow> to_c s = m # ms \<Longrightarrow>
    mq_step N s (s\<lparr>to_c := ms, e_buf := m, e_pc := E_send\<rparr>)"
| e_send: "e_pc s = E_send \<Longrightarrow> length (to_p s) < MQ_MAXMSG \<Longrightarrow>
    mq_step N s (s\<lparr>to_p := to_p s @ [e_buf s], e_i := Suc (e_i s),
      e_pc := (if Suc (e_i s) < N then E_recv else E_exit)\<rparr>)"

text \<open>A call of the parent fails: it prints and leaves its loop.\<close>

inductive mq_fault :: "mq_state \<Rightarrow> mq_state \<Rightarrow> bool" where
  q_send_fault: "q_pc s = Q_send \<Longrightarrow>
    mq_fault s (s\<lparr>q_pc := Q_after, q_out := [Perror ''Parent mq_send'']\<rparr>)"
| q_recv_fault: "q_pc s = Q_recv \<Longrightarrow>
    mq_fault s (s\<lparr>q_pc := Q_after, q_out := [Perror ''Parent mq_receive'']\<rparr>)"

text \<open>A call of the child fails: it prints and exits; the message it holds is lost.\<close>

inductive mq_child_fault :: "mq_state \<Rightarrow> mq_state \<Rightarrow> bool" where
  e_recv_fault: "e_pc s = E_recv \<Longrightarrow>
    mq_child_fault s (s\<lparr>e_pc := E_failed, e_out := [Perror ''Child mq_receive'']\<rparr>)"
| e_send_fault: "e_pc s = E_send \<Longrightarrow>
    mq_child_fault s (s\<lparr>e_pc := E_failed, e_out := [Perror ''Child mq_send'']\<rparr>)"

definition mq_any_fault :: "mq_state \<Rightarrow> mq_state \<Rightarrow> bool" where
  "mq_any_fault s t \<longleftrightarrow> mq_fault s t \<or> mq_child_fault s t"

section \<open>Invariant and measure\<close>

definition in_flight :: "mq_state \<Rightarrow> nat" where
  "in_flight s = length (to_c s) + (if e_pc s = E_send then 1 else 0) + length (to_p s)"

definition mq_inv :: "nat \<Rightarrow> mq_state \<Rightarrow> bool" where
  "mq_inv N s \<longleftrightarrow>
     in_flight s \<le> 1 \<and> e_i s = q_i s + length (to_p s) \<and> e_i s \<le> N \<and>
     (q_pc s = Q_send \<longrightarrow> in_flight s = 0) \<and>
     (q_pc s = Q_recv \<and> e_pc s \<noteq> E_failed \<longrightarrow> in_flight s = 1) \<and>
     (q_pc s \<in> {Q_send, Q_recv} \<longrightarrow> q_i s < N \<and> q_out s = []) \<and>
     (q_out s = [] \<and> q_pc s \<in> {Q_after, Q_wait, Q_done} \<longrightarrow> q_i s = N) \<and>
     (e_i s = N \<longleftrightarrow> e_pc s = E_exit) \<and>
     (e_pc s = E_killed \<longrightarrow> q_pc s \<in> {Q_wait, Q_done}) \<and>
     (q_pc s \<in> {Q_wait, Q_done} \<longrightarrow> echo_ended (e_pc s)) \<and>
     set (to_c s) \<subseteq> {mq_msg} \<and> set (to_p s) \<subseteq> {mq_msg} \<and> q_buf s = mq_msg \<and>
     (e_pc s = E_send \<longrightarrow> e_buf s = mq_msg) \<and> (e_out s = [] \<longleftrightarrow> e_pc s \<noteq> E_failed)"

definition mq_final :: "mq_state \<Rightarrow> bool" where
  "mq_final s \<longleftrightarrow> q_pc s = Q_done"

fun q_weight :: "nat \<Rightarrow> sender_pc \<Rightarrow> nat" where
  "q_weight l Q_send = 2 * l + 2"
| "q_weight l Q_recv = 2 * l + 1"
| "q_weight l Q_after = 2"
| "q_weight l Q_wait = 1"
| "q_weight l Q_done = 0"

fun e_weight :: "nat \<Rightarrow> echo_pc \<Rightarrow> nat" where
  "e_weight l E_recv = 2 * l"
| "e_weight l E_send = 2 * l - 1"
| "e_weight l E_exit = 0"
| "e_weight l E_failed = 0"
| "e_weight l E_killed = 0"

definition mq_meas :: "nat \<Rightarrow> mq_state \<Rightarrow> nat" where
  "mq_meas N s = q_weight (N - q_i s) (q_pc s) + e_weight (N - e_i s) (e_pc s)"

lemmas mq_defs = mq_inv_def in_flight_def

lemma mq_inv_parts:
  assumes "mq_inv N s"
  shows "in_flight s \<le> 1" "e_i s = q_i s + length (to_p s)" "e_i s \<le> N"
    "q_pc s = Q_send \<Longrightarrow> in_flight s = 0"
    "q_pc s = Q_recv \<Longrightarrow> e_pc s \<noteq> E_failed \<Longrightarrow> in_flight s = 1"
    "q_pc s \<in> {Q_send, Q_recv} \<Longrightarrow> q_i s < N \<and> q_out s = []"
    "q_out s = [] \<Longrightarrow> q_pc s \<in> {Q_after, Q_wait, Q_done} \<Longrightarrow> q_i s = N"
    "e_i s = N \<longleftrightarrow> e_pc s = E_exit" "e_pc s = E_killed \<Longrightarrow> q_pc s \<in> {Q_wait, Q_done}"
    "q_pc s \<in> {Q_wait, Q_done} \<Longrightarrow> echo_ended (e_pc s)"
    "set (to_c s) \<subseteq> {mq_msg}" "set (to_p s) \<subseteq> {mq_msg}" "q_buf s = mq_msg"
    "e_out s = [] \<longleftrightarrow> e_pc s \<noteq> E_failed"
  using assms unfolding mq_inv_def by blast+

lemma mq_inv_init: "mq_init N s \<Longrightarrow> mq_inv N s"
  by (auto simp: mq_init_def mq_defs)

lemma mq_inv_step:
  assumes inv: "mq_inv N s" and step: "mq_step N s t"
  shows "mq_inv N t"
  using step
proof (cases rule: mq_step.cases)
  case q_send
  with inv show ?thesis by (cases "e_pc s"; simp add: mq_defs)
next
  case (q_recv m ms)
  with inv show ?thesis by (cases "e_pc s"; auto simp: mq_defs)
next
  case q_kill
  with inv show ?thesis by (cases "e_pc s"; auto simp: mq_defs)
next
  case q_wait
  with inv show ?thesis by (cases "e_pc s"; simp add: mq_defs)
next
  case (e_recv m ms)
  with inv show ?thesis by (cases "q_pc s"; auto simp: mq_defs)
next
  case e_send
  with inv show ?thesis by (cases "q_pc s"; auto simp: mq_defs)
qed

lemma mq_inv_fault:
  assumes inv: "mq_inv N s" and step: "mq_fault s t"
  shows "mq_inv N t"
  using step
proof (cases rule: mq_fault.cases)
  case q_send_fault
  with inv show ?thesis by (cases "e_pc s"; auto simp: mq_defs)
next
  case q_recv_fault
  with inv show ?thesis by (cases "e_pc s"; auto simp: mq_defs)
qed

lemma mq_inv_child_fault:
  assumes inv: "mq_inv N s" and step: "mq_child_fault s t"
  shows "mq_inv N t"
  using step
proof (cases rule: mq_child_fault.cases)
  case e_recv_fault
  with inv show ?thesis by (cases "q_pc s"; auto simp: mq_defs)
next
  case e_send_fault
  with inv show ?thesis by (cases "q_pc s"; auto simp: mq_defs)
qed

lemma mq_inv_any: "mq_inv N s \<Longrightarrow> mq_any_fault s t \<Longrightarrow> mq_inv N t"
  using mq_inv_fault mq_inv_child_fault unfolding mq_any_fault_def by blast

text \<open>While no call of the child has failed.\<close>

definition mq_good :: "nat \<Rightarrow> mq_state \<Rightarrow> bool" where
  "mq_good N s \<longleftrightarrow> mq_inv N s \<and> e_pc s \<noteq> E_failed"

lemma echo_failed_step: "mq_step N s t \<Longrightarrow> e_pc t = E_failed \<longleftrightarrow> e_pc s = E_failed"
  by (cases rule: mq_step.cases, assumption) auto

lemma echo_failed_fault: "mq_fault s t \<Longrightarrow> e_pc t = e_pc s"
  by (erule mq_fault.cases) simp_all

lemma mq_good_init: "mq_init N s \<Longrightarrow> mq_good N s"
  using mq_inv_init [of N s] by (simp add: mq_good_def mq_init_def)

lemma mq_good_step: "mq_good N s \<Longrightarrow> mq_step N s t \<Longrightarrow> mq_good N t"
  using mq_inv_step [of N s t] echo_failed_step [of N s t] by (simp add: mq_good_def)

lemma mq_good_fault: "mq_good N s \<Longrightarrow> mq_fault s t \<Longrightarrow> mq_good N t"
  using mq_inv_fault [of N s t] echo_failed_fault [of s t] by (simp add: mq_good_def)

lemma mq_echo_left: "mq_inv N s \<Longrightarrow> e_pc s \<in> {E_recv, E_send} \<Longrightarrow> e_i s < N"
  using mq_inv_parts(3,8) [of N s] by auto

lemma mq_meas_step:
  assumes inv: "mq_inv N s" and step: "mq_step N s t"
  shows "mq_meas N t < mq_meas N s"
  using step
proof (cases rule: mq_step.cases)
  case (q_recv m ms)
  with mq_inv_parts(6) [OF inv] show ?thesis by (auto simp: mq_meas_def)
next
  case (e_recv m ms)
  with mq_echo_left [OF inv] show ?thesis by (auto simp: mq_meas_def)
next
  case e_send
  with mq_echo_left [OF inv] show ?thesis by (auto simp: mq_meas_def)
qed (auto simp: mq_meas_def)

lemma mq_meas_fault:
  assumes "mq_inv N s" "mq_fault s t"
  shows "mq_meas N t \<le> mq_meas N s + 0"
  using assms(2) mq_inv_parts(6) [OF assms(1)]
  by (cases rule: mq_fault.cases) (auto simp: mq_meas_def)

lemma mq_meas_any:
  assumes "mq_inv N s" "mq_any_fault s t"
  shows "mq_meas N t \<le> mq_meas N s + 0"
proof -
  have "mq_meas N t \<le> mq_meas N s + 0" if "mq_child_fault s t"
    using that by (cases rule: mq_child_fault.cases) (simp_all add: mq_meas_def)
  with assms mq_meas_fault show ?thesis unfolding mq_any_fault_def by blast
qed

text \<open>The one way to hang: the parent waits for an answer that a failed child will not give.\<close>

definition mq_hung :: "mq_state \<Rightarrow> bool" where
  "mq_hung s \<longleftrightarrow> q_pc s = Q_recv \<and> to_p s = [] \<and> e_pc s = E_failed"

lemma mq_progress:
  assumes inv: "mq_inv N s" and nf: "\<not> mq_final s" and nh: "\<not> mq_hung s"
  shows "\<exists>t. mq_step N s t"
proof (cases "q_pc s")
  case Q_send
  with mq_inv_parts(4) [OF inv] mq_step.q_send [of s N] show ?thesis
    by (auto simp: in_flight_def MQ_MAXMSG_def)
next
  case Q_recv
  show ?thesis
  proof (cases "to_p s")
    case (Cons m ms)
    with Q_recv show ?thesis by (blast intro: mq_step.q_recv)
  next
    case Nil
    then have nf: "e_pc s \<noteq> E_failed" using nh Q_recv by (simp add: mq_hung_def)
    then have fl: "in_flight s = 1" by (rule mq_inv_parts(5) [OF inv Q_recv])
    have "e_i s < N" using mq_inv_parts(2,6) [OF inv] Q_recv Nil by simp
    then have "e_pc s \<noteq> E_exit" "e_pc s \<noteq> E_killed"
      using mq_inv_parts(8,9) [OF inv] Q_recv by auto
    with Nil fl nf show ?thesis
      using mq_step.e_send [of s N] mq_step.e_recv [of s "hd (to_c s)" "tl (to_c s)" N]
      by (cases "e_pc s"; cases "to_c s") (auto simp: in_flight_def MQ_MAXMSG_def)
  qed
next
  case Q_wait
  with mq_inv_parts(10) [OF inv] show ?thesis by (blast intro: mq_step.q_wait)
qed (use nf in \<open>auto simp: mq_final_def intro: mq_step.q_kill\<close>)

interpretation mq: bounded_system "mq_init N" "mq_step N" mq_fault "mq_good N" mq_final "mq_meas N" 0
  for N
proof unfold_locales
  fix s t
  show "mq_good N s \<Longrightarrow> \<not> mq_final s \<Longrightarrow> \<exists>t. mq_step N s t"
    using mq_progress [of N s] by (simp add: mq_good_def mq_hung_def)
  show "mq_good N s \<Longrightarrow> mq_step N s t \<Longrightarrow> mq_meas N t < mq_meas N s"
    unfolding mq_good_def by (blast intro: mq_meas_step)
  show "mq_good N s \<Longrightarrow> mq_fault s t \<Longrightarrow> mq_meas N t \<le> mq_meas N s + 0"
    unfolding mq_good_def by (blast intro: mq_meas_fault)
qed (rule mq_good_init mq_good_step mq_good_fault; assumption)+

text \<open>With failures on both sides: the two processes end or hang.\<close>

interpretation mqa: bounded_system "mq_init N" "mq_step N" mq_any_fault "mq_inv N"
  "\<lambda>s. mq_final s \<or> mq_hung s" "mq_meas N" 0
  for N
proof unfold_locales
  fix s t
  show "mq_inv N s \<Longrightarrow> \<not> (mq_final s \<or> mq_hung s) \<Longrightarrow> \<exists>t. mq_step N s t"
    using mq_progress [of N s] by blast
qed (rule mq_inv_init mq_inv_step mq_inv_any mq_meas_step mq_meas_any; assumption)+

section \<open>The rounds\<close>

text \<open>A round is answered when the child has sent, and completed when the parent has received.\<close>

definition mq_rounds :: "mq_state \<Rightarrow> rounds" where
  "mq_rounds s = \<lparr>answered = e_i s, completed = q_i s\<rparr>"

lemma mq_rounds_step:
  assumes "mq_inv N s" and "mq_step N s t"
  shows "mq_rounds t = mq_rounds s \<or> round_step N (mq_rounds s) (mq_rounds t)"
  using assms(2)
proof (cases rule: mq_step.cases)
  case e_send
  then have "to_p s = []" "e_i s < N"
    using mq_inv_parts(1,3,8) [OF assms(1)] by (auto simp: in_flight_def le_less)
  with e_send mq_inv_parts(2) [OF assms(1)] show ?thesis by (simp add: mq_rounds_def round_step_iff)
next
  case (q_recv m ms)
  with mq_inv_parts(2) [OF assms(1)] show ?thesis by (simp add: mq_rounds_def round_step_iff)
qed (simp_all add: mq_rounds_def)

interpretation mqr: round_trips "mq_init N" "mq_step N" mq_any_fault "mq_inv N" mq_rounds N
  for N
proof
  fix s t
  show "mq_init N s \<Longrightarrow> no_rounds (mq_rounds s)" by (simp add: mq_init_def no_rounds_def mq_rounds_def)
  show "mq_inv N s \<Longrightarrow> mq_step N s t \<Longrightarrow> mq_rounds t = mq_rounds s \<or> round_step N (mq_rounds s) (mq_rounds t)"
    by (rule mq_rounds_step)
  show "mq_inv N s \<Longrightarrow> mq_any_fault s t \<Longrightarrow> mq_rounds t = mq_rounds s"
    by (auto simp: mq_rounds_def mq_any_fault_def elim: mq_fault.cases mq_child_fault.cases)
qed

section \<open>The program\<close>

record mq_env =
  o_ptoc :: int
  o_ctop :: int
  o_fork :: int
  o_latency :: latency_env

text \<open>
  The outcome when the processes have come to the state \<open>s\<close>: what the parent prints; what the
  child has printed is \<open>e_out\<close>. The results of the scheduling calls are not looked at.
\<close>

definition mq_run :: "mq_env \<Rightarrow> policy \<Rightarrow> mq_state \<Rightarrow> outcome" where
  "mq_run e policy s =
     (if o_ptoc e = - 1 then die (Perror ''mq_open /mq_ptoc'')
      else if o_ctop e = - 1 then die (Perror ''mq_open /mq_ctop'')
      else if o_fork e < 0 then die (Perror ''fork'')
      else if q_pc s \<noteq> Q_done then ([], Unfinished)
      else case max_latency (o_latency e) (q_i s) of
        None \<Rightarrow> undef
      | Some m \<Rightarrow> say_all (q_out s)
          (say (Printf ''Max IPC round-trip latency (%s): %ld ns'' [VS (policy_name policy), VI m])
            (exits 0)))"

definition mq_main :: "platform \<Rightarrow> mq_env \<Rightarrow> string list \<Rightarrow> mq_state \<Rightarrow> outcome" where
  "mq_main pf e args s = (case args of
     [] \<Rightarrow> mq_run e SCHED_FIFO s
   | a # _ \<Rightarrow> (case parse_ipc_mq pf a of Inl m \<Rightarrow> die m | Inr policy \<Rightarrow> mq_run e policy s))"

section \<open>Properties\<close>

text \<open>C6. As long as the child's own calls succeed the two processes never hang: until the parent
  is done one of them can make a step, also after a failing call of the parent, and there
  are at most 4 N + 2 steps. At most one message is under way at any time and it is the
  message the parent made, byte for byte; without a fault the parent has made all N round
  trips when it is done, and otherwise it has said which call failed.\<close>

theorem mq_echo_finishes:
  assumes "mq_init N s" and "run (mq_step N) mq_fault s p e t"
  shows "(q_pc t = Q_done \<or> (\<exists>u. mq_step N t u)) \<and> p \<le> 4 * N + 2 \<and>
    (\<exists>q u. run (mq_step N) mq_fault t q 0 u \<and> q_pc u = Q_done) \<and>
    in_flight t \<le> 1 \<and> q_buf t = mq_msg \<and>
    (q_pc t = Q_done \<longrightarrow> echo_ended (e_pc t) \<and> (q_out t = [] \<longrightarrow> q_i t = N))"
proof -
  have good: "mq_good N t" by (rule mq.inv_run [OF assms])
  then have inv: "mq_inv N t" by (simp add: mq_good_def)
  have "mq_meas N s \<le> 4 * N + 2" using assms(1) by (auto simp: mq_init_def mq_meas_def)
  then have "p \<le> 4 * N + 2" using mq.run_bound [OF assms] by simp
  moreover have "q_pc t = Q_done \<longrightarrow> echo_ended (e_pc t) \<and> (q_out t = [] \<longrightarrow> q_i t = N)"
    using mq_inv_parts(7,10) [OF inv] by auto
  moreover have "q_pc t = Q_done \<or> (\<exists>u. mq_step N t u)"
    using mq.progress [OF good] by (auto simp: mq_final_def)
  ultimately show ?thesis
    using mq_inv_parts(1,13) [OF inv] mq.can_always_finish [OF assms] by (simp add: mq_final_def)
qed

text \<open>One round trip, state by state.\<close>

definition mq_at :: "msg list \<Rightarrow> msg list \<Rightarrow> sender_pc \<Rightarrow> nat \<Rightarrow> echo_pc \<Rightarrow> nat \<Rightarrow> mq_state" where
  "mq_at c p q i e j = \<lparr>to_c = c, to_p = p, q_pc = q, q_i = i, q_buf = mq_msg, q_out = [],
     e_pc = e, e_i = j, e_buf = mq_msg, e_out = []\<rparr>"

lemma mq_demo_run:
  "run (mq_step 1) env (mq_at [] [] Q_send 0 E_recv 0) 6 0 (mq_at [] [] Q_done 1 E_exit 1)"
proof -
  have "chain (mq_step 1) (mq_at [] [] Q_send 0 E_recv 0)
    [mq_at [mq_msg] [] Q_recv 0 E_recv 0, mq_at [] [] Q_recv 0 E_send 0,
     mq_at [] [mq_msg] Q_recv 0 E_exit 1, mq_at [] [] Q_after 1 E_exit 1,
     mq_at [] [] Q_wait 1 E_exit 1, mq_at [] [] Q_done 1 E_exit 1]"
    by (simp add: mq_step.simps mq_at_def MQ_MAXMSG_def)
  from chain_run [OF this, of env] show ?thesis by (simp add: eval_nat_numeral)
qed

lemma mq_demo_init: "mq_init 1 (mq_at [] [] Q_send 0 E_recv 0)"
  by (simp add: mq_init_def mq_at_def)

theorem mq_echo_finishes_witness:
  "q_i (mq_at [] [] Q_done 1 E_exit 1) = 1 \<and> (6 :: nat) \<le> 4 * 1 + 2"
  using mq_echo_finishes [OF mq_demo_init mq_demo_run] by (simp add: mq_at_def)

text \<open>The report: the program prints the largest time between the two readings of a round trip,
  over the round trips it completed, after the message of the call that failed if one did,
  and exits with 0. No difference of two readings overflows.\<close>

theorem mq_echo_reports:
  assumes "o_ptoc e \<noteq> - 1" and "o_ctop e \<noteq> - 1" and "0 \<le> o_fork e" and "q_pc s = Q_done"
    and "\<And>i. i < q_i s \<Longrightarrow> ts_ok (l_start (o_latency e) i) \<and> ts_ok (l_end (o_latency e) i)"
    and "parse_ipc_mq pf a = Inr policy"
  shows "mq_main pf e (a # as) s = (q_out s @
    [Printf ''Max IPC round-trip latency (%s): %ld ns'' [VS (policy_name policy),
       VI (run_max (\<lambda>i. nanos (l_end (o_latency e) i) - nanos (l_start (o_latency e) i)) (q_i s))]],
    Exits 0)"
  using assms max_latency_eq [of "q_i s" "o_latency e"] by (simp add: mq_main_def mq_run_def)

theorem mq_echo_reports_witness:
  "mq_main Linux \<lparr>o_ptoc = 3, o_ctop = 4, o_fork = 77,
      o_latency = \<lparr>l_start = (\<lambda>_. \<lparr>tv_sec = 1, tv_nsec = 999999999\<rparr>), l_end = (\<lambda>_. \<lparr>tv_sec = 2, tv_nsec = 8\<rparr>)\<rparr>\<rparr>
     [''rr''] (mq_at [] [] Q_done 1 E_exit 1) =
   ([Printf ''Max IPC round-trip latency (%s): %ld ns'' [VS ''RR'', VI 9]], Exits 0)"
  using mq_echo_reports [of "\<lparr>o_ptoc = 3, o_ctop = 4, o_fork = 77,
      o_latency = \<lparr>l_start = (\<lambda>_. \<lparr>tv_sec = 1, tv_nsec = 999999999\<rparr>), l_end = (\<lambda>_. \<lparr>tv_sec = 2, tv_nsec = 8\<rparr>)\<rparr>\<rparr>"
      "mq_at [] [] Q_done 1 E_exit 1" Linux "''rr''" SCHED_RR "[]"]
  by (simp add: mq_at_def ts_ok_def nanos_def NSEC_PER_SEC_def parse_ipc_mq_def policy_name_def run_max_Suc)

section \<open>When the child has failed\<close>

definition mq_doomed :: "nat \<Rightarrow> mq_state \<Rightarrow> bool" where
  "mq_doomed N s \<longleftrightarrow> mq_inv N s \<and> e_pc s = E_failed \<and> q_pc s \<in> {Q_send, Q_recv}"

definition mq_doom :: "mq_state \<Rightarrow> nat" where
  "mq_doom s = (if q_pc s = Q_send then 1 else 2 * length (to_p s))"

lemma mq_doomed_step:
  assumes "mq_doomed N s" and "mq_step N s t"
  shows "mq_doomed N t" "mq_doom t < mq_doom s"
proof -
  have s: "mq_inv N s" "e_pc s = E_failed" "q_pc s \<in> {Q_send, Q_recv}"
    using assms(1) by (simp_all add: mq_doomed_def)
  have "e_i s < N" using mq_inv_parts(3,8) [OF s(1)] s(2) by (auto simp: le_less)
  with mq_inv_parts(2) [OF s(1)] have i: "q_i s + length (to_p s) < N" by simp
  have "q_pc t \<in> {Q_send, Q_recv} \<and> mq_doom t < mq_doom s"
    using assms(2)
  proof (cases rule: mq_step.cases)
    case q_send
    with mq_inv_parts(4) [OF s(1)] show ?thesis by (simp add: mq_doom_def in_flight_def)
  next
    case (q_recv m ms)
    with i show ?thesis by (simp add: mq_doom_def)
  qed (use s in auto)
  then show "mq_doomed N t" "mq_doom t < mq_doom s"
    using mq_inv_step [OF s(1) assms(2)] echo_failed_step [OF assms(2)] s(2)
    by (simp_all add: mq_doomed_def)
qed

lemma mq_doomed_progress:
  "mq_doomed N s \<Longrightarrow> \<not> mq_hung s \<Longrightarrow> \<exists>t. mq_step N s t"
  using mq_progress [of N s] by (auto simp: mq_doomed_def mq_final_def)

interpretation mqd: bounded_system "mq_doomed N" "mq_step N" no_env "mq_doomed N" mq_hung mq_doom 0
  for N
  by unfold_locales (auto simp: no_env_def intro: mq_doomed_step mq_doomed_progress)

lemma mq_hung_stuck: "mq_hung s \<Longrightarrow> \<not> mq_step N s t"
  by (auto simp: mq_hung_def elim: mq_step.cases)

text \<open>C32. A failing call of the child is not survived: wherever the child gives up (in its receive or
  its send, in any pass) while the parent is still in its loop, then as long as the
  parent's own calls do not fail the parent takes at most the one answer that is still
  queued, asks again, and waits in \<open>mq_receive\<close> for ever, because an empty queue has no end
  of file: it comes to its wait in at most two steps, never leaves its loop, and the
  report is never printed.\<close>

theorem mq_child_failure_hangs:
  assumes "mq_init N s" and "run (mq_step N) mq_any_fault s p e t"
    and "e_pc t = E_failed" and "q_pc t \<in> {Q_send, Q_recv}"
    and "run (mq_step N) no_env t q 0 u"
  shows "q \<le> 2 \<and> q_pc u \<in> {Q_send, Q_recv} \<and> q_out u = [] \<and> q_i u < N \<and>
    (\<exists>r v. run (mq_step N) no_env u r 0 v \<and> mq_hung v) \<and>
    (mq_hung u \<or> (\<exists>v. mq_step N u v)) \<and> (mq_hung u \<longrightarrow> (\<forall>v. \<not> mq_step N u v))"
proof -
  have inv: "mq_inv N t" by (rule mqa.inv_run [OF assms(1,2)])
  with assms(3,4) have t: "mq_doomed N t" by (simp add: mq_doomed_def)
  then have u: "mq_doomed N u" by (rule mqd.inv_run [OF _ assms(5)])
  then have "q_pc u \<in> {Q_send, Q_recv}" "q_out u = []" "q_i u < N"
    using mq_inv_parts(6) [of N u] by (simp_all add: mq_doomed_def)
  moreover have "mq_doom t \<le> 2"
    using mq_inv_parts(1) [OF inv] by (simp add: mq_doom_def in_flight_def)
  then have "q \<le> 2" using mqd.run_bound [OF t assms(5)] by simp
  ultimately show ?thesis
    using mqd.can_always_finish [OF t assms(5)] mqd.progress [OF u] mq_hung_stuck by blast
qed

text \<open>The child fails in its first send.\<close>

definition mq_dead :: mq_state where
  "mq_dead = (mq_at [] [] Q_recv 0 E_failed 0)\<lparr>e_out := [Perror ''Child mq_send'']\<rparr>"

lemma mq_dead_run: "run (mq_step 1) mq_any_fault (mq_at [] [] Q_send 0 E_recv 0) 2 1 mq_dead"
proof -
  have "chain (mq_step 1) (mq_at [] [] Q_send 0 E_recv 0)
    [mq_at [mq_msg] [] Q_recv 0 E_recv 0, mq_at [] [] Q_recv 0 E_send 0]"
    by (simp add: mq_step.simps mq_at_def MQ_MAXMSG_def)
  from chain_run [OF this, of mq_any_fault]
  have 1: "run (mq_step 1) mq_any_fault (mq_at [] [] Q_send 0 E_recv 0) 2 0 (mq_at [] [] Q_recv 0 E_send 0)"
    by (simp add: eval_nat_numeral)
  have "mq_child_fault (mq_at [] [] Q_recv 0 E_send 0) mq_dead"
    using mq_child_fault.e_send_fault [of "mq_at [] [] Q_recv 0 E_send 0"] by (simp add: mq_at_def mq_dead_def)
  with run_env [OF 1] show ?thesis by (simp add: mq_any_fault_def)
qed

theorem mq_child_failure_hangs_witness: "mq_hung mq_dead \<and> (\<forall>v. \<not> mq_step 1 mq_dead v)"
proof
  show hung: "mq_hung mq_dead" by (simp add: mq_hung_def mq_dead_def mq_at_def)
  show "\<forall>v. \<not> mq_step 1 mq_dead v"
    using mq_child_failure_hangs [OF mq_demo_init mq_dead_run _ _ run_nil] hung
    by (simp add: mq_hung_def)
qed

end
