(* ===== verification/MqSingle.thy ===== *)
theory MqSingle
  imports MqEcho CText
begin

text \<open>
  \<open>src/ipc/ipc_latency.c\<close>: like \<open>ipc_mq_latency.c\<close>, but with ONE queue, which both the
  parent and the child write to and read from, and with load threads that main cancels and
  joins at the end. A message is a list of bytes; a buffer keeps what a message does not
  overwrite.
\<close>

section \<open>The processes and the load threads\<close>

definition LOADS :: nat where "LOADS = 3"

datatype single_pc = S_send | S_recv | S_after | S_cancel nat | S_join nat | S_done

text \<open>A load thread: its counter, and whether it has been asked to cancel.\<close>

datatype spinner = Spin "64 word" bool | Spin_ended

record sq_state =
  queue :: "msg list"
  unlinked :: bool
  s_pc :: single_pc
  s_i :: nat
  s_buf :: msg
  s_out :: "out list"
  r_pc :: echo_pc
  r_i :: nat
  r_buf :: msg
  r_out :: "out list"
  spinners :: "spinner list"

definition sq_init :: "nat \<Rightarrow> sq_state \<Rightarrow> bool" where
  "sq_init N s \<longleftrightarrow> queue s = [] \<and> \<not> unlinked s \<and> s_pc s = (if 0 < N then S_send else S_after) \<and>
     s_i s = 0 \<and> cstr (s_buf s) = ''ping'' \<and> s_out s = [] \<and>
     r_pc s = (if 0 < N then E_recv else E_exit) \<and> r_i s = 0 \<and> r_out s = [] \<and>
     spinners s = replicate LOADS (Spin 0 False)"

text \<open>\<open>mq_send(mq, buffer, strlen(buffer) + 1, 0)\<close> and what \<open>mq_receive\<close> leaves in a buffer.\<close>

definition sent :: "msg \<Rightarrow> msg" where
  "sent buf = cstr buf @ [CHR 0x00]"

definition received :: "msg \<Rightarrow> msg \<Rightarrow> msg" where
  "received m buf = m @ drop (length m) buf"

text \<open>
  A cancellation request takes effect when its thread next calls a cancellation point (the
  default, deferred type). The loop of \<open>load_thread_func\<close> calls nothing.
\<close>

definition cancellation_points :: "string list" where
  "cancellation_points = [''pthread_testcancel'', ''sleep'', ''nanosleep'', ''read'', ''write'',
     ''mq_send'', ''mq_receive'', ''pthread_cond_wait'', ''pthread_join'']"

definition load_thread_calls :: "string list" where
  "load_thread_calls = []"

definition cancellable :: bool where
  "cancellable \<longleftrightarrow> list_ex (\<lambda>f. f \<in> set cancellation_points) load_thread_calls"

inductive sq_step :: "nat \<Rightarrow> sq_state \<Rightarrow> sq_state \<Rightarrow> bool" for N where
  s_send: "s_pc s = S_send \<Longrightarrow> length (queue s) < MQ_MAXMSG \<Longrightarrow>
    sq_step N s (s\<lparr>queue := queue s @ [sent (s_buf s)], s_pc := S_recv\<rparr>)"
| s_recv: "s_pc s = S_recv \<Longrightarrow> queue s = m # ms \<Longrightarrow>
    sq_step N s (s\<lparr>queue := ms, s_buf := received m (s_buf s), s_i := Suc (s_i s),
      s_pc := (if Suc (s_i s) < N then S_send else S_after)\<rparr>)"
| s_kill: "s_pc s = S_after \<Longrightarrow>
    sq_step N s (s\<lparr>s_pc := S_cancel 0, r_pc := (if echo_ended (r_pc s) then r_pc s else E_killed)\<rparr>)"
| s_cancel: "s_pc s = S_cancel i \<Longrightarrow> i < LOADS \<Longrightarrow>
    sq_step N s (s\<lparr>s_pc := S_join i, spinners := (spinners s)[i :=
      (case spinners s ! i of Spin c _ \<Rightarrow> Spin c True | Spin_ended \<Rightarrow> Spin_ended)]\<rparr>)"
| s_join: "s_pc s = S_join i \<Longrightarrow> spinners s ! i = Spin_ended \<Longrightarrow>
    sq_step N s (s\<lparr>s_pc := S_cancel (Suc i)\<rparr>)"
| s_close: "s_pc s = S_cancel LOADS \<Longrightarrow> sq_step N s (s\<lparr>s_pc := S_done, unlinked := True\<rparr>)"
| r_recv: "r_pc s = E_recv \<Longrightarrow> queue s = m # ms \<Longrightarrow>
    sq_step N s (s\<lparr>queue := ms, r_buf := received m (r_buf s), r_pc := E_send\<rparr>)"
| r_send: "r_pc s = E_send \<Longrightarrow> length (queue s) < MQ_MAXMSG \<Longrightarrow>
    sq_step N s (s\<lparr>queue := queue s @ [sent (r_buf s)], r_i := Suc (r_i s),
      r_pc := (if Suc (r_i s) < N then E_recv else E_exit)\<rparr>)"
| load_cancelled: "i < length (spinners s) \<Longrightarrow> spinners s ! i = Spin c True \<Longrightarrow> cancellable \<Longrightarrow>
    sq_step N s (s\<lparr>spinners := (spinners s)[i := Spin_ended]\<rparr>)"

text \<open>
  A load thread goes round its loop; a call of the parent fails, and it leaves its loop; a call
  of the child fails, and it exits (in its send with the message it holds).
\<close>

inductive sq_env :: "sq_state \<Rightarrow> sq_state \<Rightarrow> bool" where
  load_spin: "i < length (spinners s) \<Longrightarrow> spinners s ! i = Spin c b \<Longrightarrow>
    sq_env s (s\<lparr>spinners := (spinners s)[i := Spin (c + 1) b]\<rparr>)"
| s_send_fault: "s_pc s = S_send \<Longrightarrow> sq_env s (s\<lparr>s_pc := S_after, s_out := [Perror ''mq_send'']\<rparr>)"
| s_recv_fault: "s_pc s = S_recv \<Longrightarrow> sq_env s (s\<lparr>s_pc := S_after, s_out := [Perror ''mq_receive'']\<rparr>)"
| r_recv_fault: "r_pc s = E_recv \<Longrightarrow>
    sq_env s (s\<lparr>r_pc := E_failed, r_out := [Perror ''mq_receive in child'']\<rparr>)"
| r_send_fault: "r_pc s = E_send \<Longrightarrow>
    sq_env s (s\<lparr>r_pc := E_failed, r_out := [Perror ''mq_send in child'']\<rparr>)"

section \<open>Invariant and measure\<close>

definition on_way :: "sq_state \<Rightarrow> nat" where
  "on_way s = length (queue s) + (if r_pc s = E_send then 1 else 0)"

definition ping_msg :: msg where
  "ping_msg = ''ping'' @ [CHR 0x00]"

definition sq_inv :: "nat \<Rightarrow> sq_state \<Rightarrow> bool" where
  "sq_inv N s \<longleftrightarrow>
     s_pc s \<in> {S_send, S_recv, S_after, S_cancel 0, S_join 0} \<and> \<not> unlinked s \<and>
     on_way s \<le> 1 \<and> (s_pc s = S_send \<longrightarrow> on_way s = 0) \<and> (s_pc s = S_recv \<and> (r_pc s = E_failed \<longrightarrow> r_out s \<noteq> [Perror ''mq_send in child'']) \<longrightarrow> on_way s = 1) \<and>
     (r_out s = [] \<longleftrightarrow> r_pc s \<noteq> E_failed) \<and>
     (s_pc s \<in> {S_send, S_recv} \<longrightarrow> s_i s < N \<and> s_out s = [] \<and> r_pc s \<noteq> E_killed) \<and>
     (s_pc s \<in> {S_after, S_cancel 0, S_join 0} \<and> s_out s = [] \<longrightarrow> s_i s = N) \<and>
     (s_pc s \<in> {S_cancel 0, S_join 0} \<longrightarrow> echo_ended (r_pc s)) \<and>
     r_i s \<le> N \<and> (r_i s = N \<longleftrightarrow> r_pc s = E_exit) \<and>
     length (spinners s) = LOADS \<and> Spin_ended \<notin> set (spinners s) \<and>
     set (queue s) \<subseteq> {ping_msg} \<and> cstr (s_buf s) = ''ping'' \<and>
     (r_pc s = E_send \<longrightarrow> cstr (r_buf s) = ''ping'')"

text \<open>
  The program ends up in the join of its first load thread, or waits for a message that the
  child has taken and not been able to send back.
\<close>

definition sq_lost :: "sq_state \<Rightarrow> bool" where
  "sq_lost s \<longleftrightarrow> s_pc s = S_recv \<and> queue s = [] \<and> r_pc s = E_failed \<and> r_out s = [Perror ''mq_send in child'']"

definition sq_final :: "sq_state \<Rightarrow> bool" where
  "sq_final s \<longleftrightarrow> s_pc s = S_join 0 \<or> sq_lost s"

fun s_weight :: "nat \<Rightarrow> single_pc \<Rightarrow> nat" where
  "s_weight l S_send = 2 * l + 2"
| "s_weight l S_recv = 2 * l + 1"
| "s_weight l S_after = 2"
| "s_weight l (S_cancel i) = 1"
| "s_weight l (S_join i) = 0"
| "s_weight l S_done = 0"

definition sq_meas :: "nat \<Rightarrow> sq_state \<Rightarrow> nat" where
  "sq_meas N s = s_weight (N - s_i s) (s_pc s) + e_weight (N - r_i s) (r_pc s)"

lemma not_cancellable [simp]: "\<not> cancellable"
  by (simp add: cancellable_def load_thread_calls_def)

lemma cstr_received [simp]: "cstr (received ping_msg buf) = ''ping''"
  by (simp add: cstr_def received_def ping_msg_def)

lemma sent_ping [simp]: "cstr buf = ''ping'' \<Longrightarrow> sent buf = ping_msg"
  by (simp add: sent_def ping_msg_def)

lemmas sq_defs = sq_inv_def on_way_def

lemma sq_inv_init: "sq_init N s \<Longrightarrow> sq_inv N s"
  by (auto simp: sq_init_def sq_defs)

lemma sq_inv_parts:
  assumes "sq_inv N s"
  shows "s_pc s \<in> {S_send, S_recv, S_after, S_cancel 0, S_join 0}" "\<not> unlinked s"
    "s_pc s = S_send \<Longrightarrow> on_way s = 0" 
    "s_pc s = S_recv \<Longrightarrow> (r_pc s = E_failed \<Longrightarrow> r_out s \<noteq> [Perror ''mq_send in child'']) \<Longrightarrow> on_way s = 1"
    "s_pc s \<in> {S_send, S_recv} \<Longrightarrow> s_i s < N \<and> s_out s = [] \<and> r_pc s \<noteq> E_killed"
    "s_pc s \<in> {S_after, S_cancel 0, S_join 0} \<Longrightarrow> s_out s = [] \<Longrightarrow> s_i s = N"
    "r_i s \<le> N" "r_i s = N \<longleftrightarrow> r_pc s = E_exit"
    "length (spinners s) = LOADS" "Spin_ended \<notin> set (spinners s)"
    "s_pc s \<in> {S_cancel 0, S_join 0} \<Longrightarrow> echo_ended (r_pc s)"
  using assms unfolding sq_inv_def by blast+

lemma spinner_runs:
  assumes "sq_inv N s" "i < LOADS"
  shows "\<exists>c b. spinners s ! i = Spin c b"
proof -
  have "spinners s ! i \<noteq> Spin_ended"
    using sq_inv_parts(9,10) [OF assms(1)] assms(2) nth_mem by metis
  then show ?thesis by (metis spinner.exhaust)
qed

lemma sq_inv_step:
  assumes inv: "sq_inv N s" and step: "sq_step N s t"
  shows "sq_inv N t"
  using step
proof (cases rule: sq_step.cases)
  case s_send
  with inv show ?thesis by (cases "r_pc s"; auto simp: sq_defs)
next
  case (s_recv m ms)
  with inv show ?thesis by (cases "r_pc s"; auto simp: sq_defs)
next
  case s_kill
  with inv show ?thesis by (cases "r_pc s"; auto simp: sq_defs)
next
  case (s_cancel i)
  obtain c b where "spinners s ! 0 = Spin c b"
    using spinner_runs [OF inv, of 0] by (auto simp: LOADS_def)
  with inv s_cancel show ?thesis
    by (cases "r_pc s"; auto simp: sq_defs dest: set_update_subset_insert [THEN subsetD])
next
  case (s_join i)
  have "spinners s ! 0 \<noteq> Spin_ended" using spinner_runs [OF inv, of 0] by (auto simp: LOADS_def)
  with s_join sq_inv_parts(1) [OF inv] show ?thesis by auto
next
  case s_close
  with sq_inv_parts(1) [OF inv] show ?thesis by (auto simp: LOADS_def)
next
  case (r_recv m ms)
  with inv show ?thesis by (cases "s_pc s"; auto simp: sq_defs)
next
  case r_send
  with inv show ?thesis by (cases "s_pc s"; auto simp: sq_defs)
qed simp

lemma sq_inv_env:
  assumes inv: "sq_inv N s" and step: "sq_env s t"
  shows "sq_inv N t"
  using step
proof (cases rule: sq_env.cases)
  case (load_spin i c b)
  have "Spin_ended \<notin> set ((spinners s)[i := Spin (c + 1) b])"
    using set_update_subset_insert [of "spinners s" i] sq_inv_parts(10) [OF inv] by blast
  with inv load_spin show ?thesis by (simp add: sq_defs)
next
  case s_send_fault
  with inv show ?thesis by (cases "r_pc s"; auto simp: sq_defs)
next
  case s_recv_fault
  with inv show ?thesis by (cases "r_pc s"; auto simp: sq_defs)
next
  case r_recv_fault
  with inv show ?thesis by (cases "s_pc s"; auto simp: sq_defs)
next
  case r_send_fault
  with inv show ?thesis by (cases "s_pc s"; auto simp: sq_defs)
qed

lemma sq_echo_left: "sq_inv N s \<Longrightarrow> r_pc s \<in> {E_recv, E_send} \<Longrightarrow> r_i s < N"
  using sq_inv_parts(7,8) [of N s] by auto

lemma sq_meas_step:
  assumes inv: "sq_inv N s" and step: "sq_step N s t"
  shows "sq_meas N t < sq_meas N s"
  using step
proof (cases rule: sq_step.cases)
  case (s_recv m ms)
  with sq_inv_parts(5) [OF inv] show ?thesis by (auto simp: sq_meas_def)
next
  case (s_join i)
  with spinner_runs [OF inv, of 0] sq_inv_parts(1) [OF inv] show ?thesis by (auto simp: LOADS_def)
next
  case s_close
  with sq_inv_parts(1) [OF inv] show ?thesis by (auto simp: LOADS_def)
next
  case (r_recv m ms)
  with sq_echo_left [OF inv] show ?thesis by (auto simp: sq_meas_def)
next
  case r_send
  with sq_echo_left [OF inv] show ?thesis by (auto simp: sq_meas_def)
qed (auto simp: sq_meas_def)

lemma sq_meas_env:
  assumes "sq_inv N s" "sq_env s t"
  shows "sq_meas N t \<le> sq_meas N s + 0"
  using assms(2) sq_inv_parts(5) [OF assms(1)]
  by (cases rule: sq_env.cases) (auto simp: sq_meas_def)

lemma sq_progress:
  assumes inv: "sq_inv N s" and nf: "\<not> sq_final s"
  shows "\<exists>t. sq_step N s t"
proof (cases "s_pc s")
  case S_send
  with sq_inv_parts(3) [OF inv] sq_step.s_send [of s N] show ?thesis
    by (auto simp: on_way_def MQ_MAXMSG_def)
next
  case S_recv
  show ?thesis
  proof (cases "queue s")
    case (Cons m ms)
    with S_recv show ?thesis by (blast intro: sq_step.s_recv)
  next
    case Nil
    then have "on_way s = 1"
      using sq_inv_parts(4) [OF inv S_recv] nf S_recv by (auto simp: sq_final_def sq_lost_def)
    with Nil sq_step.r_send [of s N] show ?thesis
      by (auto simp: on_way_def MQ_MAXMSG_def split: if_splits)
  qed
next
  case (S_cancel i)
  with sq_inv_parts(1) [OF inv] sq_step.s_cancel [of s 0 N] show ?thesis by (auto simp: LOADS_def)
qed (use nf sq_inv_parts(1) [OF inv] in \<open>auto simp: sq_final_def intro: sq_step.s_kill\<close>)

interpretation sq: bounded_system "sq_init N" "sq_step N" sq_env "sq_inv N" sq_final "sq_meas N" 0
  for N
  by unfold_locales
    (rule sq_inv_init sq_inv_step sq_inv_env sq_progress sq_meas_step sq_meas_env; assumption)+

section \<open>The program\<close>

record sq_penv =
  z_open :: int
  z_create :: "nat \<Rightarrow> int"
  z_fork :: int
  z_prio_max :: "policy \<Rightarrow> int"
  z_setsched :: "policy \<Rightarrow> sched_param \<Rightarrow> int"
  z_latency :: latency_env

definition sq_spawn :: "sq_penv \<Rightarrow> nat \<Rightarrow> unit \<Rightarrow> (unit, out) flow" where
  "sq_spawn e i s = (if z_create e i \<noteq> 0 then Return (Perror ''pthread_create'') else Next ())"

definition sq_sched_msg :: "platform \<Rightarrow> sq_penv \<Rightarrow> policy \<Rightarrow> out list" where
  "sq_sched_msg pf e policy =
     (if z_setsched e policy (sched_args pf policy (z_prio_max e policy)) = 0 then []
      else if pf = QNX \<and> policy = SCHED_SPORADIC then [Perror ''sched_setscheduler (sporadic)'']
      else [Perror ''sched_setscheduler''])"

text \<open>
  The outcome when the processes have come to the state \<open>s\<close>: what the parent prints (what the
  child has printed is \<open>r_out\<close>). The report is made before the load threads are joined.
\<close>

definition sq_run :: "platform \<Rightarrow> sq_penv \<Rightarrow> policy \<Rightarrow> sq_state \<Rightarrow> outcome" where
  "sq_run pf e policy s =
     (if z_open e = - 1 then die (Perror ''mq_open'')
      else case for_upto (sq_spawn e) 0 LOADS () of Return m \<Rightarrow> die m | _ \<Rightarrow>
      (if z_fork e < 0 then die (Perror ''fork'')
       else if s_pc s \<in> {S_send, S_recv, S_after} then (sq_sched_msg pf e policy @ s_out s, Unfinished)
       else case max_latency (z_latency e) (s_i s) of
         None \<Rightarrow> undef
       | Some m \<Rightarrow> (sq_sched_msg pf e policy @ s_out s @
           [Printf ''Max IPC round-trip latency (%s): %ld ns'' [VS (policy_name policy), VI m]],
           if s_pc s = S_done then Exits 0 else Unfinished)))"

definition sq_main :: "platform \<Rightarrow> sq_penv \<Rightarrow> string list \<Rightarrow> sq_state \<Rightarrow> outcome" where
  "sq_main pf e args s = (case args of
     [] \<Rightarrow> sq_run pf e SCHED_FIFO s
   | a # _ \<Rightarrow> (case parse_ipc pf a of Inl m \<Rightarrow> die m | Inr policy \<Rightarrow> sq_run pf e policy s))"

section \<open>Properties\<close>

text \<open>
  So this program does not do what theory \<open>Rounds\<close> asks of a benchmark: it completes a round that
  nobody has answered.
\<close>

definition sq_rounds :: "sq_state \<Rightarrow> rounds" where
  "sq_rounds s = \<lparr>answered = r_i s, completed = s_i s\<rparr>"

lemma single_queue_breaks_rounds:
  assumes "sq_init N s" and "0 < N"
  shows "\<exists>t. run (sq_step N) sq_env s 2 0 t \<and> \<not> round_inv N (sq_rounds t)"
proof -
  define t1 where "t1 = s\<lparr>queue := [ping_msg], s_pc := S_recv\<rparr>"
  define t2 where "t2 = t1\<lparr>queue := [], s_buf := received ping_msg (s_buf s), s_i := 1,
    s_pc := (if 1 < N then S_send else S_after)\<rparr>"
  have s: "queue s = []" "s_pc s = S_send" "s_i s = 0" "r_i s = 0" "cstr (s_buf s) = ''ping''"
    using assms by (simp_all add: sq_init_def)
  have 1: "sq_step N s t1"
    using sq_step.s_send [of s N] s by (simp add: t1_def MQ_MAXMSG_def)
  have 2: "sq_step N t1 t2"
    using sq_step.s_recv [of t1 ping_msg "[]" N] s by (simp add: t1_def t2_def)
  have "run (sq_step N) sq_env s (Suc 0) 0 t1" by (rule run_step [OF run_nil]) (rule 1)
  then have "run (sq_step N) sq_env s (Suc (Suc 0)) 0 t2" using 2 by (rule run_step)
  moreover have "\<not> round_inv N (sq_rounds t2)"
    using s by (simp add: round_inv_def sq_rounds_def t2_def t1_def)
  ultimately show ?thesis by (auto simp: numeral_2_eq_2)
qed

text \<open>C33. The single queue is not an exchange with the child: there is a schedule in which the parent
  receives its own message in each of its N round trips, without a failing call, and the child
  is still in its first \<open>mq_receive\<close> when the parent is through (and so at every earlier
  round trip). Such a round trip measures the parent alone.\<close>

theorem single_queue_self_echo:
  assumes "sq_init N s" and "0 < N" and "n \<le> N"
  shows "\<exists>t. run (sq_step N) sq_env s (2 * n) 0 t \<and> s_i t = n \<and> s_pc t = (if n < N then S_send else S_after) \<and>
    r_pc t = E_recv \<and> r_i t = 0 \<and> s_out t = []"
  using assms(3)
proof (induction n)
  case 0
  then show ?case using assms(1,2) by (intro exI [of _ s]) (auto simp: sq_init_def intro: run_nil)
next
  case (Suc n)
  then obtain t where t: "run (sq_step N) sq_env s (2 * n) 0 t" "s_i t = n" "s_pc t = S_send"
    "r_pc t = E_recv" "r_i t = 0" "s_out t = []" by auto
  have inv: "sq_inv N t" by (rule sq.inv_run [OF assms(1) t(1)])
  then have q: "queue t = []" using sq_inv_parts(3) [OF inv] t(3) by (simp add: on_way_def)
  define t1 where "t1 = t\<lparr>queue := [sent (s_buf t)], s_pc := S_recv\<rparr>"
  define t2 where "t2 = t1\<lparr>queue := [], s_buf := received (sent (s_buf t)) (s_buf t), s_i := Suc n,
    s_pc := (if Suc n < N then S_send else S_after)\<rparr>"
  have "sq_step N t t1"
    using sq_step.s_send [of t N] t(3) q by (simp add: t1_def MQ_MAXMSG_def)
  with t(1) have 1: "run (sq_step N) sq_env s (Suc (2 * n)) 0 t1" by (rule run_step)
  have "sq_step N t1 t2"
    using sq_step.s_recv [of t1 "sent (s_buf t)" "[]" N] t(2) by (simp add: t1_def t2_def)
  with 1 have "run (sq_step N) sq_env s (Suc (Suc (2 * n))) 0 t2" by (rule run_step)
  then show ?case using t by (intro exI [of _ t2]) (simp add: t2_def t1_def)
qed

lemma child_failed_step: "sq_step N s t \<Longrightarrow> r_pc t = E_failed \<longleftrightarrow> r_pc s = E_failed"
  by (cases rule: sq_step.cases, assumption) auto

lemma child_failed_run: "run (sq_step N) no_env s p e t \<Longrightarrow> r_pc t = E_failed \<longleftrightarrow> r_pc s = E_failed"
  by (induction rule: run.induct) (auto simp: no_env_def child_failed_step)

interpretation sqn: bounded_system "sq_inv N" "sq_step N" no_env "sq_inv N" sq_final "sq_meas N" 0
  for N
  by unfold_locales (auto simp: no_env_def intro: sq_inv_step sq_progress sq_meas_step)

lemma sq_final_stuck:
  assumes "sq_inv N s" and "sq_final s"
  shows "\<not> sq_step N s t"
proof (cases "sq_lost s")
  case True
  then show ?thesis by (auto simp: sq_lost_def elim: sq_step.cases)
next
  case False
  with assms(2) have join: "s_pc s = S_join 0" by (simp add: sq_final_def)
  with sq_inv_parts(11) [OF assms(1)] have "echo_ended (r_pc s)" by simp
  then have "r_pc s \<noteq> E_recv" "r_pc s \<noteq> E_send" by auto
  with join spinner_runs [OF assms(1), of 0] show ?thesis
    by (auto simp: LOADS_def elim: sq_step.cases)
qed

text \<open>C5. The program never ends. Whatever calls of parent and child fail, after at most 4 N + 2 steps
  of the processes it has come to one of two places, which it can always still come to and
  never leaves: the join of the first load thread, which has been cancelled and never
  reaches a cancellation point; or the parent's \<open>mq_receive\<close>, where the child has taken the
  message and failed to send it back. As long as no call of the child fails it is the
  join, with all N round trips made or a message which call failed. The queue is never
  unlinked.\<close>

theorem single_queue_never_ends:
  assumes "sq_init N s" and "run (sq_step N) sq_env s p e t"
  shows "s_pc t \<noteq> S_done \<and> \<not> unlinked t \<and> p \<le> 4 * N + 2 \<and>
    (s_pc t = S_join 0 \<or> sq_lost t \<or> (\<exists>u. sq_step N t u)) \<and>
    (\<exists>q u. run (sq_step N) no_env t q 0 u \<and> (s_pc u = S_join 0 \<or> sq_lost u)) \<and>
    (r_out t = [] \<longrightarrow> (\<exists>q u. run (sq_step N) no_env t q 0 u \<and> s_pc u = S_join 0)) \<and>
    (s_pc t = S_join 0 \<or> sq_lost t \<longrightarrow> (\<forall>u. \<not> sq_step N t u)) \<and>
    (s_pc t = S_join 0 \<and> s_out t = [] \<longrightarrow> s_i t = N)"
proof -
  have inv: "sq_inv N t" by (rule sq.inv_run [OF assms])
  note parts = sq_inv_parts [OF inv]
  have "sq_meas N s \<le> 4 * N + 2" using assms(1) by (auto simp: sq_init_def sq_meas_def)
  then have "p \<le> 4 * N + 2" using sq.run_bound [OF assms] by simp
  moreover obtain q u where u: "run (sq_step N) no_env t q 0 u" "sq_final u"
    using sqn.reaches_final_from [OF inv] by blast
  moreover have "s_pc u = S_join 0" if "r_out t = []"
  proof -
    have "r_pc t \<noteq> E_failed" using inv that by (simp add: sq_inv_def)
    then show ?thesis using u child_failed_run [OF u(1)] by (simp add: sq_final_def sq_lost_def)
  qed
  moreover have "s_pc t = S_join 0 \<or> sq_lost t \<longrightarrow> (\<forall>u. \<not> sq_step N t u)"
    using sq_final_stuck [OF inv] by (simp add: sq_final_def)
  moreover have "s_pc t = S_join 0 \<or> sq_lost t \<or> (\<exists>u. sq_step N t u)"
    using sq_progress [OF inv] by (auto simp: sq_final_def)
  moreover have "s_pc t \<noteq> S_done \<and> \<not> unlinked t \<and> (s_pc t = S_join 0 \<and> s_out t = [] \<longrightarrow> s_i t = N)"
    using parts(1,2,6) by auto
  ultimately show ?thesis unfolding sq_final_def by blast
qed

text \<open>A start state, and the run in which the child never gets a message.\<close>

definition sq_start :: "nat \<Rightarrow> sq_state" where
  "sq_start N = \<lparr>queue = [], unlinked = False, s_pc = (if 0 < N then S_send else S_after), s_i = 0,
     s_buf = ping_msg, s_out = [], r_pc = (if 0 < N then E_recv else E_exit), r_i = 0, r_buf = [],
     r_out = [], spinners = replicate LOADS (Spin 0 False)\<rparr>"

lemma sq_start_init: "sq_init N (sq_start N)"
  by (simp add: sq_init_def sq_start_def ping_msg_def cstr_def)

definition sq_hung :: sq_state where
  "sq_hung = (sq_start 1)\<lparr>s_pc := S_join 0, s_i := 1, r_pc := E_killed,
     spinners := [Spin 0 True, Spin 0 False, Spin 0 False]\<rparr>"

lemma sq_hung_run: "run (sq_step 1) sq_env (sq_start 1) 4 0 sq_hung"
proof -
  have "chain (sq_step 1) (sq_start 1)
    [(sq_start 1)\<lparr>queue := [ping_msg], s_pc := S_recv\<rparr>,
     (sq_start 1)\<lparr>s_pc := S_after, s_i := 1\<rparr>,
     (sq_start 1)\<lparr>s_pc := S_cancel 0, s_i := 1, r_pc := E_killed\<rparr>, sq_hung]"
    by (simp add: sq_step.simps sq_start_def sq_hung_def MQ_MAXMSG_def LOADS_def ping_msg_def
        sent_def received_def cstr_def numeral_3_eq_3)
  from chain_run [OF this, of sq_env] show ?thesis by (simp add: eval_nat_numeral)
qed

theorem single_queue_self_echo_witness:
  "\<exists>t. run (sq_step MQ_ITERATIONS) sq_env (sq_start MQ_ITERATIONS) (2 * 10000) 0 t \<and> s_i t = 10000 \<and>
     s_pc t = S_after \<and> r_i t = 0"
  using single_queue_self_echo [OF sq_start_init, of MQ_ITERATIONS 10000] by (auto simp: MQ_ITERATIONS_def)

theorem single_queue_never_ends_witness:
  "s_i sq_hung = 1 \<and> (\<forall>u. \<not> sq_step 1 sq_hung u) \<and> (4 :: nat) \<le> 4 * 1 + 2"
  using single_queue_never_ends [OF sq_start_init sq_hung_run] by (simp add: sq_hung_def sq_start_def)

text \<open>What the single-queue program prints: when it has come to its join, the message of a
  refused scheduling call, that of a failing queue call, and the largest time between the two
  readings of a round trip; the program has not ended.\<close>

theorem single_queue_reports:
  assumes "z_open e \<noteq> - 1" and "\<And>i. i < LOADS \<Longrightarrow> z_create e i = 0" and "0 \<le> z_fork e"
    and "s_pc s = S_join 0" and "parse_ipc pf a = Inr policy"
    and "\<And>i. i < s_i s \<Longrightarrow> ts_ok (l_start (z_latency e) i) \<and> ts_ok (l_end (z_latency e) i)"
  shows "sq_main pf e (a # as) s = (sq_sched_msg pf e policy @ s_out s @
    [Printf ''Max IPC round-trip latency (%s): %ld ns'' [VS (policy_name policy),
       VI (run_max (\<lambda>i. nanos (l_end (z_latency e) i) - nanos (l_start (z_latency e) i)) (s_i s))]],
    Unfinished)"
proof -
  have "for_upto (sq_spawn e) 0 LOADS () = Next ()"
    using for_upto_Next [of 0 LOADS "sq_spawn e" "\<lambda>_ s. s" "()"] assms(2) by (simp add: sq_spawn_def)
  then show ?thesis
    using assms max_latency_eq [of "s_i s" "z_latency e"] by (simp add: sq_main_def sq_run_def)
qed

theorem single_queue_reports_witness:
  "sq_main Linux \<lparr>z_open = 3, z_create = (\<lambda>_. 0), z_fork = 9, z_prio_max = (\<lambda>_. 99),
      z_setsched = (\<lambda>_ _. - 1),
      z_latency = \<lparr>l_start = (\<lambda>_. \<lparr>tv_sec = 0, tv_nsec = 5\<rparr>), l_end = (\<lambda>_. \<lparr>tv_sec = 0, tv_nsec = 8\<rparr>)\<rparr>\<rparr>
     [''fifo''] sq_hung =
   ([Perror ''sched_setscheduler'', Printf ''Max IPC round-trip latency (%s): %ld ns'' [VS ''FIFO'', VI 3]],
    Unfinished)"
  using single_queue_reports [of "\<lparr>z_open = 3, z_create = (\<lambda>_. 0), z_fork = 9, z_prio_max = (\<lambda>_. 99),
      z_setsched = (\<lambda>_ _. - 1),
      z_latency = \<lparr>l_start = (\<lambda>_. \<lparr>tv_sec = 0, tv_nsec = 5\<rparr>), l_end = (\<lambda>_. \<lparr>tv_sec = 0, tv_nsec = 8\<rparr>)\<rparr>\<rparr>"
      sq_hung Linux "''fifo''" SCHED_FIFO "[]"]
  by (simp add: sq_hung_def sq_start_def ts_ok_def nanos_def NSEC_PER_SEC_def parse_ipc_def
      policy_name_def run_max_Suc sq_sched_msg_def)

end
