(* ===== verification/PriorityInversion.thy ===== *)
theory PriorityInversion
  imports Machines CTime Sched
begin

text \<open>
  \<open>src/scheduling/priority/linux_priority_inversion.c\<close> and \<open>qnx_priority_inversion.c\<close>: a
  low-priority thread holds a mutex, a medium one only burns time, and a high one measures
  how long it waits for the mutex. Each program is a step relation over the places of its
  threads, its semaphores, the mutex and a clock that only moves forward; reading the clock
  is a step of its own. The Linux program sets the scheduling parameters of its threads
  explicitly and pins them to one CPU, so a thread moves only if no runnable thread has a
  higher priority; the QNX threads run in any order.
\<close>

section \<open>The threads\<close>

datatype task = Low | Med | High

datatype low_pc = L_sem | L_lock | L_post | L_t0 | L_spin "64 word" | L_unlock | L_end

datatype med_pc = M_sem | M_t0 | M_spin "64 word" | M_end

datatype high_pc =
  H_sem | H_post | H_t0 | H_lock "64 word" | H_t1 "64 word" | H_print "64 word" "64 word" |
  H_unlock | H_done | H_end

definition HOLD_NS :: "64 word" where "HOLD_NS = 50 * 1000000"
definition MED_NS :: "64 word" where "MED_NS = 200 * 1000000"

definition waited_ms :: "64 word \<Rightarrow> 64 word \<Rightarrow> 64 word" where
  "waited_ms t0 t1 = (t1 - t0) div 1000000"

section \<open>The Linux program\<close>

datatype li_pc = Post_low | Post_med | Post_high | Join_high | Left

record li_state =
  clock :: "64 word"
  sem_low_start :: nat
  sem_med_start :: nat
  sem_high_start :: nat
  mutex :: "task option"
  low :: low_pc
  med :: med_pc
  high :: high_pc
  li_main :: li_pc
  li_out :: "out list"

text \<open>
  After the calls of \<open>pthread_create\<close>, whose results main ignores: low and med may not exist,
  which is as if they had ended. (Without high main does not get through its join, see
  \<open>li_program\<close>.)
\<close>

definition li_init :: "li_state \<Rightarrow> bool" where
  "li_init s \<longleftrightarrow> sem_low_start s = 0 \<and> sem_med_start s = 0 \<and> sem_high_start s = 0 \<and>
     mutex s = None \<and> low s \<in> {L_sem, L_end} \<and> med s \<in> {M_sem, M_end} \<and> high s = H_sem \<and>
     li_main s = Post_low \<and> li_out s = []"

text \<open>
  The priorities of the attributes, and which thread could run; the return from main ends
  all threads.
\<close>

fun li_prio :: "int \<Rightarrow> task \<Rightarrow> int" where
  "li_prio prio_max Low = prio_max - 2"
| "li_prio prio_max Med = prio_max - 1"
| "li_prio prio_max High = prio_max"

fun runnable :: "li_state \<Rightarrow> task \<Rightarrow> bool" where
  "runnable s Low = (case low s of
     L_sem \<Rightarrow> 0 < sem_low_start s | L_lock \<Rightarrow> mutex s = None | L_end \<Rightarrow> False | _ \<Rightarrow> True)"
| "runnable s Med = (case med s of M_sem \<Rightarrow> 0 < sem_med_start s | M_end \<Rightarrow> False | _ \<Rightarrow> True)"
| "runnable s High = (case high s of
     H_sem \<Rightarrow> 0 < sem_high_start s | H_lock t \<Rightarrow> mutex s = None | H_end \<Rightarrow> False | _ \<Rightarrow> True)"

definition on_cpu :: "int \<Rightarrow> li_state \<Rightarrow> task \<Rightarrow> bool" where
  "on_cpu prio_max s x \<longleftrightarrow> li_main s \<noteq> Left \<and> runnable s x \<and>
     (\<forall>y \<in> {Low, Med, High}. runnable s y \<longrightarrow> li_prio prio_max y \<le> li_prio prio_max x)"

definition li_print :: "policy \<Rightarrow> 64 word \<Rightarrow> 64 word \<Rightarrow> out" where
  "li_print policy t0 t1 = Printf ''Linux (%s): high waited = %llu ms''
     [VS (if policy = SCHED_FIFO then ''FIFO'' else if policy = SCHED_RR then ''RR'' else ''UNKNOWN''),
      VU (waited_ms t0 t1)]"

inductive li_step :: "policy \<Rightarrow> int \<Rightarrow> li_state \<Rightarrow> li_state \<Rightarrow> bool" for policy prio_max where
  low_start: "on_cpu prio_max s Low \<Longrightarrow> low s = L_sem \<Longrightarrow> 0 < sem_low_start s \<Longrightarrow>
    li_step policy prio_max s (s\<lparr>sem_low_start := sem_low_start s - 1, low := L_lock\<rparr>)"
| low_lock: "on_cpu prio_max s Low \<Longrightarrow> low s = L_lock \<Longrightarrow> mutex s = None \<Longrightarrow>
    li_step policy prio_max s (s\<lparr>mutex := Some Low, low := L_t0\<rparr>)"
| low_t0: "on_cpu prio_max s Low \<Longrightarrow> low s = L_t0 \<Longrightarrow>
    li_step policy prio_max s (s\<lparr>low := L_spin (clock s)\<rparr>)"
| low_spun: "on_cpu prio_max s Low \<Longrightarrow> low s = L_spin t \<Longrightarrow> \<not> clock s - t < HOLD_NS \<Longrightarrow>
    li_step policy prio_max s (s\<lparr>low := L_unlock\<rparr>)"
| low_unlock: "on_cpu prio_max s Low \<Longrightarrow> low s = L_unlock \<Longrightarrow>
    li_step policy prio_max s (s\<lparr>mutex := None, low := L_end\<rparr>)"
| med_start: "on_cpu prio_max s Med \<Longrightarrow> med s = M_sem \<Longrightarrow> 0 < sem_med_start s \<Longrightarrow>
    li_step policy prio_max s (s\<lparr>sem_med_start := sem_med_start s - 1, med := M_t0\<rparr>)"
| med_t0: "on_cpu prio_max s Med \<Longrightarrow> med s = M_t0 \<Longrightarrow>
    li_step policy prio_max s (s\<lparr>med := M_spin (clock s)\<rparr>)"
| med_spun: "on_cpu prio_max s Med \<Longrightarrow> med s = M_spin t \<Longrightarrow> \<not> clock s - t < MED_NS \<Longrightarrow>
    li_step policy prio_max s (s\<lparr>med := M_end\<rparr>)"
| high_start: "on_cpu prio_max s High \<Longrightarrow> high s = H_sem \<Longrightarrow> 0 < sem_high_start s \<Longrightarrow>
    li_step policy prio_max s (s\<lparr>sem_high_start := sem_high_start s - 1, high := H_t0\<rparr>)"
| high_t0: "on_cpu prio_max s High \<Longrightarrow> high s = H_t0 \<Longrightarrow>
    li_step policy prio_max s (s\<lparr>high := H_lock (clock s)\<rparr>)"
| high_lock: "on_cpu prio_max s High \<Longrightarrow> high s = H_lock t0 \<Longrightarrow> mutex s = None \<Longrightarrow>
    li_step policy prio_max s (s\<lparr>mutex := Some High, high := H_t1 t0\<rparr>)"
| high_t1: "on_cpu prio_max s High \<Longrightarrow> high s = H_t1 t0 \<Longrightarrow>
    li_step policy prio_max s (s\<lparr>high := H_print t0 (clock s)\<rparr>)"
| high_print: "on_cpu prio_max s High \<Longrightarrow> high s = H_print t0 t1 \<Longrightarrow>
    li_step policy prio_max s (s\<lparr>high := H_unlock, li_out := [li_print policy t0 t1]\<rparr>)"
| high_unlock: "on_cpu prio_max s High \<Longrightarrow> high s = H_unlock \<Longrightarrow>
    li_step policy prio_max s (s\<lparr>mutex := None, high := H_end\<rparr>)"
| post_low: "li_main s = Post_low \<Longrightarrow>
    li_step policy prio_max s (s\<lparr>sem_low_start := Suc (sem_low_start s), li_main := Post_med\<rparr>)"
| post_med: "li_main s = Post_med \<Longrightarrow>
    li_step policy prio_max s (s\<lparr>sem_med_start := Suc (sem_med_start s), li_main := Post_high\<rparr>)"
| post_high: "li_main s = Post_high \<Longrightarrow>
    li_step policy prio_max s (s\<lparr>sem_high_start := Suc (sem_high_start s), li_main := Join_high\<rparr>)"
| join_high: "li_main s = Join_high \<Longrightarrow> high s = H_end \<Longrightarrow>
    li_step policy prio_max s (s\<lparr>li_main := Left\<rparr>)"

text \<open>Time passes; the clock does not wrap around.\<close>

inductive li_tick :: "li_state \<Rightarrow> li_state \<Rightarrow> bool" where
  tick: "clock s \<le> c \<Longrightarrow> li_tick s (s\<lparr>clock := c\<rparr>)"

text \<open>
  The holder of the mutex, what main has printed, and the order of the readings. Main holds
  its own priority throughout, so its posts need no CPU rule.
\<close>

definition low_in :: "low_pc \<Rightarrow> bool" where
  "low_in c \<longleftrightarrow> c = L_t0 \<or> c = L_unlock \<or> (\<exists>t. c = L_spin t)"

definition high_in :: "high_pc \<Rightarrow> bool" where
  "high_in c \<longleftrightarrow> c = H_unlock \<or> (\<exists>t. c = H_t1 t) \<or> (\<exists>t u. c = H_print t u)"

definition li_inv :: "li_state \<Rightarrow> bool" where
  "li_inv s \<longleftrightarrow> (mutex s = Some Low \<longleftrightarrow> low_in (low s)) \<and> (mutex s = Some High \<longleftrightarrow> high_in (high s)) \<and>
     mutex s \<noteq> Some Med \<and>
     (\<forall>t. high s = H_lock t \<or> high s = H_t1 t \<longrightarrow> t \<le> clock s) \<and>
     (\<forall>t u. high s = H_print t u \<longrightarrow> t \<le> u \<and> u \<le> clock s) \<and>
     (\<forall>t. med s = M_spin t \<longrightarrow> t \<le> clock s) \<and>
     (li_out s = [] \<longleftrightarrow> high s \<noteq> H_unlock \<and> high s \<noteq> H_end) \<and>
     (li_main s = Left \<longrightarrow> high s = H_end) \<and> high s \<noteq> H_post \<and> high s \<noteq> H_done \<and> low s \<noteq> L_post"

lemma li_inv_init: "li_init s \<Longrightarrow> li_inv s"
  by (auto simp: li_init_def li_inv_def low_in_def high_in_def)

lemma li_inv_step:
  assumes inv: "li_inv s" and step: "li_step policy prio_max s t"
  shows "li_inv t"
  using step
  by (cases rule: li_step.cases) (use inv in \<open>auto simp: li_inv_def low_in_def high_in_def\<close>)

lemma li_inv_tick: "li_inv s \<Longrightarrow> li_tick s t \<Longrightarrow> li_inv t"
  by (erule li_tick.cases) (auto simp: li_inv_def intro: order_trans)

interpretation li: invariant_system li_init "li_step policy prio_max" li_tick li_inv
  for policy prio_max
  by unfold_locales (rule li_inv_init li_inv_step li_inv_tick; assumption)+

section \<open>The QNX program\<close>

datatype qn_pc = Create_low | Wait_low | Create_high | Wait_ready | Create_med | Wait_done | Q_left

text \<open>A thread that main has not created yet has no place.\<close>

record qn_state =
  qclock :: "64 word"
  low_locked :: nat
  high_ready :: nat
  high_done :: nat
  qmutex :: "task option"
  qlow :: "low_pc option"
  qmed :: "med_pc option"
  qhigh :: "high_pc option"
  qmain :: qn_pc
  qn_out :: "out list"

definition qn_init :: "qn_state \<Rightarrow> bool" where
  "qn_init s \<longleftrightarrow> low_locked s = 0 \<and> high_ready s = 0 \<and> high_done s = 0 \<and> qmutex s = None \<and>
     qlow s = None \<and> qmed s = None \<and> qhigh s = None \<and> qmain s = Create_low \<and> qn_out s = []"

definition qn_print :: "policy \<Rightarrow> 64 word \<Rightarrow> 64 word \<Rightarrow> out" where
  "qn_print policy t0 t1 = Printf ''QNX (%s): high waited = %llu ms''
     [VS (policy_name policy), VU (waited_ms t0 t1)]"

text \<open>The return from main ends the other threads.\<close>

abbreviation (input) alive :: "qn_state \<Rightarrow> bool" where
  "alive s \<equiv> qmain s \<noteq> Q_left"

inductive qn_step :: "policy \<Rightarrow> qn_state \<Rightarrow> qn_state \<Rightarrow> bool" for policy where
  q_low_lock: "alive s \<Longrightarrow> qlow s = Some L_lock \<Longrightarrow> qmutex s = None \<Longrightarrow>
    qn_step policy s (s\<lparr>qmutex := Some Low, qlow := Some L_post\<rparr>)"
| q_low_post: "alive s \<Longrightarrow> qlow s = Some L_post \<Longrightarrow>
    qn_step policy s (s\<lparr>low_locked := Suc (low_locked s), qlow := Some L_t0\<rparr>)"
| q_low_t0: "alive s \<Longrightarrow> qlow s = Some L_t0 \<Longrightarrow> qn_step policy s (s\<lparr>qlow := Some (L_spin (qclock s))\<rparr>)"
| q_low_spun: "alive s \<Longrightarrow> qlow s = Some (L_spin t) \<Longrightarrow> \<not> qclock s - t < HOLD_NS \<Longrightarrow>
    qn_step policy s (s\<lparr>qlow := Some L_unlock\<rparr>)"
| q_low_unlock: "alive s \<Longrightarrow> qlow s = Some L_unlock \<Longrightarrow>
    qn_step policy s (s\<lparr>qmutex := None, qlow := Some L_end\<rparr>)"
| q_med_t0: "alive s \<Longrightarrow> qmed s = Some M_t0 \<Longrightarrow> qn_step policy s (s\<lparr>qmed := Some (M_spin (qclock s))\<rparr>)"
| q_med_spun: "alive s \<Longrightarrow> qmed s = Some (M_spin t) \<Longrightarrow> \<not> qclock s - t < MED_NS \<Longrightarrow>
    qn_step policy s (s\<lparr>qmed := Some M_end\<rparr>)"
| q_high_post: "alive s \<Longrightarrow> qhigh s = Some H_post \<Longrightarrow>
    qn_step policy s (s\<lparr>high_ready := Suc (high_ready s), qhigh := Some H_t0\<rparr>)"
| q_high_t0: "alive s \<Longrightarrow> qhigh s = Some H_t0 \<Longrightarrow> qn_step policy s (s\<lparr>qhigh := Some (H_lock (qclock s))\<rparr>)"
| q_high_lock: "alive s \<Longrightarrow> qhigh s = Some (H_lock t0) \<Longrightarrow> qmutex s = None \<Longrightarrow>
    qn_step policy s (s\<lparr>qmutex := Some High, qhigh := Some (H_t1 t0)\<rparr>)"
| q_high_t1: "alive s \<Longrightarrow> qhigh s = Some (H_t1 t0) \<Longrightarrow>
    qn_step policy s (s\<lparr>qhigh := Some (H_print t0 (qclock s))\<rparr>)"
| q_high_print: "alive s \<Longrightarrow> qhigh s = Some (H_print t0 t1) \<Longrightarrow>
    qn_step policy s (s\<lparr>qhigh := Some H_unlock, qn_out := [qn_print policy t0 t1]\<rparr>)"
| q_high_unlock: "alive s \<Longrightarrow> qhigh s = Some H_unlock \<Longrightarrow>
    qn_step policy s (s\<lparr>qmutex := None, qhigh := Some H_done\<rparr>)"
| q_high_done: "alive s \<Longrightarrow> qhigh s = Some H_done \<Longrightarrow>
    qn_step policy s (s\<lparr>high_done := Suc (high_done s), qhigh := Some H_end\<rparr>)"
| create_low: "qmain s = Create_low \<Longrightarrow> qn_step policy s (s\<lparr>qlow := Some L_lock, qmain := Wait_low\<rparr>)"
| wait_low: "qmain s = Wait_low \<Longrightarrow> 0 < low_locked s \<Longrightarrow>
    qn_step policy s (s\<lparr>low_locked := low_locked s - 1, qmain := Create_high\<rparr>)"
| create_high: "qmain s = Create_high \<Longrightarrow> qn_step policy s (s\<lparr>qhigh := Some H_post, qmain := Wait_ready\<rparr>)"
| wait_ready: "qmain s = Wait_ready \<Longrightarrow> 0 < high_ready s \<Longrightarrow>
    qn_step policy s (s\<lparr>high_ready := high_ready s - 1, qmain := Create_med\<rparr>)"
| create_med: "qmain s = Create_med \<Longrightarrow> qn_step policy s (s\<lparr>qmed := Some M_t0, qmain := Wait_done\<rparr>)"
| wait_done: "qmain s = Wait_done \<Longrightarrow> 0 < high_done s \<Longrightarrow>
    qn_step policy s (s\<lparr>high_done := high_done s - 1, qmain := Q_left\<rparr>)"

inductive qn_tick :: "qn_state \<Rightarrow> qn_state \<Rightarrow> bool" where
  q_tick: "qclock s \<le> c \<Longrightarrow> qn_tick s (s\<lparr>qclock := c\<rparr>)"

text \<open>
  Where each thread can be relative to main's waits: main has created low from \<open>Wait_low\<close>
  on, low has locked and posted from \<open>Create_high\<close> on, and so forth.
\<close>

fun low_posted :: "low_pc option \<Rightarrow> bool" where
  "low_posted None = False"
| "low_posted (Some c) = (case c of L_t0 \<Rightarrow> True | L_spin t \<Rightarrow> True | L_unlock \<Rightarrow> True | L_end \<Rightarrow> True | _ \<Rightarrow> False)"

fun low_inside :: "low_pc option \<Rightarrow> bool" where
  "low_inside None = False"
| "low_inside (Some c) = (case c of L_post \<Rightarrow> True | L_t0 \<Rightarrow> True | L_spin t \<Rightarrow> True | L_unlock \<Rightarrow> True | _ \<Rightarrow> False)"

fun high_posted :: "high_pc option \<Rightarrow> bool" where
  "high_posted None = False"
| "high_posted (Some c) = (case c of H_sem \<Rightarrow> False | H_post \<Rightarrow> False | _ \<Rightarrow> True)"

fun high_inside :: "high_pc option \<Rightarrow> bool" where
  "high_inside None = False"
| "high_inside (Some c) = (case c of H_t1 t \<Rightarrow> True | H_print t u \<Rightarrow> True | H_unlock \<Rightarrow> True | _ \<Rightarrow> False)"

fun high_printed :: "high_pc option \<Rightarrow> bool" where
  "high_printed None = False"
| "high_printed (Some c) = (case c of H_unlock \<Rightarrow> True | H_done \<Rightarrow> True | H_end \<Rightarrow> True | _ \<Rightarrow> False)"

fun main_past :: "qn_pc \<Rightarrow> nat" where
  "main_past Create_low = 0"
| "main_past Wait_low = 1"
| "main_past Create_high = 2"
| "main_past Wait_ready = 3"
| "main_past Create_med = 4"
| "main_past Wait_done = 5"
| "main_past Q_left = 6"

definition qn_low_inv :: "qn_state \<Rightarrow> bool" where
  "qn_low_inv s \<longleftrightarrow> (qlow s = None \<longleftrightarrow> main_past (qmain s) = 0) \<and> qlow s \<noteq> Some L_sem \<and>
     low_locked s = (if low_posted (qlow s) \<and> main_past (qmain s) < 2 then 1 else 0) \<and>
     (2 \<le> main_past (qmain s) \<longrightarrow> low_posted (qlow s)) \<and>
     (\<forall>t. qlow s = Some (L_spin t) \<longrightarrow> t \<le> qclock s)"

definition qn_high_inv :: "qn_state \<Rightarrow> bool" where
  "qn_high_inv s \<longleftrightarrow> (qhigh s = None \<longleftrightarrow> main_past (qmain s) < 3) \<and> qhigh s \<noteq> Some H_sem \<and>
     high_ready s = (if high_posted (qhigh s) \<and> main_past (qmain s) < 4 then 1 else 0) \<and>
     (4 \<le> main_past (qmain s) \<longrightarrow> high_posted (qhigh s)) \<and>
     high_done s = (if qhigh s = Some H_end \<and> main_past (qmain s) < 6 then 1 else 0) \<and>
     (6 \<le> main_past (qmain s) \<longrightarrow> qhigh s = Some H_end) \<and>
     (qn_out s \<noteq> [] \<longleftrightarrow> high_printed (qhigh s)) \<and>
     (\<forall>t. qhigh s = Some (H_lock t) \<longrightarrow> t \<le> qclock s)"

definition qn_mutex_inv :: "qn_state \<Rightarrow> bool" where
  "qn_mutex_inv s \<longleftrightarrow> (qmutex s = Some Low \<longleftrightarrow> low_inside (qlow s)) \<and>
     (qmutex s = Some High \<longleftrightarrow> high_inside (qhigh s)) \<and> qmutex s \<noteq> Some Med \<and>
     (high_inside (qhigh s) \<or> high_printed (qhigh s) \<longrightarrow> qlow s = Some L_end)"

definition qn_inv :: "qn_state \<Rightarrow> bool" where
  "qn_inv s \<longleftrightarrow> qn_low_inv s \<and> qn_high_inv s \<and> qn_mutex_inv s"

lemmas qn_defs = qn_low_inv_def qn_high_inv_def qn_mutex_inv_def

lemma qn_inv_init: "qn_init s \<Longrightarrow> qn_inv s"
  by (simp add: qn_init_def qn_inv_def qn_defs)

lemma qn_low_inv_step: "qn_step policy s t \<Longrightarrow> qn_low_inv s \<Longrightarrow> qn_low_inv t"
  by (cases rule: qn_step.cases, assumption) (simp_all add: qn_low_inv_def split: if_splits)

lemma qn_high_inv_step: "qn_step policy s t \<Longrightarrow> qn_high_inv s \<Longrightarrow> qn_high_inv t"
  by (cases rule: qn_step.cases, assumption) (simp_all add: qn_high_inv_def split: if_splits)

lemma low_done: "low_posted c \<Longrightarrow> \<not> low_inside c \<Longrightarrow> c = Some L_end"
  by (cases c) (auto split: low_pc.splits)

lemma qn_mutex_inv_step:
  "qn_step policy s t \<Longrightarrow> qn_low_inv s \<Longrightarrow> qn_high_inv s \<Longrightarrow> qn_mutex_inv s \<Longrightarrow> qn_mutex_inv t"
  by (cases rule: qn_step.cases, assumption) (auto simp: qn_defs intro: low_done)

lemma qn_inv_step: "qn_inv s \<Longrightarrow> qn_step policy s t \<Longrightarrow> qn_inv t"
  using qn_low_inv_step qn_high_inv_step qn_mutex_inv_step unfolding qn_inv_def by blast

lemma qn_inv_tick: "qn_inv s \<Longrightarrow> qn_tick s t \<Longrightarrow> qn_inv t"
proof (erule qn_tick.cases)
  fix s' :: qn_state and c
  assume "qn_inv s" "s = s'" "t = s'\<lparr>qclock := c\<rparr>" "qclock s' \<le> c"
  moreover from this have "x \<le> c" if "x \<le> qclock s" for x
    using that by (meson order_trans)
  ultimately show ?thesis by (simp add: qn_inv_def qn_defs)
qed

interpretation qn: invariant_system qn_init "qn_step policy" qn_tick qn_inv
  for policy
  by unfold_locales (rule qn_inv_init qn_inv_step qn_inv_tick; assumption)+

section \<open>Waiting on Linux\<close>

lemma word_since_mono:
  fixes m :: "64 word"
  assumes "m \<le> c" "c \<le> c'"
  shows "c - m \<le> c' - m"
proof -
  have "uint m \<le> uint c" "uint c \<le> uint c'" using assms by (simp_all add: word_le_def)
  then have "uint (c - m) = uint c - uint m" "uint (c' - m) = uint c' - uint m"
    by (auto intro: uint_minus_u64)
  with \<open>uint c \<le> uint c'\<close> show ?thesis by (simp add: word_le_def)
qed

text \<open>
  \<open>since x m c\<close>: by the time \<open>c\<close> at least \<open>x\<close> nanoseconds have gone by since \<open>m\<close>.
\<close>

definition since :: "64 word \<Rightarrow> 64 word \<Rightarrow> 64 word \<Rightarrow> bool" where
  "since x m c \<longleftrightarrow> m \<le> c \<and> x \<le> c - m"

lemma since_mono: "since x m c \<Longrightarrow> c \<le> c' \<Longrightarrow> since x m c'"
  using word_since_mono by (auto simp: since_def intro: order_trans)

text \<open>High waits behind low, which med keeps off the CPU; or med's time is over.\<close>

definition li_behind :: "policy \<Rightarrow> 64 word \<Rightarrow> 64 word \<Rightarrow> li_state \<Rightarrow> bool" where
  "li_behind policy t0 m s \<longleftrightarrow>
     high s = H_lock t0 \<and> mutex s = Some Low \<and> med s = M_spin m \<and> m \<le> clock s \<or>
     since MED_NS m (clock s) \<and>
       (high s = H_lock t0 \<or> high s = H_t1 t0 \<or>
        (\<exists>t1. since MED_NS m t1 \<and> (high s = H_print t0 t1 \<or>
           (high s = H_unlock \<or> high s = H_end) \<and> li_out s = [li_print policy t0 t1])))"

lemma med_keeps_low_off: "med s = M_spin m \<Longrightarrow> \<not> on_cpu prio_max s Low"
  by (auto simp: on_cpu_def)

lemma li_behind_step:
  "li_step policy prio_max s t \<Longrightarrow> li_behind policy t0 m s \<Longrightarrow> li_behind policy t0 m t"
  by (cases rule: li_step.cases, assumption)
    (auto simp: li_behind_def since_def not_less dest: med_keeps_low_off)

lemma li_behind_tick: "li_tick s t \<Longrightarrow> li_behind policy t0 m s \<Longrightarrow> li_behind policy t0 m t"
  by (cases rule: li_tick.cases, assumption)
    (auto simp: li_behind_def intro: since_mono order_trans)

lemma li_behind_run:
  "run (li_step policy prio_max) li_tick s p e t \<Longrightarrow> li_behind policy t0 m s \<Longrightarrow> li_behind policy t0 m t"
  by (induction rule: run.induct) (blast intro: li_behind_step li_behind_tick)+

section \<open>Waiting on QNX\<close>

definition qn_behind :: "policy \<Rightarrow> 64 word \<Rightarrow> qn_state \<Rightarrow> bool" where
  "qn_behind policy m s \<longleftrightarrow>
     qlow s = Some (L_spin m) \<or>
     since HOLD_NS m (qclock s) \<and> (qlow s = Some L_unlock \<or> qlow s = Some L_end) \<and>
       (\<not> high_inside (qhigh s) \<and> \<not> high_printed (qhigh s) \<or> (\<exists>t0. qhigh s = Some (H_t1 t0)) \<or>
        (\<exists>t0 t1. since HOLD_NS m t1 \<and> (qhigh s = Some (H_print t0 t1) \<or>
           high_printed (qhigh s) \<and> qn_out s = [qn_print policy t0 t1])))"

lemma qn_behind_step:
  assumes inv: "qn_inv s" and step: "qn_step policy s t" and behind: "qn_behind policy m s"
  shows "qn_behind policy m t"
proof -
  have low: "\<And>x. qlow s = Some (L_spin x) \<Longrightarrow> x \<le> qclock s"
    and mtx: "high_inside (qhigh s) \<or> high_printed (qhigh s) \<Longrightarrow> qlow s = Some L_end"
    and started: "qmain s = Create_low \<Longrightarrow> qlow s = None" "qmain s = Create_high \<Longrightarrow> qhigh s = None"
    using inv by (auto simp: qn_inv_def qn_defs)
  from step show ?thesis
    by (cases rule: qn_step.cases)
      (use behind low mtx started in \<open>auto simp: qn_behind_def since_def not_less\<close>)
qed

lemma qn_behind_tick: "qn_tick s t \<Longrightarrow> qn_behind policy m s \<Longrightarrow> qn_behind policy m t"
  by (cases rule: qn_tick.cases, assumption) (auto simp: qn_behind_def intro: since_mono)

lemma qn_behind_run:
  "run (qn_step policy) qn_tick s p e t \<Longrightarrow> qn_inv s \<Longrightarrow> qn_behind policy m s \<Longrightarrow> qn_behind policy m t"
proof (induction rule: run.induct)
  case (run_step s p e t u)
  then show ?case by (blast intro: qn_behind_step qn.inv_run_from)
next
  case (run_env s p e t u)
  then show ?case by (blast intro: qn_behind_tick)
qed

text \<open>
  From high's first reading \<open>t0\<close> on, what it will print is settled by the time it gets the mutex,
  and low's 50 milliseconds are over by then.
\<close>

definition qn_measures :: "policy \<Rightarrow> 64 word \<Rightarrow> 64 word \<Rightarrow> qn_state \<Rightarrow> bool" where
  "qn_measures policy m t0 s \<longleftrightarrow> t0 \<le> qclock s \<and>
     (qhigh s = Some (H_lock t0) \<and> qn_behind policy m s \<or>
      since HOLD_NS m (qclock s) \<and> qhigh s = Some (H_t1 t0) \<or>
      (\<exists>t1. since HOLD_NS m t1 \<and> t0 \<le> t1 \<and> (qhigh s = Some (H_print t0 t1) \<or>
         high_printed (qhigh s) \<and> qn_out s = [qn_print policy t0 t1])))"

lemma qn_measures_step:
  assumes inv: "qn_inv s" and step: "qn_step policy s t" and m: "qn_measures policy m t0 s"
  shows "qn_measures policy m t0 t"
proof -
  have started: "qmain s = Create_high \<Longrightarrow> qhigh s = None"
    and free: "qmutex s = None \<Longrightarrow> \<not> low_inside (qlow s)"
    using inv by (auto simp: qn_inv_def qn_defs)
  have behind: "qhigh s = Some (H_lock t0) \<Longrightarrow> qn_behind policy m t"
    using m qn_behind_step [OF inv step] by (auto simp: qn_measures_def)
  from step show ?thesis
    by (cases rule: qn_step.cases)
      (use m behind started free in \<open>auto simp: qn_measures_def qn_behind_def\<close>)
qed

lemma qn_measures_tick:
  assumes tick: "qn_tick s t" and m: "qn_measures policy m t0 s"
  shows "qn_measures policy m t0 t"
proof -
  have "qn_behind policy m s \<Longrightarrow> qn_behind policy m t" by (rule qn_behind_tick [OF tick])
  with tick m show ?thesis
    by (cases rule: qn_tick.cases) (auto simp: qn_measures_def intro: since_mono order_trans)
qed

lemma qn_measures_run:
  "run (qn_step policy) qn_tick s p e t \<Longrightarrow> qn_inv s \<Longrightarrow> qn_measures policy m t0 s \<Longrightarrow> qn_measures policy m t0 t"
proof (induction rule: run.induct)
  case (run_step s p e t u)
  then show ?case by (blast intro: qn_measures_step qn.inv_run_from)
next
  case (run_env s p e t u)
  then show ?case by (blast intro: qn_measures_tick)
qed

text \<open>What the printed number says about the two readings.\<close>

lemma waited_ms_bound:
  assumes "since HOLD_NS m t1" and "t0 \<le> t1"
  shows "uint m + 50000000 < uint t0 + 1000000 * (uint (waited_ms t0 t1) + 1)"
proof -
  have le: "uint m \<le> uint t1" "uint t0 \<le> uint t1" using assms by (simp_all add: since_def word_le_def)
  then have minus: "uint (t1 - m) = uint t1 - uint m" "uint (t1 - t0) = uint t1 - uint t0"
    by (auto intro: uint_minus_u64)
  have "uint HOLD_NS \<le> uint (t1 - m)" using assms(1) by (simp add: since_def word_le_def)
  then have "50000000 \<le> uint t1 - uint m" by (simp add: minus HOLD_NS_def)
  moreover have "uint (waited_ms t0 t1) = (uint t1 - uint t0) div 1000000"
    unfolding waited_ms_def uint_div minus by simp
  ultimately show ?thesis by simp
qed

definition low_spinning :: "qn_state \<Rightarrow> bool" where
  "low_spinning s \<longleftrightarrow> (\<exists>m. qlow s = Some (L_spin m) \<and> qclock s - m < HOLD_NS)"

lemma low_inside_moves:
  assumes "qmain s \<noteq> Q_left" and "low_inside (qlow s)"
  shows "low_spinning s \<or> (\<exists>t. qn_step policy s t)"
proof -
  obtain c where c: "qlow s = Some c" using assms(2) by (cases "qlow s") auto
  show ?thesis
    using assms c qn_step.q_low_post [of s policy] qn_step.q_low_t0 [of s policy]
      qn_step.q_low_spun [of s _ policy] qn_step.q_low_unlock [of s policy]
    by (cases c) (auto simp: low_spinning_def)
qed

lemma high_moves:
  assumes inv: "qn_inv s" and "qmain s \<noteq> Q_left" and "qhigh s = Some c" "c \<noteq> H_end"
  shows "low_spinning s \<or> (\<exists>t. qn_step policy s t)"
proof (cases c)
  case (H_lock t0)
  show ?thesis
  proof (cases "qmutex s")
    case None
    with assms H_lock show ?thesis by (blast intro: qn_step.q_high_lock)
  next
    case (Some x)
    with inv assms(3) H_lock have "low_inside (qlow s)"
      by (cases x) (auto simp: qn_inv_def qn_mutex_inv_def)
    with assms(2) show ?thesis by (rule low_inside_moves)
  qed
next
  case H_sem
  with inv assms(3) show ?thesis by (simp add: qn_inv_def qn_high_inv_def)
qed (use assms in \<open>auto intro: qn_step.intros\<close>)

lemma qn_progress:
  assumes inv: "qn_inv s" and main: "qmain s \<noteq> Q_left"
  shows "low_spinning s \<or> (\<exists>t. qn_step policy s t)"
proof (cases "qmain s")
  case Wait_low
  then have high: "qhigh s = None" and low: "qlow s \<noteq> None" "qlow s \<noteq> Some L_sem"
    "low_locked s = (if low_posted (qlow s) then 1 else 0)"
    using inv by (auto simp: qn_inv_def qn_low_inv_def qn_high_inv_def)
  show ?thesis
  proof (cases "qlow s = Some L_lock")
    case True
    then have "qmutex s = None"
      using inv high by (cases "qmutex s"; cases "the (qmutex s)") (auto simp: qn_inv_def qn_mutex_inv_def)
    with True main show ?thesis by (blast intro: qn_step.q_low_lock)
  next
    case False
    show ?thesis
    proof (cases "low_posted (qlow s)")
      case True
      with Wait_low low show ?thesis using qn_step.wait_low [of s policy] by auto
    next
      case not_posted: False
      then have "qlow s = Some L_post"
        using low False by (cases "qlow s") (auto split: low_pc.splits)
      with main show ?thesis by (blast intro: qn_step.q_low_post)
    qed
  qed
next
  case Wait_ready
  then have "qhigh s \<noteq> None" "high_ready s = (if high_posted (qhigh s) then 1 else 0)"
    using inv by (auto simp: qn_inv_def qn_high_inv_def)
  moreover have "low_spinning s \<or> (\<exists>t. qn_step policy s t)" if "\<not> high_posted (qhigh s)"
    using high_moves [OF inv main, of _ policy] that calculation(1) by (cases "qhigh s") (auto split: high_pc.splits)
  ultimately show ?thesis using Wait_ready qn_step.wait_ready [of s policy] by (cases "high_posted (qhigh s)") auto
next
  case Wait_done
  then have "qhigh s \<noteq> None" "high_done s = (if qhigh s = Some H_end then 1 else 0)"
    using inv by (auto simp: qn_inv_def qn_high_inv_def)
  then show ?thesis
    using Wait_done high_moves [OF inv main, of _ policy] qn_step.wait_done [of s policy]
    by (cases "qhigh s = Some H_end") auto
qed (use main in \<open>auto intro: qn_step.intros\<close>)

section \<open>The programs\<close>

text \<open>
  \<open>li_env\<close>: the results of the priority query, of main's own scheduling call, and of the
  creation of each thread. If high is not created, \<open>pthread_join\<close> is called with a variable
  that was never written.
\<close>

record li_env =
  li_prio_max :: "policy \<Rightarrow> int"
  li_setsched :: "policy \<Rightarrow> int \<Rightarrow> int"
  li_create :: "task \<Rightarrow> int"

definition li_program :: "li_env \<Rightarrow> string \<Rightarrow> string list \<Rightarrow> li_state \<Rightarrow> outcome" where
  "li_program e prog args s = (case args of
     [] \<Rightarrow> die (Eprintf ''Usage: %s [fifo|rr]'' [VS prog])
   | a # _ \<Rightarrow> (case parse_linux_priority a of
       Inl m \<Rightarrow> die m
     | Inr policy \<Rightarrow>
         say_all (if li_setsched e policy (li_prio_max e policy) \<noteq> 0
                  then [Perror ''setschedparam(main)''] else [])
           (if li_create e High \<noteq> 0 then ([], if li_main s = Join_high then Undef else Unfinished)
            else (li_out s, if li_main s = Left then Exits 0 else Unfinished))))"

text \<open>The state after the creations, by their results.\<close>

definition li_spawned :: "li_env \<Rightarrow> 64 word \<Rightarrow> li_state" where
  "li_spawned e c = \<lparr>clock = c, sem_low_start = 0, sem_med_start = 0, sem_high_start = 0,
     mutex = None, low = (if li_create e Low = 0 then L_sem else L_end),
     med = (if li_create e Med = 0 then M_sem else M_end), high = H_sem, li_main = Post_low, li_out = []\<rparr>"

lemma li_spawned_init: "li_init (li_spawned e c)"
  by (simp add: li_init_def li_spawned_def)

text \<open>
  Without the privilege for real-time scheduling, main's own call and all creations fail: the
  program says the first and then joins a thread that does not exist.
\<close>

lemma li_unprivileged:
  assumes "parse_linux_priority a = Inr policy" and "li_create e High \<noteq> 0"
    and "li_setsched e policy (li_prio_max e policy) \<noteq> 0" and "li_main s = Join_high"
  shows "li_program e prog (a # as) s = ([Perror ''setschedparam(main)''], Undef)"
  using assms by (simp add: li_program_def say_all_def)

text \<open>
  What main puts into the attributes of low, med and high on QNX. They are created without
  \<open>PTHREAD_EXPLICIT_SCHED\<close>, so the threads inherit main's scheduling and the step relation
  does not depend on them.
\<close>

definition qn_prios :: "int \<Rightarrow> int list" where
  "qn_prios pmax = (let pmed = pmax - 10; plow = pmed - 10 in [plow, pmed, pmax])"

definition qn_attrs :: "policy \<Rightarrow> int \<Rightarrow> sched_param list" where
  "qn_attrs policy pmax = map (\<lambda>prio.
     if policy = SCHED_SPORADIC then Sporadic (sporadic_at prio) else Plain prio) (qn_prios pmax)"

lemma qn_attrs_eq: "qn_attrs policy pmax = map (sched_args QNX policy) [pmax - 20, pmax - 10, pmax]"
  by (simp add: qn_attrs_def qn_prios_def sched_args_def)

definition qn_program :: "string list \<Rightarrow> qn_state \<Rightarrow> outcome" where
  "qn_program args s =
     (let r = (qn_out s, if qmain s = Q_left then Exits 0 else Unfinished) in
      case args of
        [] \<Rightarrow> r
      | a # _ \<Rightarrow> (case parse_qnx_priority a of Inl m \<Rightarrow> die m | Inr policy \<Rightarrow> r))"

section \<open>Properties\<close>

text \<open>C7. Priority inversion on Linux: once the high thread waits for the mutex that low holds and
  med has begun to burn time (at the reading m), high gets the mutex only after med's whole
  200 milliseconds, although med is less important and does not touch the mutex: the line
  that is printed has its second reading at least 200 milliseconds after m.\<close>

theorem linux_inversion:
  assumes "li_init s0" and "run (li_step policy prio_max) li_tick s0 p0 e0 s"
    and "high s = H_lock t0" and "mutex s = Some Low" and "med s = M_spin m"
    and "run (li_step policy prio_max) li_tick s p e t" and "li_out t \<noteq> []"
  shows "\<exists>t1. li_out t = [li_print policy t0 t1] \<and> m \<le> t1 \<and> MED_NS \<le> t1 - m"
proof -
  have inv: "li_inv s" by (rule li.inv_run [OF assms(1,2)])
  with assms(5) have "m \<le> clock s" by (simp add: li_inv_def)
  with assms(3-5) have "li_behind policy t0 m s" by (simp add: li_behind_def)
  with assms(6) have "li_behind policy t0 m t" by (rule li_behind_run)
  moreover have "li_inv t" by (rule li.inv_run_from [OF assms(6) inv])
  ultimately show ?thesis using assms(7) by (auto simp: li_behind_def li_inv_def since_def)
qed

text \<open>C18. On QNX the high thread cannot overtake: low has locked the mutex before high exists. Whenever
  low has read m when it began to hold the mutex, and high has read t0 before it asked for
  it (in either order), then whatever the scheduler does, high has printed its line when
  main returns, with t0 as its first reading and a second one at least 50 milliseconds
  after m; so the milliseconds it prints, plus the time by which t0 comes after m, are more
  than 49.\<close>

theorem qnx_high_waits_for_low:
  assumes "qn_init s0" and "run (qn_step policy) qn_tick s0 p0 e0 s" and "qlow s = Some (L_spin m)"
    and "run (qn_step policy) qn_tick s p e s'" and "qhigh s' = Some (H_lock t0)"
    and "run (qn_step policy) qn_tick s' p' e' t" and "qmain t = Q_left"
  shows "\<exists>t1. qn_out t = [qn_print policy t0 t1] \<and> t0 \<le> t1 \<and> m \<le> t1 \<and> HOLD_NS \<le> t1 - m \<and>
    uint m + 50000000 < uint t0 + 1000000 * (uint (waited_ms t0 t1) + 1)"
proof -
  have inv: "qn_inv s" by (rule qn.inv_run [OF assms(1,2)])
  have inv': "qn_inv s'" by (rule qn.inv_run_from [OF assms(4) inv])
  have invt: "qn_inv t" by (rule qn.inv_run_from [OF assms(6) inv'])
  with assms(7) have "high_printed (qhigh t)" by (simp add: qn_inv_def qn_high_inv_def)
  moreover have "qn_behind policy m s'"
    by (rule qn_behind_run [OF assms(4) inv]) (use assms(3) in \<open>simp add: qn_behind_def\<close>)
  then have "qn_measures policy m t0 s'"
    using inv' assms(5) by (simp add: qn_measures_def qn_inv_def qn_high_inv_def)
  then have "qn_measures policy m t0 t" by (rule qn_measures_run [OF assms(6) inv'])
  ultimately obtain t1 where "since HOLD_NS m t1" "t0 \<le> t1" "qn_out t = [qn_print policy t0 t1]"
    by (auto simp: qn_measures_def)
  then show ?thesis using waited_ms_bound [of m t1 t0] by (auto simp: since_def)
qed

text \<open>C17. The QNX program cannot hang: until main has returned, some thread can make a step or low is
  still counting its 50 milliseconds; at most one thread holds the mutex; and when main
  returns high has printed its line and no thread is left waiting in the mutex.\<close>

theorem qnx_never_stuck:
  assumes "qn_init s" and "run (qn_step policy) qn_tick s p e t"
  shows "(qmain t = Q_left \<or> low_spinning t \<or> (\<exists>u. qn_step policy t u)) \<and>
    \<not> (low_inside (qlow t) \<and> high_inside (qhigh t)) \<and>
    (qmain t = Q_left \<longrightarrow> qn_out t \<noteq> [] \<and> qhigh t = Some H_end \<and> qlow t = Some L_end)"
proof -
  have inv: "qn_inv t" by (rule qn.inv_run [OF assms])
  then have "\<not> (low_inside (qlow t) \<and> high_inside (qhigh t))"
    by (auto simp: qn_inv_def qn_mutex_inv_def)
  moreover have "qn_out t \<noteq> [] \<and> qhigh t = Some H_end \<and> qlow t = Some L_end" if "qmain t = Q_left"
    using inv that by (simp add: qn_inv_def qn_defs)
  ultimately show ?thesis using qn_progress [OF inv, of policy] by auto
qed

section \<open>Runs\<close>

definition li_at :: "64 word \<Rightarrow> task option \<Rightarrow> low_pc \<Rightarrow> med_pc \<Rightarrow> high_pc \<Rightarrow> li_pc \<Rightarrow> li_state" where
  "li_at c x l m h p = \<lparr>clock = c, sem_low_start = 0, sem_med_start = 0, sem_high_start = 0,
     mutex = x, low = l, med = m, high = h, li_main = p, li_out = []\<rparr>"

lemma li_demo_first:
  "run (li_step SCHED_FIFO 99) li_tick (li_at 7 None L_sem M_sem H_sem Post_low) 10 0
     (li_at 7 (Some Low) (L_spin 7) (M_spin 7) (H_lock 7) Join_high)"
proof -
  have "chain (li_step SCHED_FIFO 99) (li_at 7 None L_sem M_sem H_sem Post_low)
    [(li_at 7 None L_sem M_sem H_sem Post_med)\<lparr>sem_low_start := 1\<rparr>,
     li_at 7 None L_lock M_sem H_sem Post_med, li_at 7 (Some Low) L_t0 M_sem H_sem Post_med,
     li_at 7 (Some Low) (L_spin 7) M_sem H_sem Post_med,
     (li_at 7 (Some Low) (L_spin 7) M_sem H_sem Post_high)\<lparr>sem_med_start := 1\<rparr>,
     li_at 7 (Some Low) (L_spin 7) M_t0 H_sem Post_high,
     li_at 7 (Some Low) (L_spin 7) (M_spin 7) H_sem Post_high,
     (li_at 7 (Some Low) (L_spin 7) (M_spin 7) H_sem Join_high)\<lparr>sem_high_start := 1\<rparr>,
     li_at 7 (Some Low) (L_spin 7) (M_spin 7) H_t0 Join_high,
     li_at 7 (Some Low) (L_spin 7) (M_spin 7) (H_lock 7) Join_high]"
    by (simp add: li_step.simps li_at_def on_cpu_def)
  from chain_run [OF this, of li_tick] show ?thesis by (simp add: eval_nat_numeral)
qed

definition li_late :: li_state where
  "li_late = (li_at 200000007 (Some High) L_end M_end H_unlock Join_high)
     \<lparr>li_out := [li_print SCHED_FIFO 7 200000007]\<rparr>"

lemma li_demo_second:
  "run (li_step SCHED_FIFO 99) li_tick (li_at 7 (Some Low) (L_spin 7) (M_spin 7) (H_lock 7) Join_high)
     6 1 li_late"
proof -
  let ?s = "li_at 7 (Some Low) (L_spin 7) (M_spin 7) (H_lock 7) Join_high"
  let ?u = "li_at 200000007 (Some Low) (L_spin 7) (M_spin 7) (H_lock 7) Join_high"
  have "li_tick ?s ?u"
    using li_tick.tick [of ?s 200000007] by (simp add: li_at_def)
  then have 1: "run (li_step SCHED_FIFO 99) li_tick ?s 0 (Suc 0) ?u"
    by (rule run_env [OF run_nil])
  have "chain (li_step SCHED_FIFO 99) ?u
    [li_at 200000007 (Some Low) (L_spin 7) M_end (H_lock 7) Join_high,
     li_at 200000007 (Some Low) L_unlock M_end (H_lock 7) Join_high,
     li_at 200000007 None L_end M_end (H_lock 7) Join_high,
     li_at 200000007 (Some High) L_end M_end (H_t1 7) Join_high,
     li_at 200000007 (Some High) L_end M_end (H_print 7 200000007) Join_high, li_late]"
    by (simp add: li_step.simps li_at_def li_late_def on_cpu_def MED_NS_def HOLD_NS_def)
  from run_trans [OF chain_run [OF this] 1] show ?thesis by (simp add: eval_nat_numeral)
qed

theorem linux_inversion_witness:
  "\<exists>t1. li_out li_late = [li_print SCHED_FIFO 7 t1] \<and> 7 \<le> t1 \<and> MED_NS \<le> t1 - 7"
  by (rule linux_inversion [OF _ li_demo_first _ _ _ li_demo_second])
    (simp_all add: li_init_def li_at_def li_late_def)

definition qn_at :: "64 word \<Rightarrow> nat \<times> nat \<times> nat \<Rightarrow> task option \<Rightarrow> low_pc option \<Rightarrow> med_pc option \<Rightarrow>
    high_pc option \<Rightarrow> qn_pc \<Rightarrow> out list \<Rightarrow> qn_state" where
  "qn_at c q x l m h p w = \<lparr>qclock = c, low_locked = fst q, high_ready = fst (snd q),
     high_done = snd (snd q), qmutex = x, qlow = l, qmed = m, qhigh = h, qmain = p, qn_out = w\<rparr>"

definition qn_left :: qn_state where
  "qn_left = qn_at 50000000 (0, 0, 0) None (Some L_end) (Some M_t0) (Some H_end) Q_left
     [qn_print SCHED_RR 0 50000000]"

lemma qn_demo_first:
  "run (qn_step SCHED_RR) qn_tick (qn_at 0 (0, 0, 0) None None None None Create_low []) 4 0
     (qn_at 0 (1, 0, 0) (Some Low) (Some (L_spin 0)) None None Wait_low [])"
proof -
  have "chain (qn_step SCHED_RR) (qn_at 0 (0, 0, 0) None None None None Create_low [])
    [qn_at 0 (0, 0, 0) None (Some L_lock) None None Wait_low [],
     qn_at 0 (0, 0, 0) (Some Low) (Some L_post) None None Wait_low [],
     qn_at 0 (1, 0, 0) (Some Low) (Some L_t0) None None Wait_low [],
     qn_at 0 (1, 0, 0) (Some Low) (Some (L_spin 0)) None None Wait_low []]"
    by (simp add: qn_step.simps qn_at_def)
  from chain_run [OF this, of qn_tick] show ?thesis by (simp add: eval_nat_numeral)
qed

definition qn_waiting :: qn_state where
  "qn_waiting = qn_at 0 (0, 0, 0) (Some Low) (Some (L_spin 0)) (Some M_t0) (Some (H_lock 0)) Wait_done []"

lemma qn_demo_second:
  "run (qn_step SCHED_RR) qn_tick
     (qn_at 0 (1, 0, 0) (Some Low) (Some (L_spin 0)) None None Wait_low []) 6 0 qn_waiting"
proof -
  have "chain (qn_step SCHED_RR) (qn_at 0 (1, 0, 0) (Some Low) (Some (L_spin 0)) None None Wait_low [])
    [qn_at 0 (0, 0, 0) (Some Low) (Some (L_spin 0)) None None Create_high [],
     qn_at 0 (0, 0, 0) (Some Low) (Some (L_spin 0)) None (Some H_post) Wait_ready [],
     qn_at 0 (0, 1, 0) (Some Low) (Some (L_spin 0)) None (Some H_t0) Wait_ready [],
     qn_at 0 (0, 0, 0) (Some Low) (Some (L_spin 0)) None (Some H_t0) Create_med [],
     qn_at 0 (0, 0, 0) (Some Low) (Some (L_spin 0)) (Some M_t0) (Some H_t0) Wait_done [], qn_waiting]"
    by (simp add: qn_step.simps qn_at_def qn_waiting_def)
  from chain_run [OF this, of qn_tick] show ?thesis by (simp add: eval_nat_numeral)
qed

lemma qn_demo_third: "run (qn_step SCHED_RR) qn_tick qn_waiting 8 1 qn_left"
proof -
  let ?u = "qn_at 50000000 (0, 0, 0) (Some Low) (Some (L_spin 0)) (Some M_t0) (Some (H_lock 0)) Wait_done []"
  have "qn_tick qn_waiting ?u"
    using qn_tick.q_tick [of qn_waiting 50000000] by (simp add: qn_at_def qn_waiting_def)
  then have 1: "run (qn_step SCHED_RR) qn_tick qn_waiting 0 (Suc 0) ?u"
    by (rule run_env [OF run_nil])
  have "chain (qn_step SCHED_RR) ?u
    [qn_at 50000000 (0, 0, 0) (Some Low) (Some L_unlock) (Some M_t0) (Some (H_lock 0)) Wait_done [],
     qn_at 50000000 (0, 0, 0) None (Some L_end) (Some M_t0) (Some (H_lock 0)) Wait_done [],
     qn_at 50000000 (0, 0, 0) (Some High) (Some L_end) (Some M_t0) (Some (H_t1 0)) Wait_done [],
     qn_at 50000000 (0, 0, 0) (Some High) (Some L_end) (Some M_t0) (Some (H_print 0 50000000)) Wait_done [],
     qn_at 50000000 (0, 0, 0) (Some High) (Some L_end) (Some M_t0) (Some H_unlock) Wait_done
       [qn_print SCHED_RR 0 50000000],
     qn_at 50000000 (0, 0, 0) None (Some L_end) (Some M_t0) (Some H_done) Wait_done
       [qn_print SCHED_RR 0 50000000],
     qn_at 50000000 (0, 0, 1) None (Some L_end) (Some M_t0) (Some H_end) Wait_done
       [qn_print SCHED_RR 0 50000000], qn_left]"
    by (simp add: qn_step.simps qn_at_def qn_left_def HOLD_NS_def)
  from run_trans [OF chain_run [OF this] 1] show ?thesis by (simp add: eval_nat_numeral)
qed

lemma qn_demo_init: "qn_init (qn_at 0 (0, 0, 0) None None None None Create_low [])"
  by (simp add: qn_init_def qn_at_def)

theorem qnx_high_waits_for_low_witness:
  "\<exists>t1. qn_out qn_left = [qn_print SCHED_RR 0 t1] \<and> HOLD_NS \<le> t1 - 0 \<and>
     50000000 < 1000000 * (uint (waited_ms 0 t1) + 1)"
  using qnx_high_waits_for_low [OF qn_demo_init qn_demo_first _ qn_demo_second _ qn_demo_third, of 0 0]
  by (auto simp: qn_at_def qn_waiting_def qn_left_def)

theorem qnx_never_stuck_witness:
  "qn_out qn_left \<noteq> [] \<and> qhigh qn_left = Some H_end"
  using qnx_never_stuck [OF qn_demo_init run_trans [OF qn_demo_third run_trans [OF qn_demo_second qn_demo_first]]]
  by (simp add: qn_left_def qn_at_def)

end
