(* ===== verification/PriorityProgress.thy ===== *)
theory PriorityProgress
  imports PriorityInversion
begin

text \<open>
  The Linux program of theory \<open>PriorityInversion\<close> comes to its end. Its three threads share
  one CPU by priority, so that a thread that could move need not be allowed to: the
  thread that is allowed to is the greatest that can run, in the order of the tasks.
\<close>

section \<open>The order of the tasks\<close>

instantiation task :: linorder
begin

fun rank :: "task \<Rightarrow> nat" where
  "rank Low = 0"
| "rank Med = 1"
| "rank High = 2"

definition less_eq_task :: "task \<Rightarrow> task \<Rightarrow> bool" where
  "a \<le> b \<longleftrightarrow> rank a \<le> rank b"

definition less_task :: "task \<Rightarrow> task \<Rightarrow> bool" where
  "a < b \<longleftrightarrow> rank a < rank b"

instance
proof
  fix a b :: task
  show "a \<le> b \<Longrightarrow> b \<le> a \<Longrightarrow> a = b"
    by (cases a; cases b) (simp_all add: less_eq_task_def)
qed (auto simp: less_eq_task_def less_task_def)

end

lemma li_prio_mono: "li_prio prio_max x \<le> li_prio prio_max y \<longleftrightarrow> x \<le> y"
  by (cases x; cases y) (simp_all add: less_eq_task_def)

text \<open>Where some thread can run, one is on the CPU.\<close>

lemma some_on_cpu:
  assumes "runnable s x" and "li_main s \<noteq> Left"
  shows "\<exists>y. on_cpu prio_max s y"
proof -
  let ?R = "{y. runnable s y}"
  have fin: "finite ?R" by (rule finite_subset [of _ "{Low, Med, High}"]) (auto intro: task.exhaust)
  moreover have ne: "?R \<noteq> {}" using assms(1) by auto
  ultimately have "Max ?R \<in> ?R" by (rule Max_in)
  moreover have "y \<le> Max ?R" if "runnable s y" for y using fin that by simp
  ultimately have "on_cpu prio_max s (Max ?R)" using assms(2) by (simp add: on_cpu_def li_prio_mono)
  then show ?thesis ..
qed

section \<open>Invariant and measure\<close>

text \<open>A semaphore is up when main has posted it and its thread has not yet taken it.\<close>

fun posts :: "li_pc \<Rightarrow> nat" where
  "posts Post_low = 0"
| "posts Post_med = 1"
| "posts Post_high = 2"
| "posts _ = 3"

definition li_sem_inv :: "li_state \<Rightarrow> bool" where
  "li_sem_inv s \<longleftrightarrow>
     (low s = L_sem \<longrightarrow> sem_low_start s = (if 1 \<le> posts (li_main s) then 1 else 0)) \<and>
     (med s = M_sem \<longrightarrow> sem_med_start s = (if 2 \<le> posts (li_main s) then 1 else 0)) \<and>
     sem_high_start s = (if 3 \<le> posts (li_main s) \<and> high s = H_sem then 1 else 0) \<and>
     (posts (li_main s) < 1 \<longrightarrow> low s \<in> {L_sem, L_end}) \<and> (posts (li_main s) < 2 \<longrightarrow> med s \<in> {M_sem, M_end}) \<and>
     (posts (li_main s) < 3 \<longrightarrow> high s = H_sem) \<and> (\<forall>t. low s = L_spin t \<longrightarrow> t \<le> clock s)"

definition li_full :: "li_state \<Rightarrow> bool" where
  "li_full s \<longleftrightarrow> li_inv s \<and> li_sem_inv s"

fun low_weight :: "low_pc \<Rightarrow> nat" where
  "low_weight L_sem = 5"
| "low_weight L_lock = 4"
| "low_weight L_t0 = 3"
| "low_weight (L_spin t) = 2"
| "low_weight L_unlock = 1"
| "low_weight _ = 0"

fun med_weight :: "med_pc \<Rightarrow> nat" where
  "med_weight M_sem = 3"
| "med_weight M_t0 = 2"
| "med_weight (M_spin t) = 1"
| "med_weight M_end = 0"

fun high_weight :: "high_pc \<Rightarrow> nat" where
  "high_weight H_sem = 6"
| "high_weight H_t0 = 5"
| "high_weight (H_lock t) = 4"
| "high_weight (H_t1 t) = 3"
| "high_weight (H_print t u) = 2"
| "high_weight H_unlock = 1"
| "high_weight _ = 0"

fun li_weight :: "li_pc \<Rightarrow> nat" where
  "li_weight Post_low = 4"
| "li_weight Post_med = 3"
| "li_weight Post_high = 2"
| "li_weight Join_high = 1"
| "li_weight Left = 0"

definition li_meas :: "li_state \<Rightarrow> nat" where
  "li_meas s = low_weight (low s) + med_weight (med s) + high_weight (high s) + li_weight (li_main s)"

lemma li_full_init: "li_init s \<Longrightarrow> li_full s"
  using li_inv_init by (auto simp: li_full_def li_init_def li_sem_inv_def)

lemma li_sem_inv_step:
  "li_step policy prio_max s t \<Longrightarrow> li_sem_inv s \<Longrightarrow> li_sem_inv t"
  by (cases rule: li_step.cases, assumption) (simp_all add: li_sem_inv_def split: if_splits)

lemma li_full_step: "li_full s \<Longrightarrow> li_step policy prio_max s t \<Longrightarrow> li_full t"
  using li_inv_step li_sem_inv_step unfolding li_full_def by blast

lemma li_sem_inv_tick: "li_tick s t \<Longrightarrow> li_sem_inv s \<Longrightarrow> li_sem_inv t"
  by (erule li_tick.cases) (auto simp: li_sem_inv_def intro: order_trans)

lemma li_full_tick: "li_full s \<Longrightarrow> li_tick s t \<Longrightarrow> li_full t"
  using li_inv_tick li_sem_inv_tick unfolding li_full_def by blast

lemma li_meas_step: "li_step policy prio_max s t \<Longrightarrow> li_meas t < li_meas s"
  by (cases rule: li_step.cases, assumption) (simp_all add: li_meas_def)

lemma li_meas_tick: "li_tick s t \<Longrightarrow> li_meas t \<le> li_meas s + 0"
  by (erule li_tick.cases) (simp add: li_meas_def)

text \<open>The thread on the CPU burns its time.\<close>

definition li_burning :: "int \<Rightarrow> li_state \<Rightarrow> bool" where
  "li_burning prio_max s \<longleftrightarrow>
     (\<exists>m. low s = L_spin m \<and> on_cpu prio_max s Low \<and> clock s - m < HOLD_NS) \<or>
     (\<exists>m. med s = M_spin m \<and> on_cpu prio_max s Med \<and> clock s - m < MED_NS)"

lemma on_cpu_moves:
  assumes inv: "li_full s" and cpu: "on_cpu prio_max s x"
  shows "li_burning prio_max s \<or> (\<exists>t. li_step policy prio_max s t)"
proof -
  have run: "runnable s x" using cpu by (simp add: on_cpu_def)
  have pcs: "low s \<noteq> L_post" "high s \<noteq> H_post" "high s \<noteq> H_done"
    using inv by (simp_all add: li_full_def li_inv_def)
  show ?thesis
  proof (cases x)
    case Low
    note rules = li_step.low_start li_step.low_lock li_step.low_t0 li_step.low_spun li_step.low_unlock
    show ?thesis
      using run cpu pcs(1) unfolding Low li_burning_def
      by (cases "low s"; simp) (blast intro: rules)+
  next
    case Med
    note rules = li_step.med_start li_step.med_t0 li_step.med_spun
    show ?thesis
      using run cpu unfolding Med li_burning_def
      by (cases "med s"; simp) (blast intro: rules)+
  next
    case High
    note rules = li_step.high_start li_step.high_t0 li_step.high_lock li_step.high_t1 li_step.high_print
      li_step.high_unlock
    show ?thesis
      using run cpu pcs(2,3) unfolding High
      by (cases "high s"; simp) (blast intro: rules)+
  qed
qed

lemma high_or_low_runs:
  assumes "li_full s" and "li_main s = Join_high" and "high s \<noteq> H_end"
  shows "\<exists>x. runnable s x"
proof (cases "runnable s High")
  case False
  then have wait: "\<exists>t. high s = H_lock t" "mutex s \<noteq> None"
    using assms by (cases "high s"; simp add: li_full_def li_sem_inv_def li_inv_def)+
  then have "mutex s = Some Low"
    using assms(1) by (cases "mutex s"; cases "the (mutex s)") (auto simp: li_full_def li_inv_def high_in_def)
  then have "low_in (low s)" using assms(1) by (simp add: li_full_def li_inv_def)
  then have "runnable s Low" by (auto simp: low_in_def)
  then show ?thesis ..
qed blast

lemma li_progress:
  assumes inv: "li_full s" and "li_main s \<noteq> Left"
  shows "li_burning prio_max s \<or> (\<exists>t. li_step policy prio_max s t)"
proof (cases "li_main s")
  case Join_high
  show ?thesis
  proof (cases "high s = H_end")
    case True
    with Join_high show ?thesis by (blast intro: li_step.join_high)
  next
    case False
    from high_or_low_runs [OF inv Join_high False] obtain x where "runnable s x" ..
    with some_on_cpu [of s x prio_max] Join_high obtain y where "on_cpu prio_max s y" by auto
    with on_cpu_moves [OF inv this] show ?thesis by blast
  qed
qed (use assms in \<open>auto intro: li_step.intros\<close>)

interpretation lip: bounded_system li_init "li_step policy prio_max" li_tick li_full
  "\<lambda>s. li_main s = Left \<or> li_burning prio_max s" li_meas 0
  for policy prio_max
proof unfold_locales
  fix s t
  show "li_init s \<Longrightarrow> li_full s" by (rule li_full_init)
  show "li_full s \<Longrightarrow> li_step policy prio_max s t \<Longrightarrow> li_full t" by (rule li_full_step)
  show "li_full s \<Longrightarrow> li_tick s t \<Longrightarrow> li_full t" by (rule li_full_tick)
  show "li_full s \<Longrightarrow> \<not> (li_main s = Left \<or> li_burning prio_max s) \<Longrightarrow> \<exists>t. li_step policy prio_max s t"
    using li_progress by blast
  show "li_step policy prio_max s t \<Longrightarrow> li_meas t < li_meas s" by (rule li_meas_step)
  show "li_tick s t \<Longrightarrow> li_meas t \<le> li_meas s + 0" by (rule li_meas_tick)
qed

section \<open>Time ends every wait\<close>

lemma clock_after:
  fixes c :: "64 word"
  assumes "uint c + 200000000 < 2 ^ 64"
  shows "uint (c + MED_NS) = uint c + 200000000" "c \<le> c + MED_NS"
    "m \<le> c \<Longrightarrow> \<not> c + MED_NS - m < MED_NS" "m \<le> c \<Longrightarrow> \<not> c + MED_NS - m < HOLD_NS"
proof -
  have med: "uint MED_NS = 200000000" "uint HOLD_NS = 50000000" by (simp_all add: MED_NS_def HOLD_NS_def)
  show sum: "uint (c + MED_NS) = uint c + 200000000"
    using assms by (subst uint_plus_u64) (simp_all add: med)
  then show "c \<le> c + MED_NS" by (simp add: word_le_def)
  assume "m \<le> c"
  then have "uint m \<le> uint c" by (simp add: word_le_def)
  then have "uint (c + MED_NS - m) = uint c + 200000000 - uint m"
    using sum by (subst uint_minus_u64) simp_all
  with \<open>uint m \<le> uint c\<close> show "\<not> c + MED_NS - m < MED_NS" "\<not> c + MED_NS - m < HOLD_NS"
    by (simp_all add: word_less_def med)
qed

text \<open>When 200 milliseconds have gone by, the thread on the CPU can move.\<close>

lemma time_helps:
  assumes inv: "li_full s" and room: "uint (clock s) + 200000000 < 2 ^ 64" and "li_main s \<noteq> Left"
  defines "u \<equiv> s\<lparr>clock := clock s + MED_NS\<rparr>"
  shows "\<exists>t. li_step policy prio_max u t"
proof -
  have tick: "li_tick s u" unfolding u_def by (rule li_tick.tick) (rule clock_after [OF room])
  have "\<And>m. low s = L_spin m \<Longrightarrow> m \<le> clock s" "\<And>m. med s = M_spin m \<Longrightarrow> m \<le> clock s"
    using inv by (auto simp: li_full_def li_sem_inv_def li_inv_def)
  then have "\<not> li_burning prio_max u"
    using clock_after(3,4) [OF room] by (auto simp: li_burning_def u_def)
  moreover have "li_main u \<noteq> Left" using assms(3) by (simp add: u_def)
  ultimately show ?thesis using li_progress [OF li_full_tick [OF inv tick]] by blast
qed

lemma can_end:
  "li_full s \<Longrightarrow> uint (clock s) + 200000000 * int (li_meas s) < 2 ^ 64 \<Longrightarrow>
     \<exists>p e t. run (li_step policy prio_max) li_tick s p e t \<and> li_main t = Left"
proof (induction "li_meas s" arbitrary: s rule: less_induct)
  case less
  show ?case
  proof (cases "li_main s = Left")
    case True
    then show ?thesis by (blast intro: run_nil)
  next
    case False
    then have "0 < li_meas s" by (cases "li_main s") (simp_all add: li_meas_def)
    with less.prems(2) have room: "uint (clock s) + 200000000 < 2 ^ 64" by linarith
    let ?u = "s\<lparr>clock := clock s + MED_NS\<rparr>"
    obtain t where t: "li_step policy prio_max ?u t"
      using time_helps [OF less.prems(1) room False] by blast
    have tick: "li_tick s ?u" by (rule li_tick.tick) (rule clock_after [OF room])
    have "li_full t" by (rule li_full_step [OF li_full_tick [OF less.prems(1) tick] t])
    have less_meas: "li_meas t < li_meas s" using li_meas_step [OF t] by (simp add: li_meas_def)
    have "clock t = clock ?u" using t by (cases rule: li_step.cases) simp_all
    then have "uint (clock t) = uint (clock s) + 200000000" using clock_after(1) [OF room] by simp
    with less_meas less.prems(2) have "uint (clock t) + 200000000 * int (li_meas t) < 2 ^ 64" by linarith
    with less.hyps [OF less_meas \<open>li_full t\<close>] obtain p e v
      where v: "run (li_step policy prio_max) li_tick t p e v" "li_main v = Left" by blast
    have "run (li_step policy prio_max) li_tick s 0 (Suc 0) ?u"
      by (rule run_env [OF run_nil]) (rule tick)
    then have "run (li_step policy prio_max) li_tick s (Suc 0) (Suc 0) t" using t by (rule run_step)
    with run_trans [OF v(1)] v(2) show ?thesis by blast
  qed
qed

section \<open>Property\<close>

text \<open>C8. The Linux program cannot hang, under the rule that only the most important thread that can
  run may move: until main has returned, that thread or main can make a step, or it is burning
  its time; there are at most 18 steps besides the reading of the clock in the two loops; main
  returns only after high has printed its one line; and while the 64-bit clock has a few
  seconds left, the program can always come to its end.\<close>

theorem linux_never_stuck:
  assumes "li_init s" and "run (li_step policy prio_max) li_tick s p e t"
  shows "(li_main t = Left \<or> li_burning prio_max t \<or> (\<exists>u. li_step policy prio_max t u)) \<and> p \<le> 18 \<and>
    (li_main t = Left \<longrightarrow> high t = H_end \<and> li_out t \<noteq> []) \<and>
    (uint (clock t) < 2 ^ 63 \<longrightarrow>
      (\<exists>q f u. run (li_step policy prio_max) li_tick t q f u \<and> li_main u = Left))"
proof -
  have inv: "li_full t" by (rule lip.inv_run [OF assms])
  have start: "li_meas s \<le> 18" using assms(1) by (auto simp: li_init_def li_meas_def)
  have bound: "p + li_meas t \<le> 18"
    using lip.run_bound_from [OF assms(2) li_full_init [OF assms(1)]] start by simp
  have "\<exists>q f u. run (li_step policy prio_max) li_tick t q f u \<and> li_main u = Left"
    if "uint (clock t) < 2 ^ 63"
    by (rule can_end [OF inv]) (use that bound in simp)
  moreover have "li_main t = Left \<longrightarrow> high t = H_end \<and> li_out t \<noteq> []"
    using inv by (simp add: li_full_def li_inv_def)
  ultimately show ?thesis using li_progress [OF inv] bound by auto
qed

theorem linux_never_stuck_witness:
  "li_out li_late \<noteq> [] \<and> (16 :: nat) \<le> 18 \<and>
   (\<exists>q f u. run (li_step SCHED_FIFO 99) li_tick li_late q f u \<and> li_main u = Left)"
proof -
  have "li_init (li_at 7 None L_sem M_sem H_sem Post_low)" by (simp add: li_init_def li_at_def)
  from linux_never_stuck [OF this run_trans [OF li_demo_second li_demo_first]]
  show ?thesis by (simp add: li_late_def li_at_def)
qed

end
