(* ===== verification/PubSub.thy ===== *)
theory PubSub
  imports Machines CTime
begin

text \<open>
  What the three programs of \<open>src/mosquitto\<close> share: main publishes \<open>N\<close> messages and waits
  on a condition variable until the callback \<open>on_message\<close>, which runs in the network thread
  of the MQTT library, has counted \<open>N\<close> of them; then it stops that thread and computes the
  latencies. The library and the broker are not part of the sources: all the model knows of
  them is the number \<open>D\<close> of messages they hand to the callback. \<open>recv_count\<close> is written by
  the callback outside the mutex, so each access to it is a step of its own.
\<close>

section \<open>The two threads\<close>

datatype pub_pc = G_pub | G_lock | G_test | G_wait | G_wake | G_unlock | G_stop | G_over

datatype call_pc = K_idle | K_test | K_full | K_lock | K_signal | K_unlock

datatype holder = Publisher | Callback

record ps_state =
  pub :: pub_pc
  sent :: nat
  send_times :: "int list"
  call :: call_pc
  recv_count :: nat
  recv_times :: "int list"
  pending :: nat
  holds :: "holder option"

definition ps_start :: "nat \<Rightarrow> nat \<Rightarrow> ps_state" where
  "ps_start N D = \<lparr>pub = G_pub, sent = 0, send_times = replicate N 0, call = K_idle,
     recv_count = 0, recv_times = replicate N 0, pending = D, holds = None\<rparr>"

text \<open>\<open>sends i\<close> and \<open>recvs i\<close> are the clock readings that go into the two arrays.\<close>

inductive ps_step :: "nat \<Rightarrow> (nat \<Rightarrow> int) \<Rightarrow> (nat \<Rightarrow> int) \<Rightarrow> ps_state \<Rightarrow> ps_state \<Rightarrow> bool"
  for N sends recvs where
  publish: "pub s = G_pub \<Longrightarrow> sent s < N \<Longrightarrow> ps_step N sends recvs s
    (s\<lparr>send_times := (send_times s)[sent s := sends (sent s)], sent := Suc (sent s)\<rparr>)"
| published: "pub s = G_pub \<Longrightarrow> sent s = N \<Longrightarrow> ps_step N sends recvs s (s\<lparr>pub := G_lock\<rparr>)"
| g_lock: "pub s = G_lock \<Longrightarrow> holds s = None \<Longrightarrow>
    ps_step N sends recvs s (s\<lparr>holds := Some Publisher, pub := G_test\<rparr>)"
| g_wait: "pub s = G_test \<Longrightarrow> recv_count s < N \<Longrightarrow>
    ps_step N sends recvs s (s\<lparr>holds := None, pub := G_wait\<rparr>)"
| g_rewake: "pub s = G_wake \<Longrightarrow> holds s = None \<Longrightarrow>
    ps_step N sends recvs s (s\<lparr>holds := Some Publisher, pub := G_test\<rparr>)"
| g_go: "pub s = G_test \<Longrightarrow> \<not> recv_count s < N \<Longrightarrow> ps_step N sends recvs s (s\<lparr>pub := G_unlock\<rparr>)"
| g_unlock: "pub s = G_unlock \<Longrightarrow> ps_step N sends recvs s (s\<lparr>holds := None, pub := G_stop\<rparr>)"
| loop_stop: "pub s = G_stop \<Longrightarrow> call s = K_idle \<Longrightarrow> ps_step N sends recvs s (s\<lparr>pub := G_over\<rparr>)"
| deliver: "call s = K_idle \<Longrightarrow> pub s \<noteq> G_over \<Longrightarrow> pending s = Suc d \<Longrightarrow>
    ps_step N sends recvs s (s\<lparr>pending := d, call := K_test\<rparr>)"
| k_skip: "call s = K_test \<Longrightarrow> \<not> recv_count s < N \<Longrightarrow> ps_step N sends recvs s (s\<lparr>call := K_idle\<rparr>)"
| k_store: "call s = K_test \<Longrightarrow> recv_count s < N \<Longrightarrow> ps_step N sends recvs s
    (s\<lparr>recv_times := (recv_times s)[recv_count s := recvs (recv_count s)],
       recv_count := Suc (recv_count s), call := K_full\<rparr>)"
| k_not_full: "call s = K_full \<Longrightarrow> recv_count s \<noteq> N \<Longrightarrow> ps_step N sends recvs s (s\<lparr>call := K_idle\<rparr>)"
| k_full: "call s = K_full \<Longrightarrow> recv_count s = N \<Longrightarrow> ps_step N sends recvs s (s\<lparr>call := K_lock\<rparr>)"
| k_lock: "call s = K_lock \<Longrightarrow> holds s = None \<Longrightarrow>
    ps_step N sends recvs s (s\<lparr>holds := Some Callback, call := K_signal\<rparr>)"
| k_signal: "call s = K_signal \<Longrightarrow> ps_step N sends recvs s
    (s\<lparr>call := K_unlock, pub := (if pub s = G_wait then G_wake else pub s)\<rparr>)"
| k_unlock: "call s = K_unlock \<Longrightarrow> ps_step N sends recvs s (s\<lparr>holds := None, call := K_idle\<rparr>)"

inductive ps_spurious :: "ps_state \<Rightarrow> ps_state \<Rightarrow> bool" where
  wake: "pub s = G_wait \<Longrightarrow> ps_spurious s (s\<lparr>pub := G_wake\<rparr>)"

section \<open>Invariant and measure\<close>

fun pub_holds :: "pub_pc \<Rightarrow> bool" where
  "pub_holds G_test = True"
| "pub_holds G_unlock = True"
| "pub_holds _ = False"

fun call_holds :: "call_pc \<Rightarrow> bool" where
  "call_holds K_signal = True"
| "call_holds K_unlock = True"
| "call_holds _ = False"

fun call_last :: "call_pc \<Rightarrow> bool" where
  "call_last K_lock = True"
| "call_last K_signal = True"
| "call_last K_unlock = True"
| "call_last _ = False"

fun pub_past :: "pub_pc \<Rightarrow> bool" where
  "pub_past G_unlock = True"
| "pub_past G_stop = True"
| "pub_past G_over = True"
| "pub_past _ = False"

definition ps_lock_inv :: "nat \<Rightarrow> ps_state \<Rightarrow> bool" where
  "ps_lock_inv N s \<longleftrightarrow>
     (holds s = Some Publisher \<longleftrightarrow> pub_holds (pub s)) \<and> (holds s = Some Callback \<longleftrightarrow> call_holds (call s)) \<and>
     (call_last (call s) \<longrightarrow> recv_count s = N) \<and> (pub_past (pub s) \<longrightarrow> recv_count s = N) \<and>
     (pub s = G_over \<longrightarrow> call s = K_idle) \<and>
     (pub s = G_wait \<and> recv_count s = N \<longrightarrow> call s = K_full \<or> call s = K_lock \<or> call s = K_signal)"

definition ps_count_inv :: "nat \<Rightarrow> nat \<Rightarrow> ps_state \<Rightarrow> bool" where
  "ps_count_inv N D s \<longleftrightarrow> recv_count s \<le> N \<and> recv_count s \<le> D \<and>
     (recv_count s < N \<longrightarrow> recv_count s + pending s + (if call s = K_test then 1 else 0) = D) \<and>
     sent s \<le> N \<and> (pub s \<noteq> G_pub \<longrightarrow> sent s = N)"

definition ps_array_inv :: "nat \<Rightarrow> (nat \<Rightarrow> int) \<Rightarrow> (nat \<Rightarrow> int) \<Rightarrow> ps_state \<Rightarrow> bool" where
  "ps_array_inv N sends recvs s \<longleftrightarrow> length (send_times s) = N \<and> length (recv_times s) = N \<and>
     (\<forall>i < sent s. send_times s ! i = sends i) \<and> (\<forall>i < recv_count s. recv_times s ! i = recvs i)"

definition ps_inv ::
  "nat \<Rightarrow> nat \<Rightarrow> (nat \<Rightarrow> int) \<Rightarrow> (nat \<Rightarrow> int) \<Rightarrow> ps_state \<Rightarrow> bool" where
  "ps_inv N D sends recvs s \<longleftrightarrow> ps_lock_inv N s \<and> ps_count_inv N D s \<and> ps_array_inv N sends recvs s"

lemmas ps_defs = ps_lock_inv_def ps_count_inv_def ps_array_inv_def

lemma ps_inv_start: "ps_inv N D sends recvs (ps_start N D)"
  by (simp add: ps_inv_def ps_defs ps_start_def)

lemma ps_lock_step:
  "ps_step N sends recvs s t \<Longrightarrow> ps_count_inv N D s \<Longrightarrow> ps_lock_inv N s \<Longrightarrow> ps_lock_inv N t"
  by (cases rule: ps_step.cases, assumption) (auto simp: ps_lock_inv_def ps_count_inv_def)

lemma ps_count_step: "ps_step N sends recvs s t \<Longrightarrow> ps_count_inv N D s \<Longrightarrow> ps_count_inv N D t"
  by (cases rule: ps_step.cases, assumption) (auto simp: ps_count_inv_def split: if_splits)

lemma ps_array_step:
  "ps_step N sends recvs s t \<Longrightarrow> ps_count_inv N D s \<Longrightarrow> ps_array_inv N sends recvs s \<Longrightarrow>
     ps_array_inv N sends recvs t"
  by (cases rule: ps_step.cases, assumption)
    (auto simp: ps_array_inv_def ps_count_inv_def nth_list_update less_Suc_eq)

lemma ps_inv_step:
  "ps_inv N D sends recvs s \<Longrightarrow> ps_step N sends recvs s t \<Longrightarrow> ps_inv N D sends recvs t"
  using ps_lock_step ps_count_step ps_array_step unfolding ps_inv_def by blast

lemma ps_inv_spurious: "ps_inv N D sends recvs s \<Longrightarrow> ps_spurious s t \<Longrightarrow> ps_inv N D sends recvs t"
  by (erule ps_spurious.cases) (auto simp: ps_inv_def ps_defs)

definition ps_init :: "nat \<Rightarrow> nat \<Rightarrow> ps_state \<Rightarrow> bool" where
  "ps_init N D s \<longleftrightarrow> s = ps_start N D"

text \<open>For progress, the broker has to deliver enough.\<close>

definition ps_enough :: "nat \<Rightarrow> nat \<Rightarrow> ps_state \<Rightarrow> bool" where
  "ps_enough N D s \<longleftrightarrow> N \<le> D \<and> ps_init N D s"

definition ps_good ::
  "nat \<Rightarrow> nat \<Rightarrow> (nat \<Rightarrow> int) \<Rightarrow> (nat \<Rightarrow> int) \<Rightarrow> ps_state \<Rightarrow> bool" where
  "ps_good N D sends recvs s \<longleftrightarrow> N \<le> D \<and> ps_inv N D sends recvs s"

definition ps_final :: "ps_state \<Rightarrow> bool" where
  "ps_final s \<longleftrightarrow> pub s = G_over"

fun pub_weight :: "bool \<Rightarrow> pub_pc \<Rightarrow> nat" where
  "pub_weight full G_pub = 16"
| "pub_weight full G_lock = 15"
| "pub_weight full G_test = (if full then 3 else 12)"
| "pub_weight full G_wait = 10"
| "pub_weight full G_wake = (if full then 5 else 14)"
| "pub_weight full G_unlock = 2"
| "pub_weight full G_stop = 1"
| "pub_weight full G_over = 0"

fun call_weight :: "call_pc \<Rightarrow> nat" where
  "call_weight K_idle = 0"
| "call_weight K_test = 5"
| "call_weight K_full = 4"
| "call_weight K_lock = 3"
| "call_weight K_signal = 2"
| "call_weight K_unlock = 1"

definition ps_meas :: "nat \<Rightarrow> ps_state \<Rightarrow> nat" where
  "ps_meas N s = (N - sent s) + pub_weight (recv_count s = N) (pub s) + call_weight (call s) + 6 * pending s"

lemma ps_meas_step:
  assumes "ps_good N D sends recvs s" and step: "ps_step N sends recvs s t"
  shows "ps_meas N t < ps_meas N s"
proof -
  have count: "recv_count s \<le> N" and last: "call_last (call s) \<longrightarrow> recv_count s = N"
    using assms(1) by (auto simp: ps_good_def ps_inv_def ps_defs)
  have mono: "pub_weight True p \<le> pub_weight False p" for p by (cases p) auto
  have "pub_weight (Suc (recv_count s) = N) (pub s) \<le> pub_weight False (pub s)"
    using mono by (cases "Suc (recv_count s) = N") auto
  with step count last show ?thesis
    by (cases rule: ps_step.cases) (auto simp: ps_meas_def)
qed

lemma ps_meas_spurious: "ps_spurious s t \<Longrightarrow> ps_meas N t \<le> ps_meas N s + 4"
  by (erule ps_spurious.cases) (auto simp: ps_meas_def)

lemma callback_moves:
  assumes "call s \<noteq> K_idle" and "call s = K_lock \<longrightarrow> holds s = None"
  shows "\<exists>t. ps_step N sends recvs s t"
proof (cases "call s")
  case K_test
  then show ?thesis
    by (cases "recv_count s < N") (blast intro: ps_step.k_store ps_step.k_skip)+
next
  case K_full
  then show ?thesis
    by (cases "recv_count s = N") (blast intro: ps_step.k_full ps_step.k_not_full)+
qed (use assms in \<open>auto intro: ps_step.intros\<close>)

lemma ps_progress:
  assumes good: "ps_good N D sends recvs s" and nf: "\<not> ps_final s"
  shows "\<exists>t. ps_step N sends recvs s t"
proof -
  have lock: "ps_lock_inv N s" and count: "ps_count_inv N D s" and "N \<le> D"
    using good by (auto simp: ps_good_def ps_inv_def)
  have test: "\<exists>t. ps_step N sends recvs s t" if "pub s = G_test"
    using that by (cases "recv_count s < N") (blast intro: ps_step.g_wait ps_step.g_go)+
  show ?thesis
  proof (cases "holds s")
    case (Some x)
    then show ?thesis
    proof (cases x)
      case Publisher
      with Some lock have "pub_holds (pub s)" by (simp add: ps_lock_inv_def)
      with test show ?thesis by (cases "pub s") (auto intro: ps_step.g_unlock)
    next
      case Callback
      with Some lock have "call_holds (call s)" by (simp add: ps_lock_inv_def)
      then show ?thesis by (intro callback_moves) auto
    qed
  next
    case None
    show ?thesis
    proof (cases "call s = K_idle")
      case False
      with None show ?thesis by (intro callback_moves) auto
    next
      case idle: True
      show ?thesis
      proof (cases "pub s")
        case G_pub
        with count have "sent s < N \<or> sent s = N" by (auto simp: ps_count_inv_def)
        with G_pub show ?thesis by (blast intro: ps_step.publish ps_step.published)
      next
        case G_wait
        with lock idle have "recv_count s \<noteq> N" by (auto simp: ps_lock_inv_def)
        with count idle \<open>N \<le> D\<close> have "pending s \<noteq> 0" by (auto simp: ps_count_inv_def)
        then obtain d where "pending s = Suc d" by (cases "pending s") auto
        with idle G_wait show ?thesis using ps_step.deliver [of s d N sends recvs] by auto
      qed (use None idle test nf in \<open>auto simp: ps_final_def intro: ps_step.intros\<close>)
    qed
  qed
qed

lemma ps_good_step: "ps_good N D sends recvs s \<Longrightarrow> ps_step N sends recvs s t \<Longrightarrow> ps_good N D sends recvs t"
  using ps_inv_step by (auto simp: ps_good_def)

lemma ps_good_spurious: "ps_good N D sends recvs s \<Longrightarrow> ps_spurious s t \<Longrightarrow> ps_good N D sends recvs t"
  using ps_inv_spurious by (auto simp: ps_good_def)

lemma ps_good_start: "ps_enough N D s \<Longrightarrow> ps_good N D sends recvs s"
  using ps_inv_start by (simp add: ps_good_def ps_enough_def ps_init_def)

lemma ps_inv_init: "ps_init N D s \<Longrightarrow> ps_inv N D sends recvs s"
  using ps_inv_start by (simp add: ps_init_def)

interpretation ps: invariant_system "ps_init N D" "ps_step N sends recvs" ps_spurious "ps_inv N D sends recvs"
  for N D sends recvs
  by unfold_locales (rule ps_inv_init ps_inv_step ps_inv_spurious; assumption)+

interpretation psb: bounded_system "ps_enough N D" "ps_step N sends recvs" ps_spurious
  "ps_good N D sends recvs" ps_final "ps_meas N" 4
  for N D sends recvs
  by unfold_locales
    (rule ps_good_start ps_good_step ps_good_spurious ps_progress ps_meas_step ps_meas_spurious; assumption)+

section \<open>The latencies\<close>

text \<open>\<open>LLONG_MAX\<close>, and the loop over the two arrays.\<close>

definition LLONG_MAX :: int where "LLONG_MAX = 2 ^ 63 - 1"

fun lat_loop :: "(int \<times> int) list \<Rightarrow> int \<times> int \<times> int \<Rightarrow> (int \<times> int \<times> int) option" where
  "lat_loop [] acc = Some acc"
| "lat_loop ((r, s) # xs) (tot, mn, mx) = do {
     d \<leftarrow> lsub r s;
     tot' \<leftarrow> ladd tot d;
     lat_loop xs (tot', if d < mn then d else mn, if mx < d then d else mx)
   }"

definition lat_stats :: "int list \<Rightarrow> int list \<Rightarrow> (int \<times> int \<times> int) option" where
  "lat_stats recvs sends = lat_loop (zip recvs sends) (0, LLONG_MAX, 0)"

definition lat_ms :: "int \<Rightarrow> rat" where
  "lat_ms x = rnd64 (rnd64 (of_int x) / 1000000)"

definition lat_avg_ms :: "int \<Rightarrow> nat \<Rightarrow> rat" where
  "lat_avg_ms tot n = rnd64 (rnd64 (rnd64 (of_int tot) / of_nat n) / 1000000)"

definition lat_report :: "nat \<Rightarrow> int list \<Rightarrow> int list \<Rightarrow> out list option" where
  "lat_report n recvs sends = (case lat_stats recvs sends of
     None \<Rightarrow> None
   | Some (tot, mn, mx) \<Rightarrow> Some
      [Printf ''Messages: %d'' [VI (int n)],
       Printf ''Avg Latency: %.2f ms'' [VD (lat_avg_ms tot n)],
       Printf ''Min Latency: %.2f ms'' [VD (lat_ms mn)],
       Printf ''Max Latency: %.2f ms'' [VD (lat_ms mx)]])"

definition diffs :: "(int \<times> int) list \<Rightarrow> int list" where
  "diffs xs = map (\<lambda>(r, s). r - s) xs"

lemma lat_loop_eq:
  assumes "\<And>d. d \<in> set (diffs xs) \<Longrightarrow> \<bar>d\<bar> \<le> B" and "\<bar>tot\<bar> + int (length xs) * B < 2 ^ 63" and "B < 2 ^ 63"
  shows "lat_loop xs (tot, mn, mx) =
    Some (tot + sum_list (diffs xs), fold min (diffs xs) mn, fold max (diffs xs) mx)"
  using assms(1,2)
proof (induction xs arbitrary: tot mn mx)
  case Nil
  then show ?case by (simp add: diffs_def)
next
  case (Cons x xs)
  obtain r s where x: "x = (r, s)" by (cases x)
  define d where "d = r - s"
  have d: "\<bar>d\<bar> \<le> B" using Cons.prems(1) [of d] by (simp add: x d_def diffs_def)
  have len: "0 \<le> int (length xs) * B" using d by simp
  have split: "int (length (x # xs)) * B = B + int (length xs) * B" by (simp add: distrib_right)
  have "lsub r s = Some d"
    unfolding d_def by (rule lsub_ok) (use d assms(3) in \<open>auto simp: long_ok_def d_def\<close>)
  moreover have "\<bar>tot + d\<bar> < 2 ^ 63"
    using d len Cons.prems(2) unfolding split by linarith
  then have "ladd tot d = Some (tot + d)" by (intro ladd_ok) (auto simp: long_ok_def)
  moreover have "lat_loop xs (tot + d, min d mn, max d mx) =
      Some (tot + d + sum_list (diffs xs), fold min (diffs xs) (min d mn), fold max (diffs xs) (max d mx))"
    using Cons.prems d unfolding split by (intro Cons.IH) (auto simp: diffs_def)
  moreover have "(if d < mn then d else mn) = min d mn" "(if mx < d then d else mx) = max d mx"
    by (auto simp: min_def max_def)
  ultimately show ?case by (simp add: x d_def [symmetric] diffs_def add.assoc)
qed

lemma lat_stats_eq:
  assumes "length recvs = n" "length sends = n" "0 < n" "n \<le> 10000"
    and "\<And>i. i < n \<Longrightarrow> \<bar>recvs ! i - sends ! i\<bar> \<le> 2 ^ 49"
  shows "lat_stats recvs sends = Some ((\<Sum>i<n. recvs ! i - sends ! i),
    Min ((\<lambda>i. recvs ! i - sends ! i) ` {..<n}), Max (insert 0 ((\<lambda>i. recvs ! i - sends ! i) ` {..<n})))"
proof -
  define ds where "ds = diffs (zip recvs sends)"
  have ds: "ds = map (\<lambda>i. recvs ! i - sends ! i) [0..<n]"
    unfolding ds_def diffs_def using assms(1,2) by (intro nth_equalityI) auto
  then have set: "set ds = (\<lambda>i. recvs ! i - sends ! i) ` {..<n}" by (auto simp: lessThan_atLeast0)
  have small: "\<bar>d\<bar> \<le> 2 ^ 49" if "d \<in> set ds" for d using that assms(5) by (auto simp: set)
  have "int (length (zip recvs sends)) * 2 ^ 49 < 2 ^ 63" using assms(1,2,4) by simp
  then have "lat_stats recvs sends = Some (0 + sum_list ds, fold min ds LLONG_MAX, fold max ds 0)"
    unfolding lat_stats_def ds_def using small by (intro lat_loop_eq [where B = "2 ^ 49"]) (auto simp: ds_def)
  moreover have "sum_list ds = (\<Sum>i<n. recvs ! i - sends ! i)"
    by (simp add: ds interv_sum_list_conv_sum_set_nat lessThan_atLeast0)
  moreover have "fold min ds LLONG_MAX = Min (insert LLONG_MAX (set ds))"
    using Min.set_eq_fold [of LLONG_MAX ds] by simp
  moreover have "fold max ds 0 = Max (insert 0 (set ds))"
    using Max.set_eq_fold [of 0 ds] by simp
  moreover have "Min (insert LLONG_MAX (set ds)) = Min (set ds)"
  proof -
    have ne: "set ds \<noteq> {}" using assms(3) by (auto simp: set)
    with small [of "Min (set ds)"] have "Min (set ds) \<le> LLONG_MAX" by (auto simp: LLONG_MAX_def)
    then show ?thesis unfolding Min_insert [OF finite_set ne] by (rule min_absorb2)
  qed
  ultimately show ?thesis by (simp add: set)
qed

section \<open>Properties\<close>

text \<open>C4. No wake-up is lost although the callback counts outside the mutex: if the broker hands over
  at least as many messages as main waits for, then in every state the two threads can get to
  main has finished or some thread can make a step; the steps are bounded; and when main has
  stopped the network thread both arrays are complete, each entry the reading that was
  stored for it.\<close>

theorem pubsub_no_lost_wakeup:
  assumes "N \<le> D" and "run (ps_step N sends recvs) ps_spurious (ps_start N D) p e t"
  shows "(pub t = G_over \<or> (\<exists>u. ps_step N sends recvs t u)) \<and> p \<le> N + 16 + 6 * D + 4 * e \<and>
    (\<exists>q u. run (ps_step N sends recvs) ps_spurious t q 0 u \<and> pub u = G_over) \<and>
    (pub t = G_over \<longrightarrow> call t = K_idle \<and> send_times t = map sends [0..<N] \<and> recv_times t = map recvs [0..<N])"
proof -
  have init: "ps_enough N D (ps_start N D)" using assms(1) by (simp add: ps_enough_def ps_init_def)
  have good: "ps_good N D sends recvs t" by (rule psb.inv_run [OF init assms(2)])
  have "ps_meas N (ps_start N D) \<le> N + 16 + 6 * D" by (simp add: ps_meas_def ps_start_def)
  then have "p \<le> N + 16 + 6 * D + 4 * e" using psb.run_bound [OF init assms(2)] by simp
  moreover have "send_times t = map sends [0..<N] \<and> recv_times t = map recvs [0..<N]" if "pub t = G_over"
    using good that by (auto simp: ps_good_def ps_inv_def ps_defs intro: nth_equalityI)
  moreover have "call t = K_idle" if "pub t = G_over"
    using good that by (simp add: ps_good_def ps_inv_def ps_lock_inv_def)
  moreover have "pub t = G_over \<or> (\<exists>u. ps_step N sends recvs t u)"
    using ps_progress [OF good] by (auto simp: ps_final_def)
  ultimately show ?thesis
    using psb.can_always_finish [OF init assms(2)] by (simp add: ps_final_def)
qed

text \<open>C34. The callback never writes outside its array, also when the broker hands over more messages
  than main waits for, and it never overwrites a time it has stored. If the broker hands over
  fewer (a message of quality 0 may be lost, and a failed connection is not noticed), main
  never gets past its wait.\<close>

theorem pubsub_bounds_and_loss:
  assumes "run (ps_step N sends recvs) ps_spurious (ps_start N D) p e t"
  shows "recv_count t \<le> N \<and> length (recv_times t) = N \<and> length (send_times t) = N \<and> sent t \<le> N \<and>
    (\<forall>i < recv_count t. recv_times t ! i = recvs i) \<and>
    (D < N \<longrightarrow> pub t \<notin> {G_unlock, G_stop, G_over})"
proof -
  have "ps_inv N D sends recvs t"
    by (rule ps.inv_run [OF _ assms, of D]) (simp add: ps_init_def)
  then have lock: "ps_lock_inv N t" and count: "ps_count_inv N D t" and arr: "ps_array_inv N sends recvs t"
    by (simp_all add: ps_inv_def)
  have "\<not> pub_past (pub t)" if "D < N"
    using lock count that by (auto simp: ps_lock_inv_def ps_count_inv_def)
  then have "D < N \<longrightarrow> pub t \<notin> {G_unlock, G_stop, G_over}" by auto
  moreover have "recv_count t \<le> N" "sent t \<le> N" using count by (simp_all add: ps_count_inv_def)
  ultimately show ?thesis using arr by (simp add: ps_array_inv_def)
qed

definition ps_at :: "pub_pc \<Rightarrow> nat \<Rightarrow> call_pc \<Rightarrow> nat \<Rightarrow> nat \<Rightarrow> holder option \<Rightarrow> ps_state" where
  "ps_at g i k c d h = \<lparr>pub = g, sent = i, send_times = [if i = 0 then 0 else 40], call = k,
     recv_count = c, recv_times = [if c = 0 then 0 else 90], pending = d, holds = h\<rparr>"

lemma ps_demo_run:
  "run (ps_step 1 (\<lambda>_. 40) (\<lambda>_. 90)) ps_spurious (ps_start 1 1) 14 0 (ps_at G_over 1 K_idle 1 0 None)"
proof -
  have "chain (ps_step 1 (\<lambda>_. 40) (\<lambda>_. 90)) (ps_start 1 1)
    [ps_at G_pub 1 K_idle 0 1 None, ps_at G_lock 1 K_idle 0 1 None,
     ps_at G_test 1 K_idle 0 1 (Some Publisher), ps_at G_wait 1 K_idle 0 1 None,
     ps_at G_wait 1 K_test 0 0 None, ps_at G_wait 1 K_full 1 0 None, ps_at G_wait 1 K_lock 1 0 None,
     ps_at G_wait 1 K_signal 1 0 (Some Callback), ps_at G_wake 1 K_unlock 1 0 (Some Callback),
     ps_at G_wake 1 K_idle 1 0 None, ps_at G_test 1 K_idle 1 0 (Some Publisher),
     ps_at G_unlock 1 K_idle 1 0 (Some Publisher), ps_at G_stop 1 K_idle 1 0 None,
     ps_at G_over 1 K_idle 1 0 None]"
    by (simp add: ps_step.simps ps_at_def ps_start_def)
  from chain_run [OF this, of ps_spurious] show ?thesis by (simp add: eval_nat_numeral)
qed

theorem pubsub_no_lost_wakeup_witness:
  "recv_times (ps_at G_over 1 K_idle 1 0 None) = [90] \<and> (14 :: nat) \<le> 1 + 16 + 6 * 1 + 4 * 0"
  using pubsub_no_lost_wakeup [OF _ ps_demo_run] by (simp add: ps_at_def)

theorem pubsub_bounds_and_loss_witness:
  "recv_count (ps_at G_over 1 K_idle 1 0 None) \<le> 1"
  using pubsub_bounds_and_loss [OF ps_demo_run] by simp

text \<open>The statistics are the sum, the minimum and the maximum (at least 0) of the differences of
  the two arrays, and the sum does not overflow while the differences stay below six days.\<close>

theorem latency_statistics:
  assumes "length recvs = n" and "length sends = n" and "0 < n" and "n \<le> 10000"
    and "\<And>i. i < n \<Longrightarrow> \<bar>recvs ! i - sends ! i\<bar> \<le> 2 ^ 49"
  shows "lat_stats recvs sends = Some ((\<Sum>i<n. recvs ! i - sends ! i),
    Min ((\<lambda>i. recvs ! i - sends ! i) ` {..<n}), Max (insert 0 ((\<lambda>i. recvs ! i - sends ! i) ` {..<n})))"
  using lat_stats_eq [OF assms] .

theorem latency_statistics_witness:
  "lat_stats [5, 9] [3, 12] = Some ((\<Sum>i<2. [5, 9] ! i - [3, 12] ! i),
    Min ((\<lambda>i. [5, 9] ! i - [3, 12] ! i) ` {..<2}), Max (insert 0 ((\<lambda>i. [5, 9] ! i - [3, 12] ! i) ` {..<2})))"
  by (rule latency_statistics) (auto simp: less_2_cases_iff)

end
