(* ===== verification/PubSubMain.thy ===== *)
theory PubSubMain
  imports PubSub Sched CText
begin

text \<open>
  The three programs of \<open>src/mosquitto\<close> around the exchange of theory \<open>PubSub\<close>:
  \<open>burst_pubsub_test.c\<close> (one burst of 10000 messages), \<open>qos_sweep_test.c\<close> (1000 messages
  for each quality of service) and \<open>cpu_load_pubsub_test.c\<close> (100 messages, without and with
  processes that burn time), with the broker and load processes they start and stop. The
  state of a test is what its two threads have come to.
\<close>

section \<open>Broker and load processes\<close>

text \<open>The calls of \<open>kill\<close>, with the process they name and the signal.\<close>

type_synonym kills = "(int \<times> string) list"

definition stop_broker :: "int \<Rightarrow> kills" where
  "stop_broker broker_pid = (if 0 < broker_pid then [(broker_pid, ''SIGTERM'')] else [])"

definition LOAD_PROCS :: nat where "LOAD_PROCS = 2"

text \<open>The parent keeps whatever \<open>fork\<close> returned; a child never comes back from its loop.\<close>

definition start_load :: "(nat \<Rightarrow> int) \<Rightarrow> int list" where
  "start_load forks = map forks [0..<LOAD_PROCS]"

definition stop_load :: "int list \<Rightarrow> kills" where
  "stop_load load_pids = map (\<lambda>p. (p, ''SIGTERM'')) load_pids"

text \<open>
  Whom a call of \<open>kill\<close> reaches, as POSIX has it: the process with that number; for 0 the
  caller's group and below - 1 the group of that number; for - 1 all processes. Only
  processes the caller may signal are reached, system processes only by their number,
  and on Linux - 1 leaves out the caller.
\<close>

record kill_env =
  k_self :: int
  k_group :: "int \<Rightarrow> int"
  k_system :: "int \<Rightarrow> bool"
  k_may :: "int \<Rightarrow> bool"

definition reaches :: "platform \<Rightarrow> kill_env \<Rightarrow> int \<Rightarrow> int \<Rightarrow> bool" where
  "reaches pf k p q \<longleftrightarrow> k_may k q \<and>
     (if 0 < p then q = p
      else \<not> k_system k q \<and>
        (if p = 0 then k_group k q = k_group k (k_self k)
         else if p = - 1 then pf = Linux \<longrightarrow> q \<noteq> k_self k
         else k_group k q = - p))"

section \<open>The tests\<close>

record pub_env =
  b_mlock :: int
  b_new :: "nat \<Rightarrow> bool"
  b_prio_max :: "policy \<Rightarrow> int"
  b_setsched :: "policy \<Rightarrow> sched_param \<Rightarrow> int"
  b_fork :: "nat \<Rightarrow> int"

definition finish_test :: "nat \<Rightarrow> ps_state \<Rightarrow> outcome \<Rightarrow> outcome" where
  "finish_test n st k =
     (if pub st \<noteq> G_over then ([], Unfinished)
      else case lat_report n (recv_times st) (send_times st) of
        None \<Rightarrow> undef
      | Some ls \<Rightarrow> say_all ls k)"

definition burst_sched_msg :: "platform \<Rightarrow> pub_env \<Rightarrow> policy \<Rightarrow> out list" where
  "burst_sched_msg pf e policy =
     (if pf = QNX \<and> policy = SCHED_SPORADIC then
        (if b_setsched e policy (sched_args pf policy (b_prio_max e policy)) \<noteq> 0
         then [Perror ''pthread_setschedparam (sporadic)''] else [])
      else if policy \<noteq> SCHED_OTHER \<and> b_setsched e policy (sched_args pf policy (b_prio_max e policy)) \<noteq> 0
      then [Perror ''pthread_setschedparam''] else [])"

text \<open>
  The scheduling calls of the other two programs, whose results are not looked at: what is
  asked for in a test, if anything, and what each load process asks for itself.
\<close>

definition test_sched_call :: "platform \<Rightarrow> policy \<Rightarrow> int \<Rightarrow> (policy \<times> sched_param) option" where
  "test_sched_call pf policy prio =
     (if pf = QNX \<and> policy = SCHED_SPORADIC then Some (policy, Sporadic (sporadic_at prio))
      else if policy \<noteq> SCHED_OTHER then Some (policy, Plain prio) else None)"

definition load_sched_call :: "platform \<Rightarrow> policy \<Rightarrow> policy \<times> sched_param" where
  "load_sched_call pf policy =
     (let prio = 1 in
      if pf = QNX \<and> policy = SCHED_SPORADIC
      then (policy, Sporadic \<lparr>sched_priority = prio, ss_low_priority = 1, ss_max_repl = 1,
        ss_repl_period = 50000000, ss_init_budget = 1000000\<rparr>)
      else (policy, Plain prio))"

text \<open>The child of \<open>start_broker\<close> comes back from \<open>execlp\<close> only when it fails.\<close>

definition broker_child :: "bool \<Rightarrow> outcome option" where
  "broker_child exec_ok = (if exec_ok then None else Some (die (Perror ''execlp mosquitto failed'')))"

definition BURST_COUNT :: nat where "BURST_COUNT = 10000"
definition QOS_COUNT :: nat where "QOS_COUNT = 1000"
definition LOAD_COUNT :: nat where "LOAD_COUNT = 100"

definition run_burst_test :: "platform \<Rightarrow> pub_env \<Rightarrow> policy \<Rightarrow> string \<Rightarrow> ps_state \<Rightarrow> outcome \<Rightarrow> outcome" where
  "run_burst_test pf e policy label st k = say (Printf ''=== %s ==='' [VS label])
     (if \<not> b_new e 0 then die (Eprintf ''Error: mosquitto_new()'' [])
      else say_all (burst_sched_msg pf e policy) (finish_test BURST_COUNT st k))"

definition run_qos_test :: "pub_env \<Rightarrow> nat \<Rightarrow> ps_state \<Rightarrow> outcome \<Rightarrow> outcome" where
  "run_qos_test e qos st k =
     say (Printf ''=== %s ==='' [VS (take 63 (''Burst pub/sub QoS '' @ show_int (int qos)))])
     (if \<not> b_new e qos then die (Eprintf ''Error: mosquitto_new()'' []) else finish_test QOS_COUNT st k)"

definition run_load_test :: "pub_env \<Rightarrow> nat \<Rightarrow> string \<Rightarrow> ps_state \<Rightarrow> outcome \<Rightarrow> outcome" where
  "run_load_test e i label st k = say (Printf ''=== %s ==='' [VS label])
     (if \<not> b_new e i then die (Perror ''mosquitto_new'') else finish_test LOAD_COUNT st k)"

section \<open>The programs\<close>

definition mlock_msg :: "pub_env \<Rightarrow> out list" where
  "mlock_msg e = (if b_mlock e \<noteq> 0 then [Perror ''mlockall failed''] else [])"

definition pub_policy_name :: "policy \<Rightarrow> string" where
  "pub_policy_name policy =
     (if policy = SCHED_FIFO then ''FIFO'' else if policy = SCHED_RR then ''RR''
      else if policy = SCHED_SPORADIC then ''SPORADIC'' else ''OTHER'')"

definition with_policy :: "(string \<Rightarrow> parsed) \<Rightarrow> string list \<Rightarrow> (policy \<Rightarrow> outcome) \<Rightarrow> outcome" where
  "with_policy parse args k = (case args of
     [] \<Rightarrow> k SCHED_OTHER
   | a # _ \<Rightarrow> (case parse a of Inl m \<Rightarrow> die m | Inr policy \<Rightarrow> k policy))"

definition burst_main :: "platform \<Rightarrow> pub_env \<Rightarrow> string list \<Rightarrow> ps_state \<Rightarrow> outcome" where
  "burst_main pf e args st = with_policy (parse_burst pf) args (\<lambda>policy.
     say_all (mlock_msg e) (say (Printf ''Starting broker...'' [])
       (run_burst_test pf e policy (pub_policy_name policy) st
         (say (Printf ''Stopping broker...'' []) (say (Printf ''Done.'' []) (exits 0))))))"

definition qos_main :: "platform \<Rightarrow> pub_env \<Rightarrow> string list \<Rightarrow> (nat \<Rightarrow> ps_state) \<Rightarrow> outcome" where
  "qos_main pf e args st = with_policy (parse_qos pf) args (\<lambda>policy.
     say_all (mlock_msg e) (say (Printf ''Starting Mosquitto broker...'' [])
       (foldr (\<lambda>qos k. run_qos_test e qos (st qos) k) [0..<3]
         (say (Printf ''Stopping broker...'' []) (say (Printf ''Done.'' []) (exits 0))))))"

definition cpu_load_main :: "platform \<Rightarrow> pub_env \<Rightarrow> string list \<Rightarrow> (nat \<Rightarrow> ps_state) \<Rightarrow> outcome" where
  "cpu_load_main pf e args st = with_policy (parse_cpu_load pf) args (\<lambda>policy.
     say_all (mlock_msg e) (say (Printf ''Starting broker...'' [])
       (run_load_test e 0 ''Baseline burst'' (st 0)
         (say (Printf ''Spinning up %d busy-loop workers...'' [VI (int LOAD_PROCS)])
           (run_load_test e 1 ''Under CPU load'' (st 1)
             (say (Printf ''Stopping CPU workers...'' [])
               (say (Printf ''Stopping broker...'' []) (say (Printf ''Done.'' []) (exits 0)))))))))"

text \<open>The signals the last program sends when it stops its load processes and its broker.\<close>

definition cpu_load_kills :: "int \<Rightarrow> pub_env \<Rightarrow> kills" where
  "cpu_load_kills broker_pid e = stop_load (start_load (b_fork e)) @ stop_broker broker_pid"

section \<open>Lemmas\<close>

text \<open>A test whose threads have finished, with readings less than six days apart.\<close>

definition tested :: "nat \<Rightarrow> (nat \<Rightarrow> int) \<Rightarrow> (nat \<Rightarrow> int) \<Rightarrow> ps_state \<Rightarrow> bool" where
  "tested n sends recvs t \<longleftrightarrow> pub t = G_over \<and>
     send_times t = map sends [0..<n] \<and> recv_times t = map recvs [0..<n] \<and>
     (\<forall>i < n. \<bar>recvs i - sends i\<bar> \<le> 2 ^ 49)"

definition test_lines :: "nat \<Rightarrow> (nat \<Rightarrow> int) \<Rightarrow> out list" where
  "test_lines n d =
     [Printf ''Messages: %d'' [VI (int n)],
      Printf ''Avg Latency: %.2f ms'' [VD (lat_avg_ms (\<Sum>i<n. d i) n)],
      Printf ''Min Latency: %.2f ms'' [VD (lat_ms (Min (d ` {..<n})))],
      Printf ''Max Latency: %.2f ms'' [VD (lat_ms (run_max d n))]]"

lemma finish_test_lines:
  assumes "tested n sends recvs t" and "0 < n" "n \<le> 10000"
  shows "finish_test n t k = say_all (test_lines n (\<lambda>i. recvs i - sends i)) k"
proof -
  have "lat_stats (map recvs [0..<n]) (map sends [0..<n]) =
      Some ((\<Sum>i<n. map recvs [0..<n] ! i - map sends [0..<n] ! i),
        Min ((\<lambda>i. map recvs [0..<n] ! i - map sends [0..<n] ! i) ` {..<n}),
        Max (insert 0 ((\<lambda>i. map recvs [0..<n] ! i - map sends [0..<n] ! i) ` {..<n})))"
    using assms by (intro lat_stats_eq) (auto simp: tested_def)
  moreover have "(\<lambda>i. map recvs [0..<n] ! i - map sends [0..<n] ! i) ` {..<n} =
      (\<lambda>i. recvs i - sends i) ` {..<n}"
    by (intro image_cong) auto
  ultimately have "lat_stats (map recvs [0..<n]) (map sends [0..<n]) =
      Some ((\<Sum>i<n. recvs i - sends i), Min ((\<lambda>i. recvs i - sends i) ` {..<n}),
        run_max (\<lambda>i. recvs i - sends i) n)"
    by (simp add: run_max_def)
  then show ?thesis
    using assms(1) by (simp add: finish_test_def lat_report_def tested_def test_lines_def)
qed

text \<open>Every exchange that has come to its end has been tested in this sense, and there is one.\<close>

lemma exchange_tested:
  assumes "run (ps_step n sends recvs) ps_spurious (ps_start n D) p e t" and "pub t = G_over"
    and "\<And>i. i < n \<Longrightarrow> \<bar>recvs i - sends i\<bar> \<le> 2 ^ 49"
  shows "tested n sends recvs t"
proof -
  have "ps_inv n D sends recvs t"
    by (rule ps.inv_run [OF _ assms(1), of D]) (simp add: ps_init_def)
  with assms(2,3) show ?thesis
    by (auto simp: tested_def ps_inv_def ps_defs intro: nth_equalityI)
qed

lemma exchange_exists:
  "\<exists>p t. run (ps_step n sends recvs) ps_spurious (ps_start n n) p 0 t \<and> pub t = G_over"
  using psb.reaches_final_from [OF ps_good_start [of n n "ps_start n n" sends recvs]]
  by (auto simp: ps_final_def ps_enough_def ps_init_def)

text \<open>
  A test asks for the parameters of theory \<open>Sched\<close>, and for nothing under the default policy;
  with a policy the parser of either program returns, a load process asks for the same
  policy at a lower priority, and for the sporadic block in the same cases.
\<close>

lemma test_sched_call_eq:
  "test_sched_call pf policy prio =
     (if policy = SCHED_OTHER then None else Some (policy, sched_args pf policy prio))"
  by (auto simp: test_sched_call_def sched_args_def)

lemma load_below_test:
  assumes "parse_cpu_load pf a = Inr policy" and "1 < prio"
  shows "\<exists>p. test_sched_call pf policy prio = Some (policy, p) \<and> fst (load_sched_call pf policy) = policy \<and>
    (case (snd (load_sched_call pf policy), p) of
       (Plain l, Plain t) \<Rightarrow> l < t
     | (Sporadic l, Sporadic t) \<Rightarrow> sched_priority l < sched_priority t \<and> ss_init_budget l < ss_init_budget t
     | _ \<Rightarrow> False)"
  using assms cpu_load.parse_never_other [of pf a] cpu_load.parse_sporadic_qnx [of pf a]
  by (auto simp: test_sched_call_def load_sched_call_def sporadic_at_def Let_def)

section \<open>Properties\<close>

text \<open>C28. The sweep over the qualities of service, put together: where the threads of all three tests
  have come to their end (by any schedule, with any spurious wake-ups), the program prints for
  each quality the number of messages and the average, minimum and maximum of the thousand
  latencies measured in that test, and ends with 0.\<close>

theorem qos_main_reports:
  assumes "\<And>q. q < 3 \<Longrightarrow> b_new e q" and "b_mlock e = 0"
    and "\<And>q. q < 3 \<Longrightarrow> run (ps_step 1000 (sends q) (recvs q)) ps_spurious (ps_start 1000 (D q)) (p q) (w q) (st q)"
    and "\<And>q. q < 3 \<Longrightarrow> pub (st q) = G_over"
    and "\<And>q i. q < 3 \<Longrightarrow> i < 1000 \<Longrightarrow> \<bar>recvs q i - sends q i\<bar> \<le> 2 ^ 49"
  shows "qos_main pf e [] st = (Printf ''Starting Mosquitto broker...'' [] #
    concat (map (\<lambda>q. Printf ''=== %s ==='' [VS (''Burst pub/sub QoS '' @ show_int (int q))] #
      test_lines 1000 (\<lambda>i. recvs q i - sends q i)) [0..<3]) @
    [Printf ''Stopping broker...'' [], Printf ''Done.'' []], Exits 0)"
proof -
  have label: "take 63 (''Burst pub/sub QoS '' @ show_int (int q)) = ''Burst pub/sub QoS '' @ show_int (int q)"
    if "q < 3" for q
    using length_show_int_long [of "int q"] that by (simp add: long_ok_def)
  have test: "run_qos_test e q (st q) k = say (Printf ''=== %s ==='' [VS (''Burst pub/sub QoS '' @ show_int (int q))])
      (say_all (test_lines 1000 (\<lambda>i. recvs q i - sends q i)) k)" if "q < 3" for q k
  proof -
    have "tested 1000 (sends q) (recvs q) (st q)"
      using exchange_tested [OF assms(3,4,5)] that by blast
    from finish_test_lines [OF this] show ?thesis
      unfolding run_qos_test_def label [OF that] using assms(1) [OF that] by (simp add: QOS_COUNT_def)
  qed
  have "foldr (\<lambda>q k. run_qos_test e q (st q) k) [0..<3] r =
      run_qos_test e 0 (st 0) (run_qos_test e 1 (st 1) (run_qos_test e 2 (st 2) r))" for r
    by (simp add: upt_conv_Cons numeral_2_eq_2)
  moreover have "[0..<3] = [0, 1, 2 :: nat]" by (simp add: upt_conv_Cons numeral_2_eq_2)
  ultimately show ?thesis
    by (simp add: qos_main_def with_policy_def mlock_msg_def assms(2) test)
qed

theorem qos_main_reports_witness:
  "\<exists>st. qos_main Linux \<lparr>b_mlock = 0, b_new = (\<lambda>_. True), b_prio_max = (\<lambda>_. 99),
      b_setsched = (\<lambda>_ _. 0), b_fork = int\<rparr> [] st =
   (Printf ''Starting Mosquitto broker...'' [] #
    concat (map (\<lambda>q. Printf ''=== %s ==='' [VS (''Burst pub/sub QoS '' @ show_int (int q))] #
      test_lines 1000 (\<lambda>i. (2 * int i + 7) - 2 * int i)) [0..<3]) @
    [Printf ''Stopping broker...'' [], Printf ''Done.'' []], Exits 0)"
proof -
  obtain p t where "run (ps_step 1000 (\<lambda>i. 2 * int i) (\<lambda>i. 2 * int i + 7)) ps_spurious (ps_start 1000 1000) p 0 t"
    "pub t = G_over"
    using exchange_exists by blast
  then show ?thesis
    by (intro exI [of _ "\<lambda>_. t"] qos_main_reports [where D = "\<lambda>_. 1000" and p = "\<lambda>_. p" and w = "\<lambda>_. 0"])
      simp_all
qed

text \<open>C37. Which processes the CPU-load program signals when it stops its load processes and its
  broker: the load processes that could be created and the broker; but where a \<open>fork\<close>
  failed, its result - 1 is passed to \<open>kill\<close> like a process number (the broker's is tested
  first), so that besides these the signal goes to every process that the program has the
  right to signal, except system processes and, on Linux, itself.\<close>

theorem cpu_load_signals:
  assumes "0 < broker_pid" and "\<And>i. i < LOAD_PROCS \<Longrightarrow> 0 < b_fork e i \<or> b_fork e i = - 1"
  shows "(\<exists>(p, sig) \<in> set (cpu_load_kills broker_pid e). reaches pf k p q) \<longleftrightarrow>
    k_may k q \<and>
    (q = broker_pid \<or> (\<exists>i<LOAD_PROCS. 0 < b_fork e i \<and> q = b_fork e i) \<or>
     (\<exists>i<LOAD_PROCS. b_fork e i = - 1) \<and> \<not> k_system k q \<and> (pf = Linux \<longrightarrow> q \<noteq> k_self k))"
proof -
  have "start_load (b_fork e) = [b_fork e 0, b_fork e 1]"
    by (simp add: start_load_def LOAD_PROCS_def upt_conv_Cons)
  with assms(1) have set: "set (cpu_load_kills broker_pid e) =
      {(b_fork e 0, ''SIGTERM''), (b_fork e 1, ''SIGTERM''), (broker_pid, ''SIGTERM'')}"
    by (auto simp: cpu_load_kills_def stop_load_def stop_broker_def)
  have two: "(\<exists>i<LOAD_PROCS. P i) \<longleftrightarrow> P 0 \<or> P 1" for P
    by (auto simp: LOAD_PROCS_def less_2_cases_iff)
  have forks: "0 < b_fork e 0 \<or> b_fork e 0 = - 1" "0 < b_fork e 1 \<or> b_fork e 1 = - 1"
    using assms(2) [of 0] assms(2) [of 1] by (simp_all add: LOAD_PROCS_def)
  show ?thesis unfolding set two using assms(1) forks by (auto simp: reaches_def)
qed

text \<open>The second load process could not be created: a bystander, but not init, is signalled.\<close>

theorem cpu_load_signals_witness:
  "\<forall>q. (\<exists>(p, sig) \<in> set (cpu_load_kills 77 \<lparr>b_mlock = 0, b_new = (\<lambda>_. True), b_prio_max = (\<lambda>_. 99),
      b_setsched = (\<lambda>_ _. 0), b_fork = (\<lambda>i. if i = 1 then - 1 else 80)\<rparr>).
      reaches Linux \<lparr>k_self = 70, k_group = (\<lambda>_. 70), k_system = (\<lambda>q. q = 1), k_may = (\<lambda>_. True)\<rparr> p q) \<longleftrightarrow>
   q \<noteq> 1 \<and> q \<noteq> 70"
  by (intro allI, subst cpu_load_signals) (auto simp: LOAD_PROCS_def)

end
