(* ===== verification/NetText.thy ===== *)
theory NetText
  imports CText Binary64 "HOL-Library.Sublist"
begin

text \<open>
  The text processing of \<open>src/network_and_security/network_and_security.c\<close>: reading the
  output of a command line by line into a buffer, searching and splitting a line, and finding
  the port number in a line of \<open>ss\<close> or \<open>netstat\<close>.
\<close>

section \<open>Streams and lines\<close>

abbreviation newline :: char where "newline \<equiv> CHR 0x0A"

text \<open>\<open>fgets\<close> with room for \<open>n\<close> characters: what it stores, and what is left to read.\<close>

fun fgets :: "nat \<Rightarrow> string \<Rightarrow> string \<times> string" where
  "fgets 0 s = ([], s)"
| "fgets (Suc n) [] = ([], [])"
| "fgets (Suc n) (c # cs) =
     (if c = newline then ([c], cs) else (case fgets n cs of (l, r) \<Rightarrow> (c # l, r)))"

lemma fgets_append: "fgets n s = (l, r) \<Longrightarrow> s = l @ r"
  by (induction n s arbitrary: l r rule: fgets.induct) (auto split: if_splits prod.splits)

lemma fgets_length: "fgets n s = (l, r) \<Longrightarrow> length l \<le> n"
  by (induction n s arbitrary: l r rule: fgets.induct) (auto split: if_splits prod.splits)

lemma fgets_nonempty: "s \<noteq> [] \<Longrightarrow> fgets (Suc n) s = (l, r) \<Longrightarrow> l \<noteq> []"
  by (cases s) (auto split: if_splits prod.splits)

text \<open>The loop \<open>while (fgets(line, size, fp))\<close>, with \<open>size = n + 2\<close>: the lines it sees.\<close>

function read_lines :: "nat \<Rightarrow> string \<Rightarrow> string list" where
  "read_lines n s = (if s = [] then [] else (case fgets (Suc n) s of (l, r) \<Rightarrow> l # read_lines n r))"
  by pat_completeness auto

termination
proof (relation "measure (\<lambda>(n, s). length s)")
  fix n :: nat and s l r :: string
  assume s: "s \<noteq> []" and "(l, r) = fgets (Suc n) s"
  then have lr: "fgets (Suc n) s = (l, r)" by simp
  have "s = l @ r" by (rule fgets_append [OF lr])
  moreover have "l \<noteq> []" by (rule fgets_nonempty [OF s lr])
  ultimately show "((n, r), n, s) \<in> measure (\<lambda>(n, s). length s)" by simp
qed simp

declare read_lines.simps [simp del]

lemma read_lines_concat: "concat (read_lines n s) = s"
proof (induction n s rule: read_lines.induct)
  case (1 n s)
  show ?case
  proof (cases "s = []")
    case False
    obtain l r where lr: "fgets (Suc n) s = (l, r)" by fastforce
    with 1 False have "concat (read_lines n r) = r" by simp
    with fgets_append [OF lr] False lr show ?thesis by (subst read_lines.simps) simp
  qed (simp add: read_lines.simps)
qed

lemma read_lines_length: "l \<in> set (read_lines n s) \<Longrightarrow> l \<noteq> [] \<and> length l \<le> Suc n"
proof (induction n s rule: read_lines.induct)
  case (1 n s)
  show ?case
  proof (cases "s = []")
    case False
    obtain l' r where lr: "fgets (Suc n) s = (l', r)" by fastforce
    with 1 False fgets_length [OF lr] fgets_nonempty [OF False lr] show ?thesis
      by (auto simp: read_lines.simps [of n s])
  qed (use 1 in \<open>simp add: read_lines.simps\<close>)
qed

text \<open>A stream of short lines is read line by line.\<close>

lemma fgets_line:
  "newline \<notin> set l \<Longrightarrow> length l < n \<Longrightarrow> fgets n (l @ newline # r) = (l @ [newline], r)"
proof (induction l arbitrary: n)
  case Nil
  then show ?case by (cases n) auto
next
  case (Cons c l)
  then show ?case by (cases n) auto
qed

lemma read_lines_lines:
  assumes "\<And>l. l \<in> set ls \<Longrightarrow> newline \<notin> set l \<and> length l \<le> n"
  shows "read_lines n (concat (map (\<lambda>l. l @ [newline]) ls)) = map (\<lambda>l. l @ [newline]) ls"
  using assms
proof (induction ls)
  case Nil
  show ?case by (simp add: read_lines.simps)
next
  case (Cons l ls)
  have "fgets (Suc n) (l @ newline # concat (map (\<lambda>l. l @ [newline]) ls)) =
      (l @ [newline], concat (map (\<lambda>l. l @ [newline]) ls))"
    using Cons.prems by (intro fgets_line) (auto simp: less_Suc_eq_le)
  then show ?case using Cons by (subst read_lines.simps) simp
qed

section \<open>Searching and splitting\<close>

text \<open>\<open>strstr(s, sub) != NULL\<close>.\<close>

fun strstr :: "string \<Rightarrow> string \<Rightarrow> bool" where
  "strstr [] sub \<longleftrightarrow> sub = []"
| "strstr (c # cs) sub \<longleftrightarrow> take (length sub) (c # cs) = sub \<or> strstr cs sub"

lemma strstr_sublist: "strstr s sub \<longleftrightarrow> sublist sub s"
proof (induction s)
  case (Cons c cs)
  have "take (length sub) (c # cs) = sub \<longleftrightarrow> prefix sub (c # cs)"
    by (metis append_eq_conv_conj append_take_drop_id prefix_def)
  with Cons show ?case by (simp add: sublist_Cons_right)
qed simp

text \<open>The tokens \<open>strtok\<close> delivers one after the other for the delimiter \<open>" "\<close>.\<close>

function strtok_all :: "string \<Rightarrow> string list" where
  "strtok_all s = (case dropWhile (\<lambda>c. c = CHR '' '') s of
     [] \<Rightarrow> []
   | c # cs \<Rightarrow> (c # takeWhile (\<lambda>c. c \<noteq> CHR '' '') cs) # strtok_all (dropWhile (\<lambda>c. c \<noteq> CHR '' '') cs))"
  by pat_completeness auto

termination
proof (relation "measure length")
  fix s :: string and c cs
  assume "dropWhile (\<lambda>c. c = CHR '' '') s = c # cs"
  then have "length (dropWhile (\<lambda>c. c \<noteq> CHR '' '') cs) < length (dropWhile (\<lambda>c. c = CHR '' '') s)"
    using length_dropWhile_le [of "\<lambda>c. c \<noteq> CHR '' ''" cs] by simp
  also have "\<dots> \<le> length s" by (rule length_dropWhile_le)
  finally show "(dropWhile (\<lambda>c. c \<noteq> CHR '' '') cs, s) \<in> measure length" by simp
qed simp

declare strtok_all.simps [simp del]

text \<open>The text after the last \<open>c\<close>: \<open>strrchr(s, c) + 1\<close>.\<close>

definition after_last :: "char \<Rightarrow> string \<Rightarrow> string option" where
  "after_last c s = (if c \<in> set s then Some (rev (takeWhile (\<lambda>x. x \<noteq> c) (rev s))) else None)"

lemma after_last_append: "c \<notin> set t \<Longrightarrow> after_last c (s @ c # t) = Some t"
  by (simp add: after_last_def takeWhile_append)

lemma strtok_all_word:
  assumes "w \<noteq> []" "CHR '' '' \<notin> set w"
  shows "strtok_all (w @ CHR '' '' # s) = w # strtok_all s"
proof -
  obtain c cs where w: "w = c # cs" using assms(1) by (cases w) auto
  have "takeWhile (\<lambda>c. c \<noteq> CHR '' '') (cs @ CHR '' '' # s) = cs"
    "dropWhile (\<lambda>c. c \<noteq> CHR '' '') (cs @ CHR '' '' # s) = CHR '' '' # s"
    using assms(2) by (auto simp: w takeWhile_append dropWhile_append)
  moreover have "strtok_all (CHR '' '' # s) = strtok_all s"
    by (simp add: strtok_all.simps [of "CHR '' '' # s"] strtok_all.simps [of s])
  moreover have "c \<noteq> CHR '' ''" using assms(2) by (auto simp: w)
  ultimately show ?thesis by (subst strtok_all.simps) (simp add: w)
qed

section \<open>Decimal numbers\<close>

text \<open>
  \<open>strtod\<close> on a decimal number with an optional exponent: the double nearest to the value, and
  the rest of the text. Hexadecimal numbers, infinities and NaN are not read.
\<close>

definition scan_exponent :: "string \<Rightarrow> int \<times> string" where
  "scan_exponent r = (case r of
     c # cs \<Rightarrow>
       if c = CHR ''e'' \<or> c = CHR ''E'' then
         (case cs of
            d # ds \<Rightarrow>
              if isdigit d then (case scan_digits 0 cs of (n, r') \<Rightarrow> (int n, r'))
              else if (d = CHR ''+'' \<or> d = CHR ''-'') \<and> ds \<noteq> [] \<and> isdigit (hd ds)
              then (case scan_digits 0 ds of (n, r') \<Rightarrow> (if d = CHR ''-'' then - int n else int n, r'))
              else (0, r)
          | [] \<Rightarrow> (0, r))
       else (0, r)
   | [] \<Rightarrow> (0, r))"

definition scan_double :: "string \<Rightarrow> (rat \<times> string) option" where
  "scan_double s =
     (let s1 = dropWhile isspace s;
          (neg, s2) = (case s1 of
             c # cs \<Rightarrow> if c = CHR ''-'' then (True, cs) else if c = CHR ''+'' then (False, cs) else (False, s1)
           | [] \<Rightarrow> (False, []));
          ip = takeWhile isdigit s2;
          r1 = dropWhile isdigit s2;
          (fp, r2) = (case r1 of
             c # cs \<Rightarrow> if c = CHR ''.'' then (takeWhile isdigit cs, dropWhile isdigit cs) else ([], r1)
           | [] \<Rightarrow> ([], []))
      in if ip @ fp = [] then None
         else (case scan_exponent r2 of (ex, r3) \<Rightarrow>
           let m = of_nat (fst (scan_digits 0 (ip @ fp))) * 10 powi (ex - int (length fp))
           in Some (rnd64 (if neg then - m else m), r3)))"

text \<open>\<open>atof\<close>, and \<open>sscanf(s, "%lf %lf %lf", ...)\<close> into variables that hold 0.\<close>

definition atof :: "string \<Rightarrow> rat" where
  "atof s = (case scan_double s of None \<Rightarrow> 0 | Some (x, _) \<Rightarrow> x)"

definition scan_three :: "string \<Rightarrow> rat \<times> rat \<times> rat" where
  "scan_three s = (case scan_double s of
     None \<Rightarrow> (0, 0, 0)
   | Some (a, r) \<Rightarrow> (case scan_double r of
       None \<Rightarrow> (a, 0, 0)
     | Some (b, r') \<Rightarrow> (case scan_double r' of
         None \<Rightarrow> (a, b, 0)
       | Some (c, _) \<Rightarrow> (a, b, c))))"

end
