(* ===== verification/NetSec.thy ===== *)
theory NetSec
  imports NetText
begin

text \<open>
  \<open>src/network_and_security/network_and_security.c\<close>: a sequence of checks, each of which
  runs commands and prints what their output says. The commands are not part of the sources:
  what a command prints (or that it could not be started), the results of \<open>system\<close>, of
  \<open>access\<close> and \<open>geteuid\<close>, and the text of \<open>/etc/shadow\<close> are inputs. Every command given to
  \<open>popen\<close> or \<open>system\<close> is recorded, in order, among what the program prints. The text
  processing is in theory \<open>NetText\<close>.
\<close>

section \<open>Inputs\<close>

text \<open>
  \<open>n_popen c k\<close>: the whole output of the k-th run of command \<open>c\<close>, None if it cannot be
  started; \<open>n_system c k\<close>: the result of the k-th run.
\<close>

record net_env =
  n_popen :: "string \<Rightarrow> nat \<Rightarrow> string option"
  n_system :: "string \<Rightarrow> nat \<Rightarrow> int"
  n_readable :: "string \<Rightarrow> bool"
  n_exists :: "string \<Rightarrow> bool"
  n_euid :: int
  n_shadow :: "string option"
  n_realpath :: "string option"

text \<open>The lines a loop over \<open>fgets\<close> sees in a buffer of the given size, as C strings.\<close>

definition lines_of :: "nat \<Rightarrow> string \<Rightarrow> string list" where
  "lines_of room s = map cstr (read_lines (room - 2) s)"

section \<open>Operating system and access\<close>

definition get_os_name :: "net_env \<Rightarrow> nat \<Rightarrow> out list \<times> string" where
  "get_os_name e k = (case n_popen e ''uname -a'' k of
     None \<Rightarrow> ([Popen ''uname -a'', Perror ''Failed to run uname''], ''UNKNOWN'')
   | Some s \<Rightarrow> ([Popen ''uname -a''], case lines_of 256 s of [] \<Rightarrow> ''UNKNOWN'' | l # _ \<Rightarrow> l))"

definition check_file_access :: "net_env \<Rightarrow> string \<Rightarrow> out list" where
  "check_file_access e filepath =
     [if n_readable e filepath then Printf ''Access to %s: Granted'' [VS filepath]
      else Printf ''Access to %s: Denied'' [VS filepath]]"

definition check_admin_privileges :: "net_env \<Rightarrow> out list" where
  "check_admin_privileges e =
     [Printf ''Effective User ID: %d'' [VI (n_euid e)],
      if n_euid e = 0 then Printf ''Current user has admin (root) privileges.'' []
      else Printf ''Current user does NOT have admin (root) privileges.'' []]"

text \<open>How many of the first \<open>n\<close> runs of a command fail.\<close>

definition failed_runs :: "net_env \<Rightarrow> string \<Rightarrow> nat \<Rightarrow> int" where
  "failed_runs e cmd n = fold (\<lambda>i failed. if n_system e cmd i \<noteq> 0 then failed + 1 else failed) [0..<n] 0"

definition sudo_cmd :: string where
  "sudo_cmd = ''echo '' @ CHR 0x27 # ''xxxxxxx'' @ CHR 0x27 # '' | sudo -S -k true > /dev/null 2>&1''"

definition login_cmd :: "string \<Rightarrow> string" where
  "login_cmd user = take 255 (''echo '' @ CHR 0x27 # ''invalidpass'' @ CHR 0x27 # '' | login '' @ user @ '' > /dev/null 2>&1'')"

definition test_failed_sudo_attempts :: "net_env \<Rightarrow> nat \<Rightarrow> out list" where
  "test_failed_sudo_attempts e attempts =
     Printf ''--- Sudo Password brute-force ---'' [] # replicate attempts (System sudo_cmd) @
     [Printf ''Total failed sudo attempts: %d out of %d''
        [VI (failed_runs e sudo_cmd attempts), VI (int attempts)]]"

definition qnx_test_failed_login_attempts :: "net_env \<Rightarrow> nat \<Rightarrow> string \<Rightarrow> out list" where
  "qnx_test_failed_login_attempts e attempts user =
     Printf ''--- Qnx Password Brute-Force ---'' [] # replicate attempts (System (login_cmd user)) @
     [Printf ''Total attempts: %d'' [VI (int attempts)],
      Printf ''Failed attempts: %d'' [VI (failed_runs e (login_cmd user) attempts)]]"

text \<open>These two run a shell script, and do not look at its result.\<close>

definition shadow_script :: string where
  "shadow_script =
     ''echo Current user:; whoami; '' @
     ''echo Checking shadow permissions:; ls -l /etc/shadow; '' @
     ''echo Attempt to read /etc/shadow:; cat /etc/shadow; '' @
     ''echo Attempt to write to /etc/shadow:; echo test >> /etc/shadow; '' @
     ''echo Attempt to remove /etc/shadow:; rm -f /etc/shadow''"

definition user1_script :: string where
  "user1_script = ''su - user1 -c '' @ CHR 0x27 # shadow_script @ '';'' @ [CHR 0x27]"

definition test_shadow_access_as_user1 :: "out list" where
  "test_shadow_access_as_user1 =
     [Printf ''--- Access Control Check (Not Root) using /shadow ---'' [], System user1_script]"

definition test_shadow_access_as_current_user :: "net_env \<Rightarrow> out list" where
  "test_shadow_access_as_current_user e =
     Printf ''--- Access Control Check (Non-root) on Ubuntu using /etc/shadow ---'' [] #
     (if n_euid e = 0
      then [Printf ''Skipping Access Control tests on /etc/shadow to prevent damage: User is Root.'' []]
      else [System shadow_script])"

section \<open>OpenSSL and the shadow file\<close>

definition check_openssl_version :: "net_env \<Rightarrow> out list" where
  "check_openssl_version e = Printf ''--- OpenSSL Version ---'' [] # Popen ''openssl version'' #
     (case n_popen e ''openssl version'' 0 of
        None \<Rightarrow> [Printf ''OpenSSL not found or failed to run.'' []]
      | Some s \<Rightarrow> map (\<lambda>l. Printf ''%s'' [VS l]) (lines_of 256 s))"

definition cipher_step :: "string \<Rightarrow> int \<times> int \<times> int \<times> int \<Rightarrow> int \<times> int \<times> int \<times> int" where
  "cipher_step line c = (case c of (tot, a, b, p) \<Rightarrow>
     (tot + 1, if strstr line ''SHA256'' then a + 1 else a,
      if strstr line ''SHA384'' then b + 1 else b, if strstr line ''POLY1305'' then p + 1 else p))"

definition check_openssl_ciphers :: "net_env \<Rightarrow> out list" where
  "check_openssl_ciphers e =
     Printf ''--- OpenSSL Cipher Summary (SHA256 / SHA384 / POLY1305) ---'' [] # Popen ''openssl ciphers -v'' #
     (case n_popen e ''openssl ciphers -v'' 0 of
        None \<Rightarrow> [Printf ''Failed to list OpenSSL ciphers.'' []]
      | Some s \<Rightarrow> (case fold cipher_step (lines_of 512 s) (0, 0, 0, 0) of (tot, a, b, p) \<Rightarrow>
          [Printf ''Total ciphers found         : %d'' [VI tot],
           Printf ''Ciphers using SHA256        : %d'' [VI a],
           Printf ''Ciphers using SHA384        : %d'' [VI b],
           Printf ''Ciphers using POLY1305      : %d'' [VI p]]))"

definition print_shadow_root_line :: "net_env \<Rightarrow> out list" where
  "print_shadow_root_line e =
     Printf ''--- Verify root password is encrypted/hashed /etc/shadow ---'' [] #
     (case n_shadow e of
        None \<Rightarrow> [Perror ''Unable to open /etc/shadow (are you root?)'']
      | Some s \<Rightarrow> (case find (\<lambda>l. take 5 l = ''root:'') (lines_of 512 s) of
          None \<Rightarrow> []
        | Some l \<Rightarrow> [Printf ''root entry: %s'' [VS l]]))"

section \<open>Listening ports\<close>

text \<open>The port in a line: what follows the last colon (dot) of the local address.\<close>

definition ss_port :: "string \<Rightarrow> int option" where
  "ss_port line = (if strstr line ''Local'' then None
     else case find (\<lambda>t. CHR '':'' \<in> set t) (strtok_all line) of
       None \<Rightarrow> None
     | Some token \<Rightarrow> (case after_last CHR '':'' token of
         None \<Rightarrow> None
       | Some p \<Rightarrow> if p \<noteq> [] then Some (atoi p) else None))"

definition netstat_port :: "string \<Rightarrow> int option" where
  "netstat_port line = (case drop 3 (strtok_all line) of
     [] \<Rightarrow> None
   | token # _ \<Rightarrow> (case after_last CHR ''.'' token of
         None \<Rightarrow> None
       | Some p \<Rightarrow> if p \<noteq> [] then Some (atoi p) else None))"

text \<open>
  \<open>seen_ports\<close> has 65536 elements, all 0 at first; the model keeps the set of the indices whose
  element is 1. Reading or writing at another index is undefined: None.
\<close>

definition seen_at :: "int set \<Rightarrow> int \<Rightarrow> bool option" where
  "seen_at seen i = (if 0 \<le> i \<and> i < 65536 then Some (i \<in> seen) else None)"

definition see :: "int set \<Rightarrow> int \<Rightarrow> int set option" where
  "see seen i = (if 0 \<le> i \<and> i < 65536 then Some (insert i seen) else None)"

text \<open>One line: the array and the ports printed so far.\<close>

definition port_step ::
  "(string \<Rightarrow> int option) \<Rightarrow> string \<Rightarrow> int set \<times> int list \<Rightarrow> (int set \<times> int list) option" where
  "port_step port_of line s = (case s of (seen, printed) \<Rightarrow>
     (case port_of line of
        None \<Rightarrow> Some (seen, printed)
      | Some port \<Rightarrow>
          if 0 < port \<and> port < 65536 then do {
            again \<leftarrow> seen_at seen port;
            if again then Some (seen, printed)
            else do {
              seen' \<leftarrow> see seen port;
              Some (seen', printed @ [port])
            }
          }
          else Some (seen, printed)))"

definition port_scan :: "(string \<Rightarrow> int option) \<Rightarrow> string list \<Rightarrow> int list option" where
  "port_scan port_of lines =
     map_option snd (fold (\<lambda>l s. Option.bind s (port_step port_of l)) lines (Some ({}, [])))"

text \<open>A check prints, or is undefined (None).\<close>

definition check_ports ::
  "net_env \<Rightarrow> string \<Rightarrow> string \<Rightarrow> string \<Rightarrow> string \<Rightarrow> (string \<Rightarrow> int option) \<Rightarrow> out list option" where
  "check_ports e header cmd failure fmt port_of =
     (case n_popen e cmd 0 of
        None \<Rightarrow> Some [Printf header [], Popen cmd, Perror failure]
      | Some s \<Rightarrow> map_option (\<lambda>ports. Printf header [] # Popen cmd # map (\<lambda>p. Printf fmt [VI p]) ports)
          (port_scan port_of (lines_of 512 s)))"

definition ubuntu_check_tcp_ports :: "net_env \<Rightarrow> out list option" where
  "ubuntu_check_tcp_ports e = check_ports e ''--- TCP Listening Ports ---'' ''ss -tuln | grep LISTEN''
     ''Failed to run ss'' ''Open TCP port detected: %d'' ss_port"

definition ubuntu_check_udp_ports :: "net_env \<Rightarrow> out list option" where
  "ubuntu_check_udp_ports e = check_ports e ''--- UDP Listening Ports ---'' ''ss -uln''
     ''Failed to run ss'' ''Open UDP port detected: %d'' ss_port"

definition qnx_check_tcp_ports :: "net_env \<Rightarrow> out list option" where
  "qnx_check_tcp_ports e = check_ports e ''--- TCP Listening Ports ---'' ''netstat -an | grep LISTEN''
     ''Failed to run netstat'' ''Open TCP port detected: %d'' netstat_port"

definition qnx_check_udp_ports :: "net_env \<Rightarrow> out list option" where
  "qnx_check_udp_ports e = check_ports e ''--- UDP Listening Ports ---'' ''netstat -an | grep udp''
     ''Failed to run netstat'' ''Open UDP port detected: %d'' netstat_port"

section \<open>Throughput\<close>

abbreviation (input) dquote :: char where "dquote \<equiv> CHR 0x22"

definition curl_format :: string where
  "curl_format = dquote # ''%{time_total} %{size_download} %{speed_download}'' @ [CHR 0x5C, CHR ''n'', dquote]"

definition http_cmd :: string where
  "http_cmd = ''curl -s -w '' @ curl_format @ '' -o /dev/null http://speedtest.tele2.net/100MB.zip''"

definition https_cmd :: string where
  "https_cmd = ''curl -k -s -w '' @ curl_format @ '' -o /dev/null https://proof.ovh.net/files/100Mb.dat''"

text \<open>\<open>x / (1024 * 1024)\<close>.\<close>

definition mega :: "rat \<Rightarrow> rat" where
  "mega x = rnd64 (x / 1048576)"

text \<open>Ten downloads: what is printed, and the sums of the times and of the speeds.\<close>

definition download_step ::
  "net_env \<Rightarrow> string \<Rightarrow> nat \<Rightarrow> out list \<times> rat \<times> rat \<Rightarrow> out list \<times> rat \<times> rat" where
  "download_step e cmd i s = (case s of (outs, total_time, total_speed) \<Rightarrow>
     (case n_popen e cmd i of
        None \<Rightarrow> (outs @ [Popen cmd], total_time, total_speed)
      | Some stream \<Rightarrow> (case lines_of 128 stream of
          [] \<Rightarrow> (outs @ [Popen cmd], total_time, total_speed)
        | buffer # _ \<Rightarrow> (case scan_three buffer of (time, sz, speed) \<Rightarrow>
            (outs @ [Popen cmd, Printf ''Run %d: %.2f MB in %.3f sec (%.2f MB/s)''
                       [VI (int i + 1), VD (mega sz), VD time, VD (mega speed)]],
             rnd64 (total_time + time), rnd64 (total_speed + speed))))))"

definition downloads :: "net_env \<Rightarrow> string \<Rightarrow> out list \<times> rat \<times> rat" where
  "downloads e cmd = fold (download_step e cmd) [0..<10] ([], 0, 0)"

definition test_network_download_throughput :: "net_env \<Rightarrow> out list" where
  "test_network_download_throughput e =
     (case downloads e http_cmd of (outs1, time1, speed1) \<Rightarrow>
      case downloads e https_cmd of (outs2, time2, speed2) \<Rightarrow>
        Printf ''=== Network Download Throughput Test ==='' [] #
        Printf ''[HTTP] Testing download from http://speedtest.tele2.net...'' [] # outs1 @
        Printf ''[HTTPS] Testing download from https://proof.ovh.net...'' [] # outs2 @
        [Printf ''--- Average Download Performance ---'' [],
         Printf ''HTTP  (avg): %.3f sec, %.2f MB/s'' [VD (rnd64 (time1 / 10)), VD (mega (rnd64 (speed1 / 10)))],
         Printf ''HTTPS (avg): %.3f sec, %.2f MB/s'' [VD (rnd64 (time2 / 10)), VD (mega (rnd64 (speed2 / 10)))]])"

definition upload_cmd :: "string \<Rightarrow> string" where
  "upload_cmd full_path = ''curl -s -F file=@'' @ full_path @ '' https://0x0.st -w '' @
     dquote # ''%{time_total}'' @ CHR 0x5C # CHR ''n'' # dquote # '' -o /dev/null''"

definition dd_cmd :: string where
  "dd_cmd = ''dd if=/dev/zero of=testfile.dat bs=1M count=10 status=none''"

definition upload_step :: "net_env \<Rightarrow> string \<Rightarrow> nat \<Rightarrow> out list \<times> rat \<Rightarrow> out list \<times> rat" where
  "upload_step e cmd i s = (case s of (outs, total_time) \<Rightarrow>
     (case n_popen e cmd i of
        None \<Rightarrow> (outs @ [Popen cmd, Perror ''Failed to run curl''], total_time)
      | Some stream \<Rightarrow> (case lines_of 128 stream of
          [] \<Rightarrow> (outs @ [Popen cmd], total_time)
        | buffer # _ \<Rightarrow>
            (outs @ [Popen cmd, Printf ''Run %2d: Upload time = %.3f seconds'' [VI (int i + 1), VD (atof buffer)]],
             rnd64 (total_time + atof buffer)))))"

text \<open>The test file is removed afterwards, on QNX wherever it is found.\<close>

definition find_cmd :: string where
  "find_cmd = ''find / -name testfile.dat -exec rm -f {} '' @ [CHR 0x5C, CHR '';'']"

definition upload_cleanup :: "string \<Rightarrow> out list" where
  "upload_cleanup os_name =
     (if strstr os_name ''Ubuntu'' then [Remove ''testfile.dat'']
      else if strstr os_name ''QNX'' then [System find_cmd] else [])"

text \<open>The sum of ten times is divided by twenty.\<close>

definition upload_average :: "rat \<Rightarrow> out list" where
  "upload_average total_time =
     (let avg_time = rnd64 (total_time / 20) in
      [Printf ''--- Average Upload Performance ---'' [],
       Printf ''Avg Time: %.3f sec'' [VD avg_time],
       Printf ''Avg Bitrate: %.2f Mbps'' [VX (fdiv 80 avg_time)]])"

definition test_https_upload_throughput :: "net_env \<Rightarrow> out list" where
  "test_https_upload_throughput e =
     Printf ''=== HTTPS Upload Throughput Test ==='' [] #
     (if n_exists e ''testfile.dat'' then []
      else [Printf ''Creating 10MB test file: %s'' [VS ''testfile.dat''], System dd_cmd]) @
     (if \<not> n_exists e ''testfile.dat'' \<and> n_system e dd_cmd 0 \<noteq> 0 then [Perror ''Failed to create test file'']
      else case n_realpath e of
        None \<Rightarrow> [Perror ''Failed to resolve full path to test file'']
      | Some full_path \<Rightarrow>
          (case fold (upload_step e (upload_cmd full_path)) [0..<10] ([], 0) of (outs, total_time) \<Rightarrow>
           case get_os_name e 1 of (msgs, os_name) \<Rightarrow>
             outs @ msgs @ upload_cleanup os_name @ upload_average total_time))"

section \<open>Authentication log and main\<close>

definition find_pam_cmd :: string where
  "find_pam_cmd = ''find /lib /usr/lib -name '' @ CHR 0x27 # ''libpam.so*'' @ CHR 0x27 # '' 2>/dev/null''"

text \<open>PAM has a configuration; if not, its library is looked for.\<close>

definition pam_configured :: "net_env \<Rightarrow> bool" where
  "pam_configured e \<longleftrightarrow> n_exists e ''/etc/pam.d'' \<or> n_exists e ''/etc/pam.conf''"

definition pam_found :: "net_env \<Rightarrow> bool" where
  "pam_found e \<longleftrightarrow> pam_configured e \<or>
     (case n_popen e find_pam_cmd 0 of None \<Rightarrow> False | Some s \<Rightarrow> lines_of 256 s \<noteq> [])"

definition pam_check :: "net_env \<Rightarrow> out list" where
  "pam_check e =
     Printf ''--- Pluggable Authentication Module(PAM) Check ---'' [] #
     (if pam_configured e then [] else [Popen find_pam_cmd]) @
     [if pam_found e then Printf ''PAM is present on this OS.'' []
      else Printf ''PAM not found on this OS.'' []]"

definition head_cmd :: string where
  "head_cmd = ''head -n 2 /var/log/auth.log''"

definition check_auth_log :: "net_env \<Rightarrow> out list" where
  "check_auth_log e = Printf ''--- Authentication Log Check ---'' [] #
     (if n_readable e ''/var/log/auth.log'' then
        Printf ''%s exists. Showing first 2 lines:'' [VS ''/var/log/auth.log''] # Popen head_cmd #
        (case n_popen e head_cmd 0 of
           None \<Rightarrow> [Perror ''Failed to read auth.log'']
         | Some s \<Rightarrow> map (\<lambda>l. Printf ''%s'' [VS l]) (lines_of 512 s) @ pam_check e)
      else Printf ''%s not found or access denied.'' [VS ''/var/log/auth.log''] # pam_check e)"

definition os_tests :: "net_env \<Rightarrow> string \<Rightarrow> out list option" where
  "os_tests e os_name =
     (if strstr os_name ''Ubuntu'' then do {
        tcp \<leftarrow> ubuntu_check_tcp_ports e;
        udp \<leftarrow> ubuntu_check_udp_ports e;
        Some (test_failed_sudo_attempts e 10 @ test_shadow_access_as_current_user e @ tcp @ udp)
      }
      else if strstr os_name ''QNX'' then do {
        tcp \<leftarrow> qnx_check_tcp_ports e;
        udp \<leftarrow> qnx_check_udp_ports e;
        Some (qnx_test_failed_login_attempts e 5 ''user1'' @ test_shadow_access_as_user1 @ tcp @ udp)
      }
      else Some [Printf ''Unsupported or unrecognized OS. No OS-specific tests run.'' []])"

definition net_main :: "net_env \<Rightarrow> outcome" where
  "net_main e = (case get_os_name e 0 of (msgs, os_name) \<Rightarrow>
     (case os_tests e os_name of
        None \<Rightarrow> undef
      | Some tests \<Rightarrow>
         (msgs @ Printf ''Detected OS: %s'' [VS os_name] #
          check_admin_privileges e @ check_file_access e ''/etc/passwd'' @ check_file_access e ''/etc/shadow'' @
          check_auth_log e @ tests @ check_openssl_version e @ check_openssl_ciphers e @
          print_shadow_root_line e @ test_network_download_throughput e @ test_https_upload_throughput e,
          Exits 0)))"

section \<open>Ports in lines\<close>

lemma find_skip: "(\<And>x. x \<in> set xs \<Longrightarrow> \<not> P x) \<Longrightarrow> P y \<Longrightarrow> find P (xs @ y # ys) = Some y"
  by (induction xs) auto

lemma strtok_all_spaces [simp]: "strtok_all (replicate k CHR '' '' @ s) = strtok_all s"
proof (induction k)
  case (Suc k)
  have "strtok_all (CHR '' '' # s') = strtok_all s'" for s'
    by (simp add: strtok_all.simps [of "CHR '' '' # s'"] strtok_all.simps [of s'])
  with Suc show ?case by simp
qed simp

text \<open>Words in columns: each with the number of spaces after it.\<close>

definition columns :: "(string \<times> nat) list \<Rightarrow> string" where
  "columns ws = concat (map (\<lambda>(w, k). w @ replicate k CHR '' '') ws)"

lemma strtok_all_columns:
  assumes "\<And>w k. (w, k) \<in> set ws \<Longrightarrow> w \<noteq> [] \<and> CHR '' '' \<notin> set w \<and> 0 < k"
  shows "strtok_all (columns ws @ s) = map fst ws @ strtok_all s"
  using assms
proof (induction ws)
  case (Cons x ws)
  obtain w k where x: "x = (w, k)" by fastforce
  with Cons.prems obtain k' where k: "k = Suc k'" by (cases k) auto
  have "strtok_all (w @ CHR '' '' # replicate k' CHR '' '' @ columns ws @ s) =
      w # strtok_all (columns ws @ s)"
    using Cons.prems x by (subst strtok_all_word) auto
  with Cons show ?case by (auto simp: x k columns_def)
qed (simp add: columns_def)

lemma atoi_show_nat: "p < 65536 \<Longrightarrow> atoi (show_nat p) = int p"
  using atoi_show_int [of "int p"] by (simp add: int_ok_def show_int_def)

lemma show_nat_plain: "c \<in> set (show_nat p) \<Longrightarrow> c \<noteq> CHR '':'' \<and> c \<noteq> CHR ''.'' \<and> c \<noteq> CHR '' ''"
  using show_nat_digits [of c p] by (auto simp: isdigit_def)

text \<open>
  A line of the listing: columns, the local address with its port, a space and the rest (more
  spaces and the peer, for instance).
\<close>

record listing =
  li_columns :: "(string \<times> nat) list"
  li_addr :: string
  li_port :: nat
  li_rest :: string

definition list_line :: "char \<Rightarrow> listing \<Rightarrow> string" where
  "list_line sep l = columns (li_columns l) @
     (li_addr l @ sep # show_nat (li_port l)) @ CHR '' '' # li_rest l"

definition listing_ok :: "char \<Rightarrow> listing \<Rightarrow> bool" where
  "listing_ok sep l \<longleftrightarrow> (\<forall>(w, k) \<in> set (li_columns l). w \<noteq> [] \<and> CHR '' '' \<notin> set w \<and> 0 < k) \<and>
     CHR '' '' \<notin> set (li_addr l) \<and> sep \<noteq> CHR '' '' \<and> li_port l < 65536"

lemma list_line_tokens:
  assumes "listing_ok sep l"
  shows "strtok_all (list_line sep l @ s) =
    map fst (li_columns l) @ (li_addr l @ sep # show_nat (li_port l)) # strtok_all (li_rest l @ s)"
proof -
  have "strtok_all ((li_addr l @ sep # show_nat (li_port l)) @ CHR '' '' # li_rest l @ s) =
      (li_addr l @ sep # show_nat (li_port l)) # strtok_all (li_rest l @ s)"
    using assms show_nat_plain by (intro strtok_all_word) (auto simp: listing_ok_def)
  moreover have "strtok_all (columns (li_columns l) @ s') = map fst (li_columns l) @ strtok_all s'" for s'
    by (rule strtok_all_columns) (use assms in \<open>auto simp: listing_ok_def\<close>)
  ultimately show ?thesis by (simp add: list_line_def)
qed

lemma ss_port_line:
  assumes "listing_ok CHR '':'' l" and "\<And>w k. (w, k) \<in> set (li_columns l) \<Longrightarrow> CHR '':'' \<notin> set w"
    and "\<not> strstr (list_line CHR '':'' l @ s) ''Local''"
  shows "ss_port (list_line CHR '':'' l @ s) = Some (int (li_port l))"
proof -
  have "find (\<lambda>t. CHR '':'' \<in> set t) (strtok_all (list_line CHR '':'' l @ s)) =
      Some (li_addr l @ CHR '':'' # show_nat (li_port l))"
    unfolding list_line_tokens [OF assms(1)] by (intro find_skip) (use assms(2) in auto)
  moreover have "after_last CHR '':'' (li_addr l @ CHR '':'' # show_nat (li_port l)) = Some (show_nat (li_port l))"
    using show_nat_plain by (intro after_last_append) blast
  ultimately show ?thesis
    using assms(1,3) by (simp add: ss_port_def atoi_show_nat listing_ok_def)
qed

lemma netstat_port_line:
  assumes "listing_ok CHR ''.'' l" and "length (li_columns l) = 3"
  shows "netstat_port (list_line CHR ''.'' l @ s) = Some (int (li_port l))"
proof -
  have "after_last CHR ''.'' (li_addr l @ CHR ''.'' # show_nat (li_port l)) = Some (show_nat (li_port l))"
    using show_nat_plain by (intro after_last_append) blast
  with assms show ?thesis
    by (simp add: netstat_port_def list_line_tokens atoi_show_nat listing_ok_def)
qed

section \<open>The scan\<close>

definition port_ok :: "int \<Rightarrow> bool" where
  "port_ok p \<longleftrightarrow> 0 < p \<and> p < 65536"

text \<open>The first occurrence of each element, in order.\<close>

definition firsts :: "'a list \<Rightarrow> 'a list" where
  "firsts xs = rev (remdups (rev xs))"

lemma firsts_simps [simp]:
  "firsts [] = []" "firsts (xs @ [x]) = (if x \<in> set xs then firsts xs else firsts xs @ [x])"
  "set (firsts xs) = set xs" "distinct (firsts xs)"
  by (auto simp: firsts_def)

lemma port_step_eq:
  assumes "seen = set printed"
  shows "port_step port_of l (seen, printed) =
    (case filter port_ok (List.map_filter port_of [l]) of
       [] \<Rightarrow> Some (seen, printed)
     | p # _ \<Rightarrow> Some (insert p seen, if p \<in> seen then printed else printed @ [p]))"
  by (auto simp: port_step_def port_ok_def seen_at_def see_def List.map_filter_simps insert_absorb split: option.split)

lemma port_scan_fold:
  "fold (\<lambda>l s. Option.bind s (port_step port_of l)) lines (Some (set ps, firsts ps)) =
    Some (set (ps @ filter port_ok (List.map_filter port_of lines)),
     firsts (ps @ filter port_ok (List.map_filter port_of lines)))"
proof (induction lines arbitrary: ps)
  case Nil
  show ?case by (simp add: List.map_filter_simps)
next
  case (Cons l lines)
  let ?f = "filter port_ok (List.map_filter port_of [l])"
  have "port_step port_of l (set ps, firsts ps) = Some (set (ps @ ?f), firsts (ps @ ?f))"
    by (subst port_step_eq) (auto simp: List.map_filter_simps split: option.split)
  moreover have "ps @ filter port_ok (List.map_filter port_of (l # lines)) =
      (ps @ ?f) @ filter port_ok (List.map_filter port_of lines)"
    by (simp add: List.map_filter_simps split: option.split)
  ultimately show ?case using Cons [of "ps @ ?f"] by simp
qed

lemma port_scan_eq:
  "port_scan port_of lines = Some (firsts (filter port_ok (List.map_filter port_of lines)))"
  using port_scan_fold [of port_of lines "[]"] by (simp add: port_scan_def)

text \<open>So a check is never undefined.\<close>

lemma check_ports_eq:
  "check_ports e header cmd failure fmt port_of = Some (Printf header [] # Popen cmd #
     (case n_popen e cmd 0 of
        None \<Rightarrow> [Perror failure]
      | Some s \<Rightarrow> map (\<lambda>p. Printf fmt [VI p])
          (firsts (filter port_ok (List.map_filter port_of (lines_of 512 s))))))"
  by (simp add: check_ports_def port_scan_eq split: option.split)

section \<open>From the stream to the report\<close>

definition stream_of :: "char \<Rightarrow> listing list \<Rightarrow> string" where
  "stream_of sep ls = concat (map (\<lambda>l. l @ [newline]) (map (list_line sep) ls))"

text \<open>What a line of a listing must be so that the loop sees it whole and as a C string.\<close>

definition line_whole :: "string \<Rightarrow> bool" where
  "line_whole l \<longleftrightarrow> newline \<notin> set l \<and> CHR 0x00 \<notin> set l \<and> length l \<le> 510"

lemma lines_of_stream:
  assumes "\<And>l. l \<in> set ls \<Longrightarrow> line_whole (list_line sep l)"
  shows "lines_of 512 (stream_of sep ls) = map (\<lambda>l. list_line sep l @ [newline]) ls"
proof -
  have "read_lines 510 (stream_of sep ls) = map (\<lambda>l. l @ [newline]) (map (list_line sep) ls)"
    unfolding stream_of_def using assms by (intro read_lines_lines) (auto simp: line_whole_def)
  moreover have "cstr (list_line sep l @ [newline]) = list_line sep l @ [newline]" if "l \<in> set ls" for l
    using assms [OF that] by (intro cstr_id) (auto simp: line_whole_def)
  ultimately show ?thesis by (simp add: lines_of_def)
qed

lemma map_filter_Some: "(\<And>x. x \<in> set xs \<Longrightarrow> f x = Some (g x)) \<Longrightarrow> List.map_filter f xs = map g xs"
  by (induction xs) (simp_all add: List.map_filter_simps)

section \<open>Uploads\<close>

text \<open>The time that run \<open>i\<close> printed, if it could be started and printed a line.\<close>

definition upload_time :: "net_env \<Rightarrow> string \<Rightarrow> nat \<Rightarrow> rat option" where
  "upload_time e cmd i = (case n_popen e cmd i of
     None \<Rightarrow> None
   | Some stream \<Rightarrow> (case lines_of 128 stream of [] \<Rightarrow> None | l # _ \<Rightarrow> Some (atof l)))"

definition double_sum :: "rat list \<Rightarrow> rat" where
  "double_sum xs = fold (\<lambda>x s. rnd64 (s + x)) xs 0"

lemma uploads_total:
  "snd (fold (upload_step e cmd) ks (outs, t)) =
    fold (\<lambda>x s. rnd64 (s + x)) (List.map_filter (upload_time e cmd) ks) t"
proof (induction ks arbitrary: outs t)
  case (Cons k ks)
  then show ?case
    by (simp add: upload_step_def upload_time_def List.map_filter_simps split: option.split list.split)
qed (simp add: List.map_filter_simps)

lemma rnd64_zero_iff: "rnd64 x = 0 \<longleftrightarrow> x = 0"
  using rnd64_pos [of x] rnd64_pos [of "- x"] by (cases "x = 0"; force simp: rnd64_uminus ieee.rnd_0)

lemma upload_average_eq:
  "upload_average total_time =
    [Printf ''--- Average Upload Performance ---'' [],
     Printf ''Avg Time: %.3f sec'' [VD (rnd64 (total_time / 10) / 2)],
     Printf ''Avg Bitrate: %.2f Mbps'' [VX (if total_time = 0 then Infinite False
       else Fin (2 * rnd64 (80 / rnd64 (total_time / 10))))]]"
proof -
  have avg: "rnd64 (total_time / 20) = rnd64 (total_time / 10) / 2" using rnd64_half [of "total_time / 10"] by simp
  have rate: "rnd64 (160 / r) = 2 * rnd64 (80 / r)" for r
    using rnd64_half [of "160 / r"] by simp
  show ?thesis
    by (simp add: upload_average_def Let_def fdiv_def avg rate rnd64_zero_iff)
qed

section \<open>Properties\<close>

text \<open>C31. Whatever the command prints, the scan of a listing reads and writes its array of 65536
  elements only at indices that it has (otherwise the result would be None), and the ports it
  prints are those of the lines, in the order of their first appearance, without the
  numbers that are no port, and none twice: for the listings of both systems.\<close>

theorem port_scan_distinct:
  "\<exists>ports. port_scan port_of lines = Some ports \<and>
    ports = firsts (filter port_ok (List.map_filter port_of lines)) \<and>
    distinct ports \<and> (\<forall>p \<in> set ports. 0 < p \<and> p < 65536)"
  by (auto simp: port_scan_eq port_ok_def)

text \<open>A listing with the same port twice, and a number that is no port.\<close>

theorem port_scan_distinct_witness:
  "\<exists>ports. port_scan ss_port [''tcp LISTEN 0 128 0.0.0.0:22 0.0.0.0:* '', ''tcp LISTEN 0 128 [::]:0 [::]:* '',
       ''tcp LISTEN 0 128 [::]:22 [::]:* ''] = Some ports \<and> ports = [22] \<and> distinct ports"
proof -
  have "port_scan ss_port [''tcp LISTEN 0 128 0.0.0.0:22 0.0.0.0:* '', ''tcp LISTEN 0 128 [::]:0 [::]:* '',
       ''tcp LISTEN 0 128 [::]:22 [::]:* ''] = Some [22]" by code_simp
  with port_scan_distinct [of ss_port "[''tcp LISTEN 0 128 0.0.0.0:22 0.0.0.0:* '', ''tcp LISTEN 0 128 [::]:0 [::]:* '',
       ''tcp LISTEN 0 128 [::]:22 [::]:* '']"] show ?thesis by auto
qed

text \<open>C30. From the output of the command to the report: suppose \<open>ss\<close> prints a listing with one line
  per socket, each with columns without a colon, separated by one or more spaces, then the
  local address and the port after a colon, a space, and anything more; and no line has more
  than 510 characters (the buffer), a NUL, or the word Local (by which the code knows the
  heading). Then the TCP check prints exactly the ports of the sockets, each once, in the
  order of the listing.\<close>

theorem tcp_ports_reported:
  assumes "n_popen e ''ss -tuln | grep LISTEN'' 0 = Some (stream_of CHR '':'' ls)"
    and "\<And>l. l \<in> set ls \<Longrightarrow> listing_ok CHR '':'' l \<and> line_whole (list_line CHR '':'' l) \<and>
      (\<forall>(w, k) \<in> set (li_columns l). CHR '':'' \<notin> set w) \<and> \<not> strstr (list_line CHR '':'' l @ [newline]) ''Local''"
  shows "ubuntu_check_tcp_ports e = Some (Printf ''--- TCP Listening Ports ---'' [] #
    Popen ''ss -tuln | grep LISTEN'' #
    map (\<lambda>p. Printf ''Open TCP port detected: %d'' [VI p])
      (firsts (filter port_ok (map (\<lambda>l. int (li_port l)) ls))))"
proof -
  have "lines_of 512 (stream_of CHR '':'' ls) = map (\<lambda>l. list_line CHR '':'' l @ [newline]) ls"
    using assms(2) by (intro lines_of_stream) blast
  moreover have "List.map_filter (ss_port \<circ> (\<lambda>l. list_line CHR '':'' l @ [newline])) ls = map (\<lambda>l. int (li_port l)) ls"
  proof (rule map_filter_Some)
    fix l
    assume "l \<in> set ls"
    with assms(2) have "listing_ok CHR '':'' l" "\<And>w k. (w, k) \<in> set (li_columns l) \<Longrightarrow> CHR '':'' \<notin> set w"
      "\<not> strstr (list_line CHR '':'' l @ [newline]) ''Local''" by blast+
    then show "(ss_port \<circ> (\<lambda>l. list_line CHR '':'' l @ [newline])) l = Some (int (li_port l))"
      by (simp add: ss_port_line)
  qed
  moreover have "List.map_filter ss_port (map (\<lambda>l. list_line CHR '':'' l @ [newline]) ls) =
      List.map_filter (ss_port \<circ> (\<lambda>l. list_line CHR '':'' l @ [newline])) ls"
    by (induction ls) (simp_all add: List.map_filter_simps split: option.split)
  ultimately show ?thesis
    by (simp add: ubuntu_check_tcp_ports_def check_ports_eq assms(1))
qed

text \<open>C38. The upload test prints half of the average: whatever the runs of \<open>curl\<close> print, the average
  time it reports is exactly half of the (double-precision) tenth of the sum of the times of
  the runs that printed one, which for ten successful runs is their average, because the
  code divides by twenty; and the bitrate is exactly twice the one that belongs to that
  average, or infinite when the sum is zero.\<close>

theorem upload_average_is_half:
  assumes "n_realpath e = Some path" and "n_exists e ''testfile.dat'' \<or> n_system e dd_cmd 0 = 0"
  defines "total_time \<equiv> double_sum (List.map_filter (upload_time e (upload_cmd path)) [0..<10])"
  shows "\<exists>outs. test_https_upload_throughput e = outs @
    [Printf ''--- Average Upload Performance ---'' [],
     Printf ''Avg Time: %.3f sec'' [VD (rnd64 (total_time / 10) / 2)],
     Printf ''Avg Bitrate: %.2f Mbps'' [VX (if total_time = 0 then Infinite False
       else Fin (2 * rnd64 (80 / rnd64 (total_time / 10))))]]"
proof -
  have "snd (fold (upload_step e (upload_cmd path)) [0..<10] ([], 0)) = total_time"
    by (simp add: uploads_total total_time_def double_sum_def)
  moreover have "\<not> (\<not> n_exists e ''testfile.dat'' \<and> n_system e dd_cmd 0 \<noteq> 0)" using assms(2) by blast
  ultimately have "\<exists>outs. test_https_upload_throughput e = outs @ upload_average total_time"
    by (auto simp: test_https_upload_throughput_def assms(1) case_prod_unfold)
  then show ?thesis by (simp add: upload_average_eq)
qed

text \<open>A machine on which \<open>ss\<close> pads its columns and every upload takes a second and a half.\<close>

definition ss_demo :: listing where
  "ss_demo = \<lparr>li_columns = [(''tcp'', 3), (''LISTEN'', 1), (''0'', 6), (''128'', 10)], li_addr = ''[::]'',
     li_port = 22, li_rest = ''      [::]:*    ''\<rparr>"

definition net_demo :: net_env where
  "net_demo = \<lparr>n_popen = (\<lambda>c k. if c = ''ss -tuln | grep LISTEN'' then Some (stream_of CHR '':'' [ss_demo])
       else if c = ''uname -a'' then Some ''Linux vm Ubuntu''
       else Some (''1.500'' @ [newline])),
     n_system = (\<lambda>_ _. 1), n_readable = (\<lambda>_. False), n_exists = (\<lambda>_. True), n_euid = 0,
     n_shadow = None, n_realpath = Some ''/tmp/testfile.dat''\<rparr>"

theorem tcp_ports_reported_witness:
  "ubuntu_check_tcp_ports net_demo =
    Some [Printf ''--- TCP Listening Ports ---'' [], Popen ''ss -tuln | grep LISTEN'',
      Printf ''Open TCP port detected: %d'' [VI 22]]"
proof -
  have "listing_ok CHR '':'' ss_demo \<and> line_whole (list_line CHR '':'' ss_demo) \<and>
      (\<forall>(w, k) \<in> set (li_columns ss_demo). CHR '':'' \<notin> set w) \<and>
      \<not> strstr (list_line CHR '':'' ss_demo @ [newline]) ''Local''"
  proof (intro conjI)
    have line: "list_line CHR '':'' ss_demo =
      ''tcp   LISTEN 0      128          [::]:22       [::]:*    ''" by code_simp
    show "line_whole (list_line CHR '':'' ss_demo)" unfolding line by (simp add: line_whole_def)
    show "\<not> strstr (list_line CHR '':'' ss_demo @ [newline]) ''Local''" unfolding line by code_simp
  qed (simp_all add: ss_demo_def listing_ok_def)
  then show ?thesis
    by (subst tcp_ports_reported [of net_demo "[ss_demo]"])
      (simp_all add: net_demo_def, simp add: ss_demo_def port_ok_def firsts_def)
qed

lemma read_demo: "atof (''1.500'' @ [newline]) = 3 / 2"
proof -
  have "scan_digits 0 ''1500'' = (1500, [])" by (simp add: isdigit_def digit_val_def)
  moreover have "rnd64 (3 / 2) = 3 / 2" by code_simp
  ultimately show ?thesis
    by (simp add: atof_def scan_double_def scan_exponent_def isdigit_def isspace_def Let_def power_int_minus)
qed

lemma sum_demo: "k \<le> 10 \<Longrightarrow> double_sum (replicate k (3 / 2)) = of_nat (3 * k) / 2"
proof (induction k)
  case (Suc k)
  have "replicate (Suc k) (3 / 2 :: rat) = replicate k (3 / 2) @ [3 / 2]"
    by (simp add: replicate_append_same)
  then have "double_sum (replicate (Suc k) (3 / 2)) = rnd64 (double_sum (replicate k (3 / 2)) + 3 / 2)"
    by (simp only: double_sum_def) simp
  also have "\<dots> = rnd64 (of_int (int (3 * Suc k)) / 2)"
  proof -
    have ih: "double_sum (replicate k (3 / 2)) = of_nat (3 * k) / 2" using Suc by simp
    have "of_nat (3 * k) / 2 + 3 / 2 = (of_int (int (3 * Suc k)) / 2 :: rat)"
      by (simp add: add_divide_distrib [symmetric])
    then show ?thesis unfolding ih by (rule arg_cong)
  qed
  also have "\<dots> = of_int (int (3 * Suc k)) / 2"
    unfolding rnd64_half using Suc.prems by (subst ieee.rnd_int) simp_all
  finally show ?case by simp
qed (simp add: double_sum_def)

theorem upload_average_is_half_witness:
  "\<exists>outs. test_https_upload_throughput net_demo = outs @
    [Printf ''--- Average Upload Performance ---'' [], Printf ''Avg Time: %.3f sec'' [VD (3 / 4)],
     Printf ''Avg Bitrate: %.2f Mbps'' [VX (Fin (2 * rnd64 (80 / (3 / 2))))]]"
proof -
  have "lines_of 128 (''1.500'' @ [newline]) = [''1.500'' @ [newline]]" by code_simp
  moreover have "upload_cmd p \<noteq> ''ss -tuln | grep LISTEN''" "upload_cmd p \<noteq> ''uname -a''" for p
    by (simp_all add: upload_cmd_def)
  ultimately have "upload_time net_demo (upload_cmd p) i = Some (3 / 2)" for p i
    using read_demo by (simp add: upload_time_def net_demo_def)
  then have times: "List.map_filter (upload_time net_demo (upload_cmd p)) [0..<10] = replicate 10 (3 / 2)" for p
    by (subst map_filter_Some [where g = "\<lambda>_. 3 / 2"]) (simp_all add: map_replicate_const)
  have sum: "double_sum (replicate 10 (3 / 2)) = 15" using sum_demo [of 10] by simp
  have avg: "rnd64 (15 / 10) = 3 / 2" by code_simp
  have "n_realpath net_demo = Some ''/tmp/testfile.dat''" "n_exists net_demo ''testfile.dat''"
    by (simp_all add: net_demo_def)
  from upload_average_is_half [OF this(1) disjI1 [OF this(2)], unfolded times sum avg]
  show ?thesis by simp
qed

section \<open>The commands that are run\<close>

text \<open>What a part of the program does besides printing.\<close>

fun acts :: "out list \<Rightarrow> out list" where
  "acts [] = []"
| "acts (System c # xs) = System c # acts xs"
| "acts (Popen c # xs) = Popen c # acts xs"
| "acts (Remove f # xs) = Remove f # acts xs"
| "acts (x # xs) = acts xs"

lemma acts_append [simp]: "acts (xs @ ys) = acts xs @ acts ys"
  by (induction xs rule: acts.induct) simp_all

lemma acts_replicate [simp]: "acts (replicate n (System c)) = replicate n (System c)"
  by (induction n) simp_all

lemma acts_printing [simp]: "acts (map (\<lambda>x. Printf (f x) (g x)) xs) = []"
  by (induction xs) simp_all

lemma acts_ports:
  "\<exists>xs. check_ports e header cmd failure fmt port_of = Some xs \<and> acts xs = [Popen cmd]"
  by (simp add: check_ports_eq split: option.split)

definition auth_acts :: "net_env \<Rightarrow> out list" where
  "auth_acts e =
     (if n_readable e ''/var/log/auth.log'' then [Popen head_cmd] else []) @
     (if n_readable e ''/var/log/auth.log'' \<and> n_popen e head_cmd 0 = None \<or> pam_configured e then []
      else [Popen find_pam_cmd])"

lemma acts_auth: "acts (check_auth_log e) = auth_acts e"
  by (simp add: check_auth_log_def pam_check_def auth_acts_def split: option.split)

lemma acts_checks [simp]:
  "acts (fst (get_os_name e k)) = [Popen ''uname -a'']" "acts (check_admin_privileges e) = []"
  "acts (check_file_access e f) = []" "acts (check_openssl_version e) = [Popen ''openssl version'']"
  "acts (check_openssl_ciphers e) = [Popen ''openssl ciphers -v'']"
  "acts (print_shadow_root_line e) = []" "acts (upload_average t) = []"
  by (simp_all add: get_os_name_def check_admin_privileges_def check_file_access_def
      check_openssl_version_def check_openssl_ciphers_def print_shadow_root_line_def
      upload_average_def Let_def split: option.split prod.split)

lemma acts_downloads:
  "acts (fst (fold (download_step e cmd) ks (outs, t, v))) = acts outs @ replicate (length ks) (Popen cmd)"
  by (induction ks arbitrary: outs t v)
    (simp_all add: download_step_def split: option.split list.split prod.split)

lemma acts_uploads:
  "acts (fst (fold (upload_step e cmd) ks (outs, t))) = acts outs @ replicate (length ks) (Popen cmd)"
  by (induction ks arbitrary: outs t)
    (simp_all add: upload_step_def split: option.split list.split)

lemma acts_throughput [simp]:
  "acts (test_network_download_throughput e) = replicate 10 (Popen http_cmd) @ replicate 10 (Popen https_cmd)"
  by (simp add: test_network_download_throughput_def downloads_def case_prod_unfold acts_downloads)

text \<open>The upload test: create the file if need be, upload it ten times, remove it.\<close>

definition upload_acts :: "net_env \<Rightarrow> out list" where
  "upload_acts e =
    (if n_exists e ''testfile.dat'' then [] else [System dd_cmd]) @
    (if \<not> n_exists e ''testfile.dat'' \<and> n_system e dd_cmd 0 \<noteq> 0 then []
     else case n_realpath e of
       None \<Rightarrow> []
     | Some path \<Rightarrow> replicate 10 (Popen (upload_cmd path)) @ Popen ''uname -a'' #
         upload_cleanup (snd (get_os_name e 1)))"

lemma acts_upload: "acts (test_https_upload_throughput e) = upload_acts e"
proof -
  have "acts (upload_cleanup os) = upload_cleanup os" for os by (simp add: upload_cleanup_def)
  then show ?thesis
    by (simp add: test_https_upload_throughput_def upload_acts_def case_prod_unfold acts_uploads split: option.split)
qed

definition os_acts :: "net_env \<Rightarrow> string \<Rightarrow> out list" where
  "os_acts e os_name =
     (if strstr os_name ''Ubuntu'' then
        replicate 10 (System sudo_cmd) @ (if n_euid e = 0 then [] else [System shadow_script]) @
        [Popen ''ss -tuln | grep LISTEN'', Popen ''ss -uln'']
      else if strstr os_name ''QNX'' then
        replicate 5 (System (login_cmd ''user1'')) @ [System user1_script] @
        [Popen ''netstat -an | grep LISTEN'', Popen ''netstat -an | grep udp'']
      else [])"

lemma acts_os_tests: "\<exists>tests. os_tests e os_name = Some tests \<and> acts tests = os_acts e os_name"
  by (auto simp: os_tests_def os_acts_def ubuntu_check_tcp_ports_def ubuntu_check_udp_ports_def
      qnx_check_tcp_ports_def qnx_check_udp_ports_def check_ports_eq
      test_failed_sudo_attempts_def test_shadow_access_as_current_user_def
      qnx_test_failed_login_attempts_def test_shadow_access_as_user1_def split: option.split)

text \<open>C29. All commands the program gives to \<open>popen\<close> and \<open>system\<close>, and the file it removes, in order, with
  the end of the run (it never fails): first \<open>uname\<close>; the authentication log where it can be
  read, and a search for the PAM library unless PAM is configured (or reading the log could not
  be started); then on Ubuntu ten attempts to become root, the script that tries to write and
  remove \<open>/etc/shadow\<close> only where the user is not root, and two listings; on QNX five
  attempts to log in, that script under the name of \<open>user1\<close>, and two listings; on any other
  system nothing; then the two OpenSSL commands, ten downloads from each of two hosts, and
  the uploads: the file is made if there is none, uploaded ten times, and removed on the
  two systems known, unless it could not be made or found.\<close>

theorem net_main_acts:
  "acts (fst (net_main e)) =
     [Popen ''uname -a''] @ auth_acts e @ os_acts e (snd (get_os_name e 0)) @
     [Popen ''openssl version'', Popen ''openssl ciphers -v''] @
     replicate 10 (Popen http_cmd) @ replicate 10 (Popen https_cmd) @ upload_acts e \<and>
   snd (net_main e) = Exits 0"
proof -
  obtain tests where "os_tests e (snd (get_os_name e 0)) = Some tests"
    "acts tests = os_acts e (snd (get_os_name e 0))" using acts_os_tests by blast
  then show ?thesis
    by (simp add: net_main_def acts_auth acts_upload case_prod_unfold)
qed

text \<open>As root on Ubuntu, with the test file in place and no log to read: the script is not run.\<close>

theorem net_main_acts_witness:
  "acts (fst (net_main net_demo)) =
     Popen ''uname -a'' # replicate 10 (System sudo_cmd) @
     [Popen ''ss -tuln | grep LISTEN'', Popen ''ss -uln'', Popen ''openssl version'', Popen ''openssl ciphers -v''] @
     replicate 10 (Popen http_cmd) @ replicate 10 (Popen https_cmd) @
     replicate 10 (Popen (upload_cmd ''/tmp/testfile.dat'')) @ [Popen ''uname -a'', Remove ''testfile.dat'']"
proof -
  have "lines_of 256 ''Linux vm Ubuntu'' = [''Linux vm Ubuntu'']" by code_simp
  then have "snd (get_os_name net_demo k) = ''Linux vm Ubuntu''" for k
    by (simp add: get_os_name_def net_demo_def)
  with net_main_acts [of net_demo] show ?thesis
    by (simp add: auth_acts_def os_acts_def upload_acts_def upload_cleanup_def pam_configured_def net_demo_def)
qed

end
