(* ===== verification/Memory.thy ===== *)
theory Memory
  imports CTime
begin

text \<open>
  The programs of \<open>src/memory\<close> on a heap of blocks: \<open>malloc.c\<close>, \<open>fragment.c\<close>,
  \<open>memleak.c\<close> and \<open>allocator_throughput.c\<close>. Whether the k-th call of \<open>malloc\<close> succeeds is
  an input; freeing a pointer that is neither NULL nor a live block is undefined, and so is
  reading a pointer that was never written.
\<close>

section \<open>The heap\<close>

datatype ptr = Null | Block nat | Indet

record heap =
  live :: "nat set"
  mallocs :: nat

definition empty_heap :: heap where
  "empty_heap = \<lparr>live = {}, mallocs = 0\<rparr>"

text \<open>The k-th call yields the block \<open>k\<close>, which no other call ever yields.\<close>

definition heap_malloc :: "(nat \<Rightarrow> bool) \<Rightarrow> heap \<Rightarrow> ptr \<times> heap" where
  "heap_malloc ok h =
     (if ok (mallocs h) then (Block (mallocs h), h\<lparr>live := insert (mallocs h) (live h), mallocs := Suc (mallocs h)\<rparr>)
      else (Null, h\<lparr>mallocs := Suc (mallocs h)\<rparr>))"

definition heap_free :: "ptr \<Rightarrow> heap \<Rightarrow> heap option" where
  "heap_free p h = (case p of
     Null \<Rightarrow> Some h
   | Block b \<Rightarrow> if b \<in> live h then Some (h\<lparr>live := live h - {b}\<rparr>) else None
   | Indet \<Rightarrow> None)"

type_synonym cells = "ptr list \<times> heap"

text \<open>The allocation loop of two programs: it stops at the first failure.\<close>

definition alloc_pass :: "(nat \<Rightarrow> bool) \<Rightarrow> nat \<Rightarrow> cells \<Rightarrow> (cells, unit) flow" where
  "alloc_pass ok i s = (case s of (ptrs, h) \<Rightarrow> (case heap_malloc ok h of
     (Null, h') \<Rightarrow> Break (ptrs[i := Null], h')
   | (p, h') \<Rightarrow> Next (ptrs[i := p], h')))"

definition free_pass :: "nat \<Rightarrow> cells \<Rightarrow> (cells, unit) flow" where
  "free_pass i s = (case s of (ptrs, h) \<Rightarrow> (case heap_free (ptrs ! i) h of
     None \<Rightarrow> Return () | Some h' \<Rightarrow> Next (ptrs, h')))"

text \<open>What a program leaves behind: its outcome and the blocks still allocated.\<close>

type_synonym leaves = "outcome \<times> nat set"

section \<open>malloc.c\<close>

definition MALLOC_NUM :: nat where "MALLOC_NUM = 10000"

record clock4 =
  ck0 :: int
  ck1 :: int
  ck2 :: int
  ck3 :: int

text \<open>The second half: both times are printed, and all pointers are freed in between.\<close>

definition malloc_rest :: "nat \<Rightarrow> clock4 \<Rightarrow> out list \<Rightarrow> ptr list \<Rightarrow> heap \<Rightarrow> leaves" where
  "malloc_rest N c outs ptrs h =
     (let first = outs @ [Printf ''Allocation Time: %lf seconds'' [VD (clock_seconds (ck0 c) (ck1 c))]] in
      case for_upto free_pass 0 N (ptrs, h) of
        Next (ptrs', h') \<Rightarrow>
          (say_all first (say (Printf ''Deallocation Time: %lf seconds'' [VD (clock_seconds (ck2 c) (ck3 c))])
            (exits 0)), live h')
      | _ \<Rightarrow> ((first, Undef), live h))"

text \<open>The pass of this program also prints at which index it failed.\<close>

definition malloc_pass :: "(nat \<Rightarrow> bool) \<Rightarrow> nat \<Rightarrow> out list \<times> cells \<Rightarrow> (out list \<times> cells, unit) flow" where
  "malloc_pass ok i s = (case s of (outs, c) \<Rightarrow> (case alloc_pass ok i c of
     Next c' \<Rightarrow> Next (outs, c')
   | Break c' \<Rightarrow> Break (outs @ [Printf ''Memory allocation failed at %d'' [VI (int i)]], c')
   | Return u \<Rightarrow> Return u))"

definition malloc_main :: "nat \<Rightarrow> (nat \<Rightarrow> bool) \<Rightarrow> clock4 \<Rightarrow> leaves" where
  "malloc_main N ok c =
     (case for_upto (malloc_pass ok) 0 N ([], replicate N Indet, empty_heap) of
        Return u \<Rightarrow> (undef, {})
      | Next (outs, ptrs, h) \<Rightarrow> malloc_rest N c outs ptrs h
      | Break (outs, ptrs, h) \<Rightarrow> malloc_rest N c outs ptrs h)"

section \<open>fragment.c\<close>

definition FRAGMENT_NUM :: nat where "FRAGMENT_NUM = 1000000"

text \<open>\<open>rands i\<close> is the i-th result of \<open>rand()\<close>.\<close>

definition random_free :: "nat \<Rightarrow> (nat \<Rightarrow> nat) \<Rightarrow> nat \<Rightarrow> cells \<Rightarrow> (cells, unit) flow" where
  "random_free N rands i s = (case s of (ptrs, h) \<Rightarrow>
     let index = rands i mod N in
     (case heap_free (ptrs ! index) h of None \<Rightarrow> Return () | Some h' \<Rightarrow> Next (ptrs[index := Null], h')))"

definition again_pass :: "(nat \<Rightarrow> bool) \<Rightarrow> nat \<Rightarrow> int \<times> heap \<Rightarrow> int \<times> heap" where
  "again_pass ok i s = (case s of (failed_allocs, h) \<Rightarrow> (case heap_malloc ok h of
     (Null, h') \<Rightarrow> (failed_allocs + 1, h') | (_, h') \<Rightarrow> (failed_allocs, h')))"

definition fragment_main :: "nat \<Rightarrow> (nat \<Rightarrow> bool) \<Rightarrow> (nat \<Rightarrow> nat) \<Rightarrow> leaves" where
  "fragment_main N ok rands =
     (let (ptrs, h) = (case for_upto (alloc_pass ok) 0 N (replicate N Indet, empty_heap) of
            Break s \<Rightarrow> s | Next s \<Rightarrow> s | Return u \<Rightarrow> ([], empty_heap))
      in case for_upto (random_free N rands) 0 (N div 2) (ptrs, h) of
        Next (ptrs', h') \<Rightarrow>
          (case fold (again_pass ok) [0..<N div 2] (0, h') of (failed_allocs, h'') \<Rightarrow>
            (say (Printf ''Failed allocations due to fragmentation: %d'' [VI failed_allocs]) (exits 0), live h''))
      | _ \<Rightarrow> (undef, live h))"

section \<open>memleak.c and allocator_throughput.c\<close>

definition NUM_LEAKS :: nat where "NUM_LEAKS = 1000"

definition leak_pass :: "(nat \<Rightarrow> bool) \<Rightarrow> nat \<Rightarrow> heap \<Rightarrow> (heap, out \<times> heap) flow" where
  "leak_pass ok i h = (case heap_malloc ok h of
     (Null, h') \<Rightarrow> Return (Eprintf ''Allocation failed at %d'' [VI (int i)], h') | (_, h') \<Rightarrow> Next h')"

definition leak_main :: "nat \<Rightarrow> (nat \<Rightarrow> bool) \<Rightarrow> leaves" where
  "leak_main N ok = (case for_upto (leak_pass ok) 0 N empty_heap of
     Return (m, h) \<Rightarrow> (say (Printf ''Starting memory leak test...'' []) (die m), live h)
   | Next h \<Rightarrow> (say (Printf ''Starting memory leak test...'' [])
       (say (Printf ''Finished leaking memory. Exiting now.'' []) (exits 0)), live h)
   | Break h \<Rightarrow> (undef, live h))"

definition NUM_ALLOCATIONS :: nat where "NUM_ALLOCATIONS = 1000000"

definition throughput_pass :: "(nat \<Rightarrow> bool) \<Rightarrow> nat \<Rightarrow> cells \<Rightarrow> (cells, out \<times> heap) flow" where
  "throughput_pass ok i s = (case s of (ptrs, h) \<Rightarrow> (case heap_malloc ok h of
     (Null, h') \<Rightarrow> Return (Eprintf ''Failed to allocate memory at iteration %d'' [VI (int i)], h')
   | (p, h') \<Rightarrow> Next (ptrs[i := p], h')))"

definition throughput_report :: "nat \<Rightarrow> timespec \<Rightarrow> timespec \<Rightarrow> out list" where
  "throughput_report N start fin =
     (let total_time = rnd64 (get_time_in_seconds fin - get_time_in_seconds start) in
      [Printf ''Total time: %.6f seconds'' [VD total_time],
       Printf ''Throughput: %.2f operations/second (alloc + free)'' [VX (fdiv (of_nat (N * 2)) total_time)]])"

definition throughput_main :: "nat \<Rightarrow> (nat \<Rightarrow> bool) \<Rightarrow> timespec \<Rightarrow> timespec \<Rightarrow> leaves" where
  "throughput_main N ok start fin = (case heap_malloc ok empty_heap of
     (Null, h) \<Rightarrow> (die (Perror ''Failed to allocate pointer array''), live h)
   | (pointers, h) \<Rightarrow>
       let hello = Printf ''Testing memory throughput with %d allocations of %d bytes each...'' [VI (int N), VI 64] in
       (case for_upto (throughput_pass ok) 0 N (replicate N Indet, h) of
          Return (m, h') \<Rightarrow> (say hello (die m), live h')
        | Next (ptrs, h') \<Rightarrow>
            (case for_upto free_pass 0 N (ptrs, h') of
               Next (_, h'') \<Rightarrow> (case heap_free pointers h'' of
                   None \<Rightarrow> (undef, live h'')
                 | Some h3 \<Rightarrow> (say hello (say_all (throughput_report N start fin) (exits 0)), live h3))
             | _ \<Rightarrow> (undef, live h'))
        | Break s \<Rightarrow> (undef, {})))"

section \<open>Lemmas\<close>

text \<open>After \<open>f\<close> successful calls: the first \<open>f\<close> cells hold the blocks, the rest are unwritten.\<close>

definition filled :: "nat \<Rightarrow> nat \<Rightarrow> ptr list" where
  "filled N f = map Block [0..<f] @ replicate (N - f) Indet"

definition heap_of :: "nat \<Rightarrow> nat \<Rightarrow> heap" where
  "heap_of f k = \<lparr>live = {..<f}, mallocs = k\<rparr>"

lemma filled_0: "filled N 0 = replicate N Indet" "heap_of 0 0 = empty_heap"
  by (simp_all add: filled_def heap_of_def empty_heap_def)

lemma filled_nth:
  "i < f \<Longrightarrow> f \<le> N \<Longrightarrow> filled N f ! i = Block i"
  "f \<le> i \<Longrightarrow> i < N \<Longrightarrow> filled N f ! i = Indet"
  "f \<le> N \<Longrightarrow> length (filled N f) = N"
  by (simp_all add: filled_def nth_append)

lemma filled_update: "f < N \<Longrightarrow> (filled N f)[f := Block f] = filled N (Suc f)"
proof (rule nth_equalityI)
  fix i
  assume f: "f < N" "i < length ((filled N f)[f := Block f])"
  then have "i < N" by (simp add: filled_nth)
  with f show "(filled N f)[f := Block f] ! i = filled N (Suc f) ! i"
    by (cases "i = f"; cases "i < f") (simp_all add: filled_nth nth_list_update)
qed (simp add: filled_nth)

lemma alloc_pass_ok:
  "i < N \<Longrightarrow> ok i \<Longrightarrow> alloc_pass ok i (filled N i, heap_of i i) = Next (filled N (Suc i), heap_of (Suc i) (Suc i))"
  using filled_update [of i N] by (simp add: alloc_pass_def heap_malloc_def heap_of_def lessThan_Suc)

lemma alloc_pass_fail:
  "\<not> ok i \<Longrightarrow> alloc_pass ok i (filled N i, heap_of i i) = Break ((filled N i)[i := Null], heap_of i (Suc i))"
  by (simp add: alloc_pass_def heap_malloc_def heap_of_def)

text \<open>The whole allocation loop: all succeed, or \<open>f\<close> is the first that fails.\<close>

lemma alloc_loop_all:
  assumes "\<And>i. i < N \<Longrightarrow> ok i" "k + i = N"
  shows "for_upto (alloc_pass ok) i k (filled N i, heap_of i i) = Next (filled N N, heap_of N N)"
  using assms(2) by (induction k arbitrary: i) (simp_all add: alloc_pass_ok assms(1))

lemma alloc_loop_fail:
  assumes "f < N" "\<not> ok f" "\<And>i. i < f \<Longrightarrow> ok i" "i \<le> f" "k + i = N"
  shows "for_upto (alloc_pass ok) i k (filled N i, heap_of i i) = Break ((filled N f)[f := Null], heap_of f (Suc f))"
  using assms(4,5)
proof (induction k arbitrary: i)
  case (Suc k)
  show ?case
  proof (cases "i = f")
    case True
    with assms(2) show ?thesis by (simp add: alloc_pass_fail)
  next
    case False
    with Suc.prems have "i < f" "i < N" using assms(1) by auto
    with Suc assms(3) show ?thesis by (simp add: alloc_pass_ok)
  qed
qed (use assms(1) in simp)


lemma for_upto_add:
  "for_upto body i (k + m) s =
     (case for_upto body i k s of Next s' \<Rightarrow> for_upto body (i + k) m s' | Break s' \<Rightarrow> Break s' | Return r \<Rightarrow> Return r)"
  by (induction k arbitrary: i s) (auto split: flow.split)

text \<open>The freeing loop over cells that hold their blocks.\<close>

lemma free_loop:
  assumes "\<And>j. i \<le> j \<Longrightarrow> j < i + k \<Longrightarrow> ptrs ! j = Block j" "live h = {i..<n}" "i + k \<le> n"
  shows "for_upto free_pass i k (ptrs, h) = Next (ptrs, h\<lparr>live := {i + k..<n}\<rparr>)"
  using assms
proof (induction k arbitrary: i h)
  case (Suc k)
  have "live h - {i} = {Suc i..<n}" using Suc.prems by auto
  then have "free_pass i (ptrs, h) = Next (ptrs, h\<lparr>live := {Suc i..<n}\<rparr>)"
    using Suc.prems by (simp add: free_pass_def heap_free_def)
  then show ?case using Suc.IH [of "Suc i" "h\<lparr>live := {Suc i..<n}\<rparr>"] Suc.prems by simp
qed simp

lemma free_filled:
  "for_upto free_pass 0 N (filled N N, heap_of N k) = Next (filled N N, heap_of 0 k)"
  using free_loop [of 0 N "filled N N" "heap_of N k" N] by (simp add: filled_nth heap_of_def lessThan_atLeast0)

lemma free_failed:
  assumes "f < N"
  shows "for_upto free_pass 0 N ((filled N f)[f := Null], heap_of f k) =
    (if Suc f = N then Next ((filled N f)[f := Null], heap_of 0 k) else Return ())"
proof -
  let ?p = "(filled N f)[f := Null]"
  have first: "for_upto free_pass 0 f (?p, heap_of f k) = Next (?p, heap_of 0 k)"
    using free_loop [of 0 f ?p "heap_of f k" f] assms
    by (simp add: filled_nth heap_of_def lessThan_atLeast0)
  have null: "free_pass f (?p, heap_of 0 k) = Next (?p, heap_of 0 k)"
    using assms by (simp add: free_pass_def heap_free_def filled_nth)
  have indet: "free_pass (Suc f) (?p, heap_of 0 k) = Return ()" if "Suc f < N"
    using that by (simp add: free_pass_def heap_free_def filled_nth)
  show ?thesis
  proof (cases "Suc f = N")
    case True
    with first null show ?thesis using for_upto_add [of free_pass 0 f 1 "(?p, heap_of f k)"] by simp
  next
    case False
    with assms have N: "f + Suc (Suc (N - Suc (Suc f))) = N" by simp
    have "for_upto free_pass 0 (f + Suc (Suc (N - Suc (Suc f)))) (?p, heap_of f k) = Return ()"
      unfolding for_upto_add using first null indet False assms by simp
    with False show ?thesis unfolding N by simp
  qed
qed

text \<open>The pass of \<open>malloc.c\<close> adds its message to the loop of the other programs.\<close>

lemma malloc_loop:
  "for_upto (malloc_pass ok) i k (outs, c) = (case for_upto (alloc_pass ok) i k c of
     Next c' \<Rightarrow> Next (outs, c')
   | Break c' \<Rightarrow> Break (outs @ [Printf ''Memory allocation failed at %d'' [VI (int (mallocs (snd c') - 1 - (mallocs (snd c) - i)))]], c')
   | Return u \<Rightarrow> Return u)"
  if "i \<le> mallocs (snd c)"
  using that
proof (induction k arbitrary: i c)
  case (Suc k)
  then show ?case
    by (cases c) (auto simp: malloc_pass_def alloc_pass_def heap_malloc_def split: flow.split ptr.split)
qed simp


lemma alloc_loop:
  assumes "first_failure ok N f"
  shows "for_upto (alloc_pass ok) 0 N (replicate N Indet, empty_heap) =
    (if f = N then Next (filled N N, heap_of N N) else Break ((filled N f)[f := Null], heap_of f (Suc f)))"
proof -
  from assms have f: "f \<le> N" "\<And>i. i < f \<Longrightarrow> ok i" "f = N \<or> \<not> ok f"
    by (auto simp: first_failure_def)
  show ?thesis
  proof (cases "f = N")
    case True
    with f show ?thesis using alloc_loop_all [of N ok N 0] by (simp add: filled_0)
  next
    case False
    with f show ?thesis using alloc_loop_fail [of f N ok 0 N] by (simp add: filled_0)
  qed
qed

text \<open>C19. \<open>malloc.c\<close>, where \<open>f\<close> is the index of its first failing \<open>malloc\<close> (or \<open>N\<close> when none
  fails): without a failure it prints both times, ends with status 0 and leaves no block
  allocated. A failure of the very last call is reported and harmless, since \<open>free(NULL)\<close> is
  allowed. After any earlier failure the freeing loop passes \<open>free\<close> the elements of the array
  that were never written, after the message and the allocation time are printed: the behaviour
  is undefined, with the \<open>f\<close> blocks allocated when that loop starts.\<close>

theorem malloc_outcomes:
  assumes "first_failure ok N f"
  shows "malloc_main N ok c =
    (let alloc = Printf ''Allocation Time: %lf seconds'' [VD (clock_seconds (ck0 c) (ck1 c))];
         dealloc = Printf ''Deallocation Time: %lf seconds'' [VD (clock_seconds (ck2 c) (ck3 c))];
         failed = Printf ''Memory allocation failed at %d'' [VI (int f)]
     in if f = N then (([alloc, dealloc], Exits 0), {})
        else if Suc f = N then (([failed, alloc, dealloc], Exits 0), {})
        else (([failed, alloc], Undef), {..<f}))"
proof (cases "f = N")
  case True
  with alloc_loop [OF assms] show ?thesis
    by (simp add: malloc_main_def malloc_loop malloc_rest_def filled_0 free_filled) (simp add: heap_of_def)
next
  case False
  with assms have "f < N" by (simp add: first_failure_def)
  with alloc_loop [OF assms] free_failed [of f N "Suc f"] show ?thesis
    by (auto simp: malloc_main_def malloc_loop malloc_rest_def) (auto simp: heap_of_def empty_heap_def)
qed

text \<open>The third of ten thousand calls fails: the run is undefined.\<close>

theorem malloc_outcomes_witness:
  "malloc_main MALLOC_NUM (\<lambda>i. i \<noteq> 2) \<lparr>ck0 = 0, ck1 = 500000, ck2 = 600000, ck3 = 700000\<rparr> =
    (([Printf ''Memory allocation failed at %d'' [VI 2],
       Printf ''Allocation Time: %lf seconds'' [VD (1 / 2)]], Undef), {..<2})"
proof -
  have "first_failure (\<lambda>i. i \<noteq> 2) MALLOC_NUM 2" by (auto simp: first_failure_def MALLOC_NUM_def)
  moreover have "clock_seconds 0 500000 = 1 / 2" by code_simp
  ultimately show ?thesis
    using malloc_outcomes [of "\<lambda>i. i \<noteq> 2" MALLOC_NUM 2 "\<lparr>ck0 = 0, ck1 = 500000, ck2 = 600000, ck3 = 700000\<rparr>"]
    by (simp add: MALLOC_NUM_def)
qed


text \<open>
  The random frees of \<open>fragment.c\<close>: a freed cell is NULL, so that a second choice of the same
  index is harmless; an index whose cell was never written is undefined.
\<close>

definition chosen :: "nat \<Rightarrow> (nat \<Rightarrow> nat) \<Rightarrow> nat \<Rightarrow> nat set" where
  "chosen N rands k = (\<lambda>i. rands i mod N) ` {..<k}"

definition freed_inv :: "nat \<Rightarrow> nat \<Rightarrow> nat set \<Rightarrow> nat \<Rightarrow> ptr list \<times> heap \<Rightarrow> bool" where
  "freed_inv N f D k s \<longleftrightarrow> (length (fst s) = N \<and> mallocs (snd s) = k \<and> live (snd s) = {..<f} - D \<and>
     (\<forall>j<N. fst s ! j = (if j \<in> D \<or> j = f then Null else if j < f then Block j else Indet)))"

lemma random_free_step:
  assumes "freed_inv N f D k s" "0 < N" "f \<le> N"
  shows "if rands i mod N \<le> f then (\<exists>s'. random_free N rands i s = Next s' \<and> freed_inv N f (insert (rands i mod N) D) k s')
    else rands i mod N \<notin> D \<longrightarrow> random_free N rands i s = Return ()"
proof -
  obtain ptrs h where s: "s = (ptrs, h)" by (cases s)
  let ?j = "rands i mod N"
  have j: "?j < N" using assms(2) by simp
  from assms(1) j have cell: "ptrs ! ?j = (if ?j \<in> D \<or> ?j = f then Null else if ?j < f then Block ?j else Indet)"
    by (simp add: freed_inv_def s)
  have "?j \<in> D \<or> ?j = f \<or> ?j \<in> {..<f} - D" if "?j \<le> f" using that by auto
  moreover have "random_free N rands i s = Next (ptrs[?j := Null], h\<lparr>live := live h - {?j}\<rparr>)" if "?j \<le> f"
  proof -
    have "live h - {?j} = live h" if "?j \<in> D \<or> ?j = f"
      using that assms(1) by (auto simp: freed_inv_def s)
    moreover have "?j \<in> live h" if "?j \<notin> D" "?j < f"
      using that assms(1) by (auto simp: freed_inv_def s)
    ultimately show ?thesis
      using cell \<open>?j \<le> f\<close> by (cases "?j \<in> D \<or> ?j = f") (auto simp: random_free_def heap_free_def s Let_def)
  qed
  moreover have "freed_inv N f (insert ?j D) k (ptrs[?j := Null], h\<lparr>live := live h - {?j}\<rparr>)"
    using assms(1) j by (auto simp: freed_inv_def s nth_list_update)
  moreover have "random_free N rands i s = Return ()" if "\<not> ?j \<le> f" "?j \<notin> D"
    using that cell by (simp add: random_free_def heap_free_def s Let_def)
  ultimately show ?thesis by auto
qed

lemma random_loop:
  assumes "freed_inv N f (chosen N rands i) k s" "0 < N" "f \<le> N" "chosen N rands i \<subseteq> {..f}"
  shows "if chosen N rands (i + m) \<subseteq> {..f}
    then \<exists>s'. for_upto (random_free N rands) i m s = Next s' \<and> freed_inv N f (chosen N rands (i + m)) k s'
    else for_upto (random_free N rands) i m s = Return ()"
  using assms(1,4)
proof (induction m arbitrary: i s)
  case (Suc m)
  have next_D: "chosen N rands (Suc i) = insert (rands i mod N) (chosen N rands i)"
    by (simp add: chosen_def lessThan_Suc)
  have "rands i mod N \<in> chosen N rands (i + Suc m)" by (auto simp: chosen_def)
  moreover have "rands i mod N \<le> f \<Longrightarrow> chosen N rands (Suc i) \<subseteq> {..f}" using Suc.prems(2) next_D by auto
  moreover have "rands i mod N \<notin> chosen N rands i" if "\<not> rands i mod N \<le> f" using that Suc.prems(2) by auto
  ultimately show ?case
  proof (cases "rands i mod N \<le> f")
    case True
    then obtain s' where s': "random_free N rands i s = Next s'" "freed_inv N f (chosen N rands (Suc i)) k s'"
      using random_free_step [OF Suc.prems(1) assms(2,3), of rands i] next_D by auto
    have "chosen N rands (Suc i) \<subseteq> {..f}" using True Suc.prems(2) next_D by auto
    from Suc.IH [OF s'(2) this] s'(1) show ?thesis
      by (cases "chosen N rands (Suc (i + m)) \<subseteq> {..f}") simp_all
  next
    case False
    then have "rands i mod N \<notin> chosen N rands i" using Suc.prems(2) by auto
    then have "random_free N rands i s = Return ()"
      using random_free_step [OF Suc.prems(1) assms(2,3), of rands i] False by auto
    moreover have "\<not> chosen N rands (i + Suc m) \<subseteq> {..f}"
      using False \<open>rands i mod N \<in> chosen N rands (i + Suc m)\<close> by auto
    ultimately show ?thesis by simp
  qed
qed auto

lemma again_loop:
  assumes "live h \<subseteq> {..<mallocs h}"
  shows "fold (again_pass ok) [i..<i + m] (a, h) =
    (a + int (card {j. j < m \<and> \<not> ok (mallocs h + j)}),
     \<lparr>live = live h \<union> {j. mallocs h \<le> j \<and> j < mallocs h + m \<and> ok j}, mallocs = mallocs h + m\<rparr>)"
proof (induction m)
  case 0
  have "live h \<union> {j. mallocs h \<le> j \<and> j < mallocs h \<and> ok j} = live h" by auto
  then show ?case by (cases h) auto
next
  case (Suc m)
  have "{j. j < Suc m \<and> \<not> ok (mallocs h + j)} =
      (if ok (mallocs h + m) then {} else {m}) \<union> {j. j < m \<and> \<not> ok (mallocs h + j)}"
    by (auto simp: less_Suc_eq)
  moreover have "{j. mallocs h \<le> j \<and> j < mallocs h + Suc m \<and> ok j} =
      (if ok (mallocs h + m) then {mallocs h + m} else {}) \<union> {j. mallocs h \<le> j \<and> j < mallocs h + m \<and> ok j}"
    by (auto simp: less_Suc_eq)
  ultimately show ?case
    using Suc.IH by (auto simp: again_pass_def heap_malloc_def)
qed

text \<open>C20. \<open>fragment.c\<close>, where \<open>f\<close> is the index of its first failing \<open>malloc\<close> (or \<open>N\<close> when
  none fails): if every index drawn is at most \<open>f\<close>, no free is of a pointer that was not
  written, a repeated index frees NULL, and the program prints how many of the \<open>N div 2\<close> later
  calls failed; the undrawn blocks and the later ones stay allocated. If some index drawn is
  greater, the behaviour is undefined.\<close>

theorem fragment_outcomes:
  assumes "first_failure ok N f" "0 < N"
  shows "fragment_main N ok rands =
    (let calls = (if f = N then N else Suc f);
         drawn = (\<lambda>i. rands i mod N) ` {..<N div 2};
         later = {i. i < N div 2 \<and> \<not> ok (calls + i)}
     in if drawn \<subseteq> {..f}
        then (([Printf ''Failed allocations due to fragmentation: %d'' [VI (int (card later))]], Exits 0),
              ({..<f} - drawn) \<union> {i. calls \<le> i \<and> i < calls + N div 2 \<and> ok i})
        else (undef, {..<f}))"
proof -
  define calls where "calls = (if f = N then N else Suc f)"
  define s where "s = ((if f = N then filled N N else (filled N f)[f := Null]), heap_of f calls)"
  have f: "f \<le> N" using assms(1) by (simp add: first_failure_def)
  have "for_upto (alloc_pass ok) 0 N (replicate N Indet, empty_heap) = (if f = N then Next s else Break s)"
    using alloc_loop [OF assms(1)] by (simp add: s_def calls_def)
  then have main: "fragment_main N ok rands = (case for_upto (random_free N rands) 0 (N div 2) s of
      Next (ptrs', h') \<Rightarrow> (case fold (again_pass ok) [0..<N div 2] (0, h') of (failed_allocs, h'') \<Rightarrow>
        (say (Printf ''Failed allocations due to fragmentation: %d'' [VI failed_allocs]) (exits 0), live h''))
      | _ \<Rightarrow> (undef, {..<f}))"
    by (cases "f = N") (simp_all add: fragment_main_def s_def heap_of_def split: flow.split)
  have "freed_inv N f (chosen N rands 0) calls s"
    using f by (auto simp: freed_inv_def s_def calls_def heap_of_def chosen_def filled_nth nth_list_update)
  moreover have "chosen N rands 0 \<subseteq> {..f}" by (simp add: chosen_def)
  ultimately have loop: "if chosen N rands (N div 2) \<subseteq> {..f}
    then \<exists>s'. for_upto (random_free N rands) 0 (N div 2) s = Next s' \<and> freed_inv N f (chosen N rands (N div 2)) calls s'
    else for_upto (random_free N rands) 0 (N div 2) s = Return ()"
    using random_loop [OF _ assms(2) f, of rands 0 calls s "N div 2"] unfolding add_0 by blast
  show ?thesis
  proof (cases "chosen N rands (N div 2) \<subseteq> {..f}")
    case True
    with loop obtain s' where s': "for_upto (random_free N rands) 0 (N div 2) s = Next s'"
      "freed_inv N f (chosen N rands (N div 2)) calls s'" by metis
    obtain ptrs h where p: "s' = (ptrs, h)" by (rule prod.exhaust)
    from s'(2) have h: "live h = {..<f} - chosen N rands (N div 2)" "mallocs h = calls"
      unfolding p freed_inv_def by simp_all
    have "f \<le> calls" using f unfolding calls_def by simp
    then have "live h \<subseteq> {..<mallocs h}" unfolding h by auto
    from again_loop [OF this, of ok 0 "N div 2" 0]
    show ?thesis
      using True unfolding main s'(1) p h calls_def [symmetric] by (simp add: Let_def chosen_def)
  next
    case False
    with loop show ?thesis by (simp add: main chosen_def calls_def Let_def)
  qed
qed

text \<open>Four cells, the third call fails: drawing 0 twice is fine, drawing 3 is not.\<close>

theorem fragment_outcomes_witness:
  "fragment_main 4 (\<lambda>i. i \<noteq> 2) (\<lambda>i. 8) =
    (([Printf ''Failed allocations due to fragmentation: %d'' [VI 0]], Exits 0), {1, 3, 4}) \<and>
   fragment_main 4 (\<lambda>i. i \<noteq> 2) (\<lambda>i. 4 * i + 3) = (undef, {0, 1})"
proof -
  have f: "first_failure (\<lambda>i. i \<noteq> 2) 4 2" by (auto simp: first_failure_def)
  have sets: "{..<2::nat} = {0, 1}" "{..<4 div 2::nat} = {0, 1}" by auto
  have "{i. i < 2 \<and> 3 + i = 2} = ({} :: nat set)" "{i. 3 \<le> i \<and> i < 5 \<and> i \<noteq> 2} = {3, 4 :: nat}" by auto
  moreover have "{0, Suc 0} - {0} \<union> {3, 4} = {1, 3, 4 :: nat}" by auto
  ultimately have "fragment_main 4 (\<lambda>i. i \<noteq> 2) (\<lambda>i. 8) =
    (([Printf ''Failed allocations due to fragmentation: %d'' [VI 0]], Exits 0), {1, 3, 4})"
    using fragment_outcomes [OF f, of "\<lambda>i. 8"] by (simp add: sets Let_def)
  moreover have "fragment_main 4 (\<lambda>i. i \<noteq> 2) (\<lambda>i. 4 * i + 3) = (undef, {0, 1})"
    using fragment_outcomes [OF f, of "\<lambda>i. 4 * i + 3"] by (simp add: sets Let_def)
  ultimately show ?thesis by blast
qed


section \<open>What the other two leave behind\<close>

text \<open>The heap of a program that keeps its first allocation and then makes \<open>i\<close> more.\<close>

lemma heap_malloc_of: "heap_malloc ok (heap_of k k) =
    (if ok k then (Block k, heap_of (Suc k) (Suc k)) else (Null, heap_of k (Suc k)))"
  by (simp add: heap_malloc_def heap_of_def lessThan_Suc)

lemma leak_loop:
  assumes "\<And>i. i < f \<Longrightarrow> ok i" "f \<le> N" "f = N \<or> \<not> ok f" "i \<le> f" "i + k = N"
  shows "for_upto (leak_pass ok) i k (heap_of i i) = (if f = N then Next (heap_of N N)
    else Return (Eprintf ''Allocation failed at %d'' [VI (int f)], heap_of f (Suc f)))"
  using assms(4,5)
proof (induction k arbitrary: i)
  case (Suc k)
  from Suc.prems assms(1-3) Suc.IH [of "Suc i"] show ?case
    by (cases "i = f") (simp_all add: leak_pass_def heap_malloc_of)
qed (use assms in simp)

text \<open>\<open>memleak.c\<close> leaves every block it got, however it ends.\<close>

lemma leak_main_leaves:
  assumes "first_failure ok N f"
  shows "leak_main N ok =
    (([Printf ''Starting memory leak test...'' [],
       if f = N then Printf ''Finished leaking memory. Exiting now.'' []
       else Eprintf ''Allocation failed at %d'' [VI (int f)]], Exits (if f = N then 0 else 1)), {..<f})"
  using leak_loop [of f ok N 0 N] assms filled_0(2)
  by (auto simp: leak_main_def first_failure_def) (auto simp: heap_of_def)


text \<open>The cells and the heap of \<open>allocator_throughput.c\<close> after \<open>i\<close> allocations: block 0 is the array.\<close>

lemma throughput_loop:
  assumes "\<And>i. i < f \<Longrightarrow> ok (Suc i)" "f \<le> N" "f = N \<or> \<not> ok (Suc f)" "i \<le> f" "i + k = N"
  shows "for_upto (throughput_pass ok) i k
      (map (\<lambda>j. Block (Suc j)) [0..<i] @ replicate (N - i) Indet, heap_of (Suc i) (Suc i)) =
    (if f = N then Next (map (\<lambda>j. Block (Suc j)) [0..<N], heap_of (Suc N) (Suc N))
    else Return (Eprintf ''Failed to allocate memory at iteration %d'' [VI (int f)], heap_of (Suc f) (Suc (Suc f))))"
  using assms(4,5)
proof (induction k arbitrary: i)
  case (Suc k)
  have "(map (\<lambda>j. Block (Suc j)) [0..<i] @ replicate (N - i) Indet)[i := Block (Suc i)] =
      map (\<lambda>j. Block (Suc j)) [0..<Suc i] @ replicate (N - Suc i) Indet" if "i < N"
    using that by (simp add: list_update_append Suc_diff_Suc [symmetric])
  with Suc.prems assms(1-3) Suc.IH [of "Suc i"] show ?case
    by (cases "i = f") (simp_all add: throughput_pass_def heap_malloc_of)
qed (use assms in simp)

lemma free_shifted:
  "i + k = N \<Longrightarrow> live h = insert 0 {Suc i..<Suc N} \<Longrightarrow>
   for_upto free_pass i k (map (\<lambda>j. Block (Suc j)) [0..<N], h) =
     Next (map (\<lambda>j. Block (Suc j)) [0..<N], h\<lparr>live := {0}\<rparr>)"
proof (induction k arbitrary: i h)
  case (Suc k)
  then have "live h - {Suc i} = insert 0 {Suc (Suc i)..<Suc N}" by auto
  then show ?case
    using Suc.prems Suc.IH [of "Suc i" "h\<lparr>live := insert 0 {Suc (Suc i)..<Suc N}\<rparr>"]
    by (simp add: free_pass_def heap_free_def)
qed simp

text \<open>\<open>allocator_throughput.c\<close>: when the array and all blocks are allocated it frees all of
  them and the array, and prints the elapsed time and two operations per allocation divided by
  it; when call \<open>f\<close> of the loop is the first to fail it says so and ends with status 1, keeping
  the array and the \<open>f\<close> blocks; without the array it does nothing. It never frees a pointer that
  was not written.\<close>

theorem throughput_outcomes:
  assumes "first_failure (\<lambda>i. ok (Suc i)) N f"
  shows "throughput_main N ok start fin =
    (let hello = Printf ''Testing memory throughput with %d allocations of %d bytes each...'' [VI (int N), VI 64]
     in if \<not> ok 0 then (([Perror ''Failed to allocate pointer array''], Exits 1), {})
        else if f = N then ((hello # throughput_report N start fin, Exits 0), {})
        else (([hello, Eprintf ''Failed to allocate memory at iteration %d'' [VI (int f)]], Exits 1), {..<Suc f}))"
proof -
  have "for_upto (throughput_pass ok) 0 N (replicate N Indet, heap_of 1 1) =
    (if f = N then Next (map (\<lambda>j. Block (Suc j)) [0..<N], heap_of (Suc N) (Suc N))
    else Return (Eprintf ''Failed to allocate memory at iteration %d'' [VI (int f)], heap_of (Suc f) (Suc (Suc f))))"
    using throughput_loop [of f ok N 0 N] assms by (simp add: first_failure_def)
  moreover have "{..<Suc N} = insert 0 {Suc 0..<Suc N}" by auto
  then have "for_upto free_pass 0 N (map (\<lambda>j. Block (Suc j)) [0..<N], heap_of (Suc N) (Suc N)) =
     Next (map (\<lambda>j. Block (Suc j)) [0..<N], (heap_of (Suc N) (Suc N))\<lparr>live := {0}\<rparr>)"
    using free_shifted [of 0 N N "heap_of (Suc N) (Suc N)"] by (simp add: heap_of_def)
  moreover have "heap_malloc ok empty_heap = (if ok 0 then (Block 0, heap_of 1 1) else (Null, heap_of 0 1))"
    using heap_malloc_of [of ok 0] by (simp add: filled_0)
  ultimately show ?thesis
    by (simp add: throughput_main_def heap_free_def Let_def) (simp add: heap_of_def)
qed

theorem throughput_outcomes_witness:
  "throughput_main NUM_ALLOCATIONS (\<lambda>i. i \<noteq> 3) \<lparr>tv_sec = 5, tv_nsec = 0\<rparr> \<lparr>tv_sec = 6, tv_nsec = 0\<rparr> =
    (([Printf ''Testing memory throughput with %d allocations of %d bytes each...'' [VI 1000000, VI 64],
       Eprintf ''Failed to allocate memory at iteration %d'' [VI 2]], Exits 1), {0, 1, 2})"
proof -
  have "first_failure (\<lambda>i. Suc i \<noteq> 3) NUM_ALLOCATIONS 2"
    by (auto simp: first_failure_def NUM_ALLOCATIONS_def)
  moreover have "{..<3::nat} = {0, 1, 2}" by auto
  ultimately show ?thesis
    using throughput_outcomes [of "\<lambda>i. i \<noteq> 3" NUM_ALLOCATIONS 2 "\<lparr>tv_sec = 5, tv_nsec = 0\<rparr>" "\<lparr>tv_sec = 6, tv_nsec = 0\<rparr>"]
    by (simp add: NUM_ALLOCATIONS_def Let_def)
qed

end
