(* ===== verification/FileMeta.thy ===== *)
theory FileMeta
  imports CText CTime
begin

text \<open>
  \<open>src/file_systems/file_meta.c\<close> on a file system of paths: which directories and which (empty)
  regular files exist. The command that the program gives to the shell is not its own code:
  the shell is a function on file systems that the model takes as an input, and the theorem
  states what it relies on (that \<open>rm -rf\<close> of a path removes the path and all below it).
  Every call can fail, and the program checks only \<open>fopen\<close>.
\<close>

section \<open>The file system\<close>

record fs =
  dirs :: "string set"
  files :: "string set"

definition below :: "string \<Rightarrow> string \<Rightarrow> bool" where
  "below d p \<longleftrightarrow> take (Suc (length d)) p = d @ ''/''"

text \<open>The part of a path before its last slash.\<close>

definition parent :: "string \<Rightarrow> string" where
  "parent p = rev (tl (dropWhile (\<lambda>c. c \<noteq> CHR ''/'') (rev p)))"

definition rm_rf :: "string \<Rightarrow> fs \<Rightarrow> fs" where
  "rm_rf d s = \<lparr>dirs = Set.filter (\<lambda>p. p \<noteq> d \<and> \<not> below d p) (dirs s),
     files = Set.filter (\<lambda>p. p \<noteq> d \<and> \<not> below d p) (files s)\<rparr>"

definition fs_mkdir :: "string \<Rightarrow> fs \<Rightarrow> fs" where
  "fs_mkdir d s = (if d \<in> dirs s \<or> d \<in> files s then s else s\<lparr>dirs := insert d (dirs s)\<rparr>)"

text \<open>\<open>fopen(path, "w")\<close> creates the file, or empties the one that is there.\<close>

definition fs_fopen :: "string \<Rightarrow> fs \<Rightarrow> fs option" where
  "fs_fopen p s = (if parent p \<in> dirs s \<and> p \<notin> dirs s then Some (s\<lparr>files := insert p (files s)\<rparr>) else None)"

definition fs_rename :: "string \<Rightarrow> string \<Rightarrow> fs \<Rightarrow> fs" where
  "fs_rename p q s = (if p \<in> files s \<and> parent q \<in> dirs s \<and> q \<notin> dirs s
     then s\<lparr>files := insert q (files s - {p})\<rparr> else s)"

definition fs_unlink :: "string \<Rightarrow> fs \<Rightarrow> fs" where
  "fs_unlink p s = s\<lparr>files := files s - {p}\<rparr>"

definition fs_rmdir :: "string \<Rightarrow> fs \<Rightarrow> fs" where
  "fs_rmdir d s = (if \<exists>p \<in> dirs s \<union> files s. below d p then s else s\<lparr>dirs := dirs s - {d}\<rparr>)"

section \<open>The program\<close>

definition NUM_FILES :: nat where "NUM_FILES = 10000"
definition DIR_NAME :: string where "DIR_NAME = ''meta_test_dir''"

text \<open>\<open>snprintf\<close> into a buffer of \<open>n\<close> bytes keeps \<open>n - 1\<close> characters.\<close>

definition snprintf :: "nat \<Rightarrow> string \<Rightarrow> string" where
  "snprintf n s = take (n - 1) s"

definition file_path :: "nat \<Rightarrow> string" where
  "file_path i = snprintf 256 (DIR_NAME @ ''/file_'' @ show_int (int i) @ ''.txt'')"

definition renamed_path :: "nat \<Rightarrow> string" where
  "renamed_path i = snprintf 256 (DIR_NAME @ ''/renamed_'' @ show_int (int i) @ ''.txt'')"

text \<open>Which calls the system lets through, the six readings of the clock, and the shell.\<close>

record meta_env =
  shell :: "string \<Rightarrow> fs \<Rightarrow> fs"
  mkdir_ok :: bool
  open_ok :: "nat \<Rightarrow> bool"
  rename_ok :: "nat \<Rightarrow> bool"
  unlink_ok :: "nat \<Rightarrow> bool"
  rmdir_ok :: bool
  clocks :: "nat \<Rightarrow> timespec"

definition cleanup :: "meta_env \<Rightarrow> fs \<Rightarrow> fs" where
  "cleanup e s = shell e (snprintf 512 (''rm -rf '' @ DIR_NAME)) s"

definition create_pass :: "meta_env \<Rightarrow> nat \<Rightarrow> fs \<Rightarrow> (fs, fs) flow" where
  "create_pass e i s = (case (if open_ok e i then fs_fopen (file_path i) s else None) of
     None \<Rightarrow> Return s | Some s' \<Rightarrow> Next s')"

definition rename_pass :: "meta_env \<Rightarrow> nat \<Rightarrow> fs \<Rightarrow> fs" where
  "rename_pass e i s = (if rename_ok e i then fs_rename (file_path i) (renamed_path i) s else s)"

definition unlink_pass :: "meta_env \<Rightarrow> nat \<Rightarrow> fs \<Rightarrow> fs" where
  "unlink_pass e i s = (if unlink_ok e i then fs_unlink (renamed_path i) s else s)"

definition meta_times :: "(nat \<Rightarrow> timespec) \<Rightarrow> out list" where
  "meta_times cs =
     (let t = (\<lambda>k. get_time_in_seconds (cs k)) in
      [Printf ''Create time: %.4f seconds'' [VD (rnd64 (t 1 - t 0))],
       Printf ''Rename time: %.4f seconds'' [VD (rnd64 (t 3 - t 2))],
       Printf ''Delete time: %.4f seconds'' [VD (rnd64 (t 5 - t 4))]])"

definition meta_main :: "nat \<Rightarrow> meta_env \<Rightarrow> fs \<Rightarrow> outcome \<times> fs" where
  "meta_main N e s =
     (let s1 = cleanup e s;
          hello = Printf ''Starting metadata performance test with %d files...'' [VI (int N)];
          s2 = (if mkdir_ok e then fs_mkdir DIR_NAME s1 else s1)
      in case for_upto (create_pass e) 0 N s2 of
        Return s3 \<Rightarrow> (say hello (die (Perror ''File creation failed'')), s3)
      | Break s3 \<Rightarrow> (undef, s3)
      | Next s3 \<Rightarrow>
          let s4 = fold (rename_pass e) [0..<N] s3;
              s5 = fold (unlink_pass e) [0..<N] s4;
              s6 = (if rmdir_ok e then fs_rmdir DIR_NAME s5 else s5)
          in (say hello (say_all (meta_times (clocks e)) (exits 0)), s6))"

section \<open>The paths\<close>

text \<open>No path is cut off by its buffer, and different files have different paths.\<close>

lemma snprintf_fits: "length s < n \<Longrightarrow> snprintf n s = s"
  by (simp add: snprintf_def)

lemma path_length:
  "i < 10000 \<Longrightarrow> length (DIR_NAME @ ''/file_'' @ show_int (int i) @ ''.txt'') < 256"
  "i < 10000 \<Longrightarrow> length (DIR_NAME @ ''/renamed_'' @ show_int (int i) @ ''.txt'') < 256"
  using length_show_nat [of i 4] by (simp_all add: show_int_def DIR_NAME_def)

lemma path_eq:
  "i < 10000 \<Longrightarrow> file_path i = DIR_NAME @ ''/file_'' @ show_nat i @ ''.txt''"
  "i < 10000 \<Longrightarrow> renamed_path i = DIR_NAME @ ''/renamed_'' @ show_nat i @ ''.txt''"
  by (simp_all only: file_path_def renamed_path_def snprintf_fits path_length) (simp_all add: show_int_def)

lemma show_nat_eq_iff: "show_nat i = show_nat j \<longleftrightarrow> i = j"
proof
  assume eq: "show_nat i = show_nat j"
  have "ends_number []" by (simp add: ends_number_def)
  from scan_digits_show_nat_aux [OF this, of i] scan_digits_show_nat_aux [OF this, of j] eq
  show "i = j" by simp
qed simp

lemma path_distinct:
  assumes "i < 10000" "j < 10000"
  shows "file_path i = file_path j \<longleftrightarrow> i = j" "renamed_path i = renamed_path j \<longleftrightarrow> i = j"
    "file_path i \<noteq> renamed_path j"
  by (simp_all add: path_eq [OF assms(1)] path_eq [OF assms(2)] show_nat_eq_iff)

lemma path_below:
  "i < 10000 \<Longrightarrow> below DIR_NAME (file_path i) \<and> below DIR_NAME (renamed_path i)"
  by (simp add: path_eq below_def DIR_NAME_def)

lemma parent_append: "CHR ''/'' \<notin> set q \<Longrightarrow> parent (d @ CHR ''/'' # q) = d"
proof -
  assume "CHR ''/'' \<notin> set q"
  then have "dropWhile (\<lambda>c. c \<noteq> CHR ''/'') (rev q @ CHR ''/'' # rev d) = CHR ''/'' # rev d"
    by (subst dropWhile_append2) auto
  then show "parent (d @ CHR ''/'' # q) = d" by (simp add: parent_def)
qed

lemma path_parent:
  "i < 10000 \<Longrightarrow> parent (file_path i) = DIR_NAME \<and> parent (renamed_path i) = DIR_NAME"
proof -
  have "CHR ''/'' \<notin> set (show_nat i)" using show_nat_digits [of "CHR ''/''" i] by (auto simp: isdigit_def)
  then show "i < 10000 \<Longrightarrow> parent (file_path i) = DIR_NAME \<and> parent (renamed_path i) = DIR_NAME"
    using parent_append [of "''file_'' @ show_nat i @ ''.txt''" DIR_NAME]
      parent_append [of "''renamed_'' @ show_nat i @ ''.txt''" DIR_NAME]
    by (simp add: path_eq)
qed


section \<open>The file system during a run\<close>

text \<open>The directory holds the unrenamed files \<open>A\<close> and the renamed files \<open>R\<close>; \<open>D\<close> and \<open>B\<close> are the rest.\<close>

definition meta_fs :: "string set \<Rightarrow> string set \<Rightarrow> nat set \<Rightarrow> nat set \<Rightarrow> fs" where
  "meta_fs D B A R = \<lparr>dirs = insert DIR_NAME D, files = B \<union> file_path ` A \<union> renamed_path ` R\<rparr>"

definition outside :: "string set \<Rightarrow> bool" where
  "outside P \<longleftrightarrow> (\<forall>p\<in>P. p \<noteq> DIR_NAME \<and> \<not> below DIR_NAME p)"

lemma DIR_not_below: "\<not> below DIR_NAME DIR_NAME"
  by (simp add: below_def DIR_NAME_def)

lemma path_outside:
  assumes "outside P" "i < 10000"
  shows "file_path i \<notin> insert DIR_NAME P" "renamed_path i \<notin> insert DIR_NAME P"
  using assms path_below [of i] DIR_not_below by (auto simp: outside_def)

lemma path_image_iff:
  assumes "A \<subseteq> {..<10000}" "i < 10000"
  shows "file_path i \<in> file_path ` A \<longleftrightarrow> i \<in> A" "renamed_path i \<in> renamed_path ` A \<longleftrightarrow> i \<in> A"
    "file_path i \<notin> renamed_path ` A" "renamed_path i \<notin> file_path ` A"
    "file_path ` A - {file_path i} = file_path ` (A - {i})"
    "renamed_path ` A - {renamed_path i} = renamed_path ` (A - {i})"
proof -
  from assms have i: "i \<in> {..<10000}" "{i} \<subseteq> {..<10000}" and A: "\<And>j. j \<in> A \<Longrightarrow> j < 10000" by auto
  have F: "inj_on file_path {..<10000}" and R: "inj_on renamed_path {..<10000}"
    by (simp_all add: inj_on_def path_distinct)
  show "file_path i \<in> file_path ` A \<longleftrightarrow> i \<in> A" by (rule inj_on_image_mem_iff [OF F i(1) assms(1)])
  show "renamed_path i \<in> renamed_path ` A \<longleftrightarrow> i \<in> A" by (rule inj_on_image_mem_iff [OF R i(1) assms(1)])
  show "file_path ` A - {file_path i} = file_path ` (A - {i})"
    using inj_on_image_set_diff [OF F _ i(2), of A] assms(1) by auto
  show "renamed_path ` A - {renamed_path i} = renamed_path ` (A - {i})"
    using inj_on_image_set_diff [OF R _ i(2), of A] assms(1) by auto
  show "file_path i \<notin> renamed_path ` A" using A path_distinct(3) [OF assms(2)] by blast
  show "renamed_path i \<notin> file_path ` A" using A path_distinct(3) [OF _ assms(2)] by (metis imageE)
qed

lemma create_pass_fs:
  assumes "outside D" "i < 10000"
  shows "create_pass e i (meta_fs D B {..<i} {}) =
    (if open_ok e i then Next (meta_fs D B {..<Suc i} {}) else Return (meta_fs D B {..<i} {}))"
  using assms path_parent [of i] path_outside(1) [of D i]
  by (simp add: create_pass_def fs_fopen_def meta_fs_def lessThan_Suc)

lemma rename_pass_fs:
  assumes "outside D" "outside B" "i < 10000" "A \<subseteq> {..<10000}" "R \<subseteq> {..<10000}" "i \<in> A"
  shows "rename_pass e i (meta_fs D B A R) =
    (if rename_ok e i then meta_fs D B (A - {i}) (insert i R) else meta_fs D B A R)"
proof -
  have "B - {file_path i} = B" using path_outside(1) [OF assms(2,3)] by auto
  moreover have "renamed_path ` R - {file_path i} = renamed_path ` R"
    using path_image_iff(3) [OF assms(5,3)] by auto
  ultimately have "B \<union> file_path ` A \<union> renamed_path ` R - {file_path i} =
      B \<union> file_path ` (A - {i}) \<union> renamed_path ` R"
    by (simp add: Un_Diff path_image_iff(5) [OF assms(4,3)])
  then show ?thesis
    using path_parent [OF assms(3)] path_outside(2) [OF assms(1,3)] assms(6)
    by (simp add: rename_pass_def fs_rename_def meta_fs_def)
qed

lemma unlink_pass_fs:
  assumes "outside B" "i < 10000" "A \<subseteq> {..<10000}" "R \<subseteq> {..<10000}"
  shows "unlink_pass e i (meta_fs D B A R) =
    (if unlink_ok e i then meta_fs D B A (R - {i}) else meta_fs D B A R)"
proof -
  have "B - {renamed_path i} = B" using path_outside(2) [OF assms(1,2)] by auto
  moreover have "file_path ` A - {renamed_path i} = file_path ` A"
    using path_image_iff(4) [OF assms(3,2)] by auto
  ultimately show ?thesis
    by (simp add: unlink_pass_def fs_unlink_def meta_fs_def Un_Diff path_image_iff(6) [OF assms(4,2)])
qed

lemma rmdir_fs:
  assumes "outside D" "outside B" "A \<subseteq> {..<10000}" "R \<subseteq> {..<10000}"
  shows "fs_rmdir DIR_NAME (meta_fs D B A R) =
    (if A = {} \<and> R = {} then \<lparr>dirs = D, files = B\<rparr> else meta_fs D B A R)"
proof -
  have "(\<exists>p \<in> insert DIR_NAME D \<union> (B \<union> file_path ` A \<union> renamed_path ` R). below DIR_NAME p) \<longleftrightarrow> A \<noteq> {} \<or> R \<noteq> {}"
  proof
    assume "A \<noteq> {} \<or> R \<noteq> {}"
    then obtain i where "i \<in> A \<or> i \<in> R" by auto
    with assms(3,4) path_below [of i]
    show "\<exists>p \<in> insert DIR_NAME D \<union> (B \<union> file_path ` A \<union> renamed_path ` R). below DIR_NAME p" by blast
  qed (use assms(1,2) DIR_not_below in \<open>auto simp: outside_def\<close>)
  moreover have "insert DIR_NAME D - {DIR_NAME} = D" using assms(1) by (auto simp: outside_def)
  ultimately show ?thesis by (auto simp: fs_rmdir_def meta_fs_def)
qed

section \<open>The loops\<close>

lemma create_loop:
  assumes "outside D" "first_failure (open_ok e) N f" "N \<le> 10000" "i \<le> f" "i + k = N"
  shows "for_upto (create_pass e) i k (meta_fs D B {..<i} {}) =
    (if f = N then Next (meta_fs D B {..<N} {}) else Return (meta_fs D B {..<f} {}))"
  using assms(4,5)
proof (induction k arbitrary: i)
  case (Suc k)
  with assms(2,3) have i: "i < 10000" "i < f \<Longrightarrow> open_ok e i" "i = f \<Longrightarrow> \<not> open_ok e i"
    by (auto simp: first_failure_def)
  show ?case
  proof (cases "i = f")
    case True
    with i Suc.prems show ?thesis by (simp add: create_pass_fs assms(1))
  next
    case False
    with i Suc.prems Suc.IH [of "Suc i"] show ?thesis by (simp add: create_pass_fs assms(1))
  qed
qed (use assms(2) in \<open>simp add: first_failure_def\<close>)

lemma rename_loop:
  assumes "outside D" "outside B" "n \<le> N" "N \<le> 10000"
  shows "fold (rename_pass e) [0..<n] (meta_fs D B {..<N} {}) =
    meta_fs D B {j. j < N \<and> (j < n \<longrightarrow> \<not> rename_ok e j)} {j. j < n \<and> rename_ok e j}"
  using assms(3)
proof (induction n)
  case 0
  then show ?case by (simp add: lessThan_def)
next
  case (Suc n)
  let ?A = "\<lambda>n. {j. j < N \<and> (j < n \<longrightarrow> \<not> rename_ok e j)}" and ?R = "\<lambda>n. {j. j < n \<and> rename_ok e j}"
  have "rename_pass e n (meta_fs D B (?A n) (?R n)) =
      (if rename_ok e n then meta_fs D B (?A n - {n}) (insert n (?R n)) else meta_fs D B (?A n) (?R n))"
    by (rule rename_pass_fs) (use assms(1,2,4) Suc.prems in auto)
  moreover have "rename_ok e n \<Longrightarrow> ?A n - {n} = ?A (Suc n)" "rename_ok e n \<Longrightarrow> insert n (?R n) = ?R (Suc n)"
    "\<not> rename_ok e n \<Longrightarrow> ?A n = ?A (Suc n)" "\<not> rename_ok e n \<Longrightarrow> ?R n = ?R (Suc n)"
    by (auto simp: less_Suc_eq)
  ultimately show ?case using Suc by simp
qed

lemma unlink_loop:
  assumes "outside B" "A \<subseteq> {..<10000}" "R \<subseteq> {..<10000}" "n \<le> 10000"
  shows "fold (unlink_pass e) [0..<n] (meta_fs D B A R) = meta_fs D B A {j \<in> R. j < n \<longrightarrow> \<not> unlink_ok e j}"
  using assms(4)
proof (induction n)
  case (Suc n)
  have "unlink_pass e n (meta_fs D B A {j \<in> R. j < n \<longrightarrow> \<not> unlink_ok e j}) =
      (if unlink_ok e n then meta_fs D B A ({j \<in> R. j < n \<longrightarrow> \<not> unlink_ok e j} - {n})
       else meta_fs D B A {j \<in> R. j < n \<longrightarrow> \<not> unlink_ok e j})"
    by (rule unlink_pass_fs) (use assms(1-3) Suc.prems in auto)
  moreover have "unlink_ok e n \<Longrightarrow> {j \<in> R. j < n \<longrightarrow> \<not> unlink_ok e j} - {n} = {j \<in> R. j < Suc n \<longrightarrow> \<not> unlink_ok e j}"
    "\<not> unlink_ok e n \<Longrightarrow> {j \<in> R. j < n \<longrightarrow> \<not> unlink_ok e j} = {j \<in> R. j < Suc n \<longrightarrow> \<not> unlink_ok e j}"
    by (auto simp: less_Suc_eq)
  ultimately show ?case using Suc by simp
qed simp


section \<open>The program\<close>

text \<open>C21. \<open>file_meta.c\<close>, on any file system, given a shell whose \<open>rm -rf\<close> does what it is
  documented to do: if the \<open>f\<close>-th \<open>fopen\<close> is the first to fail, the program ends with status 1 and
  leaves the directory with exactly the files 0 to \<open>f - 1\<close>, whatever was in it before, and nothing
  outside of it touched. Otherwise
  it prints the three times and ends with status 0, whether or not the unchecked calls succeed:
  a file whose renaming failed is still there under its first name, one whose deletion failed
  under its second, and the directory is removed only if there is no such file. When all calls
  succeed, the run leaves exactly what the cleaning up at its start had left.\<close>

theorem file_meta_outcomes:
  assumes "shell e (''rm -rf '' @ DIR_NAME) s = rm_rf DIR_NAME s" "mkdir_ok e"
    and "first_failure (open_ok e) N f" "N \<le> NUM_FILES"
  shows "meta_main N e s =
    (let base = rm_rf DIR_NAME s;
         hello = Printf ''Starting metadata performance test with %d files...'' [VI (int N)];
         kept = {i. i < N \<and> \<not> rename_ok e i};
         still = {i. i < N \<and> rename_ok e i \<and> \<not> unlink_ok e i}
     in if f < N
        then (([hello, Perror ''File creation failed''], Exits 1),
              \<lparr>dirs = insert DIR_NAME (dirs base), files = files base \<union> file_path ` {..<f}\<rparr>)
        else ((hello # meta_times (clocks e), Exits 0),
              if kept = {} \<and> still = {} \<and> rmdir_ok e then base
              else \<lparr>dirs = insert DIR_NAME (dirs base), files = files base \<union> file_path ` kept \<union> renamed_path ` still\<rparr>))"
proof -
  define D where "D = dirs (rm_rf DIR_NAME s)"
  define B where "B = files (rm_rf DIR_NAME s)"
  define A where "A = {i. i < N \<and> \<not> rename_ok e i}"
  define R where "R = {i. i < N \<and> rename_ok e i \<and> \<not> unlink_ok e i}"
  have base: "rm_rf DIR_NAME s = \<lparr>dirs = D, files = B\<rparr>" by (simp add: D_def B_def)
  have out: "outside D" "outside B" by (auto simp: D_def B_def outside_def rm_rf_def)
  have N: "N \<le> 10000" and sets: "A \<subseteq> {..<10000}" "R \<subseteq> {..<10000}"
    using assms(4) by (auto simp: NUM_FILES_def A_def R_def)
  have "DIR_NAME \<notin> D" "DIR_NAME \<notin> B" using out by (auto simp: outside_def)
  then have mkdir: "fs_mkdir DIR_NAME \<lparr>dirs = D, files = B\<rparr> = meta_fs D B {..<0} {}"
    by (simp add: fs_mkdir_def meta_fs_def)
  have clean: "cleanup e s = \<lparr>dirs = D, files = B\<rparr>"
    using assms(1) unfolding base [symmetric] by (simp add: cleanup_def snprintf_def DIR_NAME_def)
  have create: "for_upto (create_pass e) 0 N (meta_fs D B {..<0} {}) =
      (if f = N then Next (meta_fs D B {..<N} {}) else Return (meta_fs D B {..<f} {}))"
    by (rule create_loop [OF out(1) assms(3) N]) simp_all
  have "fold (rename_pass e) [0..<N] (meta_fs D B {..<N} {}) = meta_fs D B A {j. j < N \<and> rename_ok e j}"
    using rename_loop [OF out order_refl N] by (simp add: A_def conj_commute cong: conj_cong)
  moreover have "{j. j < N \<and> rename_ok e j} \<subseteq> {..<10000}" using N by auto
  moreover have "{j \<in> {j. j < N \<and> rename_ok e j}. j < N \<longrightarrow> \<not> unlink_ok e j} = R" by (auto simp: R_def)
  ultimately have rest: "fold (unlink_pass e) [0..<N] (fold (rename_pass e) [0..<N] (meta_fs D B {..<N} {})) = meta_fs D B A R"
    using unlink_loop [OF out(2) sets(1) _ N] by simp
  have "f \<le> N" using assms(3) by (simp add: first_failure_def)
  then show ?thesis
    unfolding A_def [symmetric] R_def [symmetric] base Let_def
    using create rest rmdir_fs [OF out sets] assms(2)
    by (auto simp: meta_main_def clean mkdir Let_def) (simp_all add: meta_fs_def)
qed

text \<open>All calls but the deletion of file 7 succeed, on a file system with an old file in the directory.\<close>

theorem file_meta_outcomes_witness:
  "meta_main NUM_FILES
     \<lparr>shell = (\<lambda>c. if c = ''rm -rf meta_test_dir'' then rm_rf ''meta_test_dir'' else id), mkdir_ok = True,
      open_ok = \<lambda>i. True, rename_ok = \<lambda>i. True, unlink_ok = \<lambda>i. i \<noteq> 7, rmdir_ok = True, clocks = \<lambda>k. \<lparr>tv_sec = int k, tv_nsec = 0\<rparr>\<rparr>
     \<lparr>dirs = {''meta_test_dir''}, files = {''meta_test_dir/old'', ''a''}\<rparr> =
   ((Printf ''Starting metadata performance test with %d files...'' [VI 10000] # meta_times (\<lambda>k. \<lparr>tv_sec = int k, tv_nsec = 0\<rparr>), Exits 0),
    \<lparr>dirs = {''meta_test_dir''}, files = {''meta_test_dir/renamed_7.txt'', ''a''}\<rparr>)"
proof -
  let ?e = "\<lparr>shell = (\<lambda>c. if c = ''rm -rf meta_test_dir'' then rm_rf ''meta_test_dir'' else id), mkdir_ok = True,
      open_ok = \<lambda>i. True, rename_ok = \<lambda>i. True, unlink_ok = \<lambda>i. i \<noteq> 7, rmdir_ok = True, clocks = \<lambda>k. \<lparr>tv_sec = int k, tv_nsec = 0\<rparr>\<rparr>"
  let ?s = "\<lparr>dirs = {''meta_test_dir''}, files = {''meta_test_dir/old'', ''a''}\<rparr>"
  have rm: "rm_rf ''meta_test_dir'' ?s = \<lparr>dirs = {}, files = {''a''}\<rparr>"
    by (auto simp: rm_rf_def below_def)
  have path: "renamed_path 7 = ''meta_test_dir/renamed_7.txt''" by code_simp
  have f: "first_failure (open_ok ?e) NUM_FILES NUM_FILES" by (simp add: first_failure_def)
  have "{i. i < NUM_FILES \<and> i = 7} = {7}" by (auto simp: NUM_FILES_def)
  then show ?thesis
    using file_meta_outcomes [of ?e ?s NUM_FILES NUM_FILES] f
    by (simp add: DIR_NAME_def rm path Let_def) (simp add: NUM_FILES_def)
qed

end
