(* ===== verification/FileRead.thy ===== *)
theory FileRead
  imports CTime "HOL-Library.Sublist"
begin

text \<open>
  \<open>src/file_systems/read.c\<close>: one file is written in blocks of 4096 bytes, read back to its end
  and removed. The state is the content of \<open>testfile.bin\<close>, if it exists. How much each call
  transfers is an input, since no result but that of \<open>fopen\<close>, and the count of \<open>fread\<close> that ends
  the loop, is looked at.
\<close>

definition FILE_SIZE_MB :: nat where "FILE_SIZE_MB = 1024"
definition BUFFER_SIZE :: nat where "BUFFER_SIZE = 4096"

record rw_env =
  open_w :: bool
  wrote :: "nat \<Rightarrow> nat"
  w_start :: int
  w_end :: int
  open_r :: bool
  got :: "nat \<Rightarrow> nat"
  r_start :: int
  r_end :: int
  remove_ok :: bool

text \<open>\<open>fwrite\<close> of the buffer appends its first \<open>wrote i\<close> bytes.\<close>

definition write_pass :: "rw_env \<Rightarrow> string \<Rightarrow> nat \<Rightarrow> string \<Rightarrow> string" where
  "write_pass e buffer i content = content @ take (wrote e i) buffer"

text \<open>The size in bytes is computed in \<open>int\<close>; None is its overflow.\<close>

definition total_bytes :: "nat \<Rightarrow> nat option" where
  "total_bytes mb = (if int_ok (int mb * 1024) \<and> int_ok (int mb * 1024 * 1024) then Some (mb * 1024 * 1024) else None)"

definition write_test :: "nat \<Rightarrow> rw_env \<Rightarrow> string option \<Rightarrow> (out list \<times> string option) option" where
  "write_test mb e file =
     (if \<not> open_w e then Some ([Perror ''File open failed''], file)
      else do {
        n \<leftarrow> total_bytes mb;
        let buffer = replicate BUFFER_SIZE (CHR ''A'');
        let content = fold (write_pass e buffer) [0..<n div BUFFER_SIZE] [];
        Some ([Printf ''Write Time: %lf seconds'' [VD (clock_seconds (w_start e) (w_end e))]], Some content)
      })"

text \<open>The chunks that the \<open>fread\<close> calls return: call \<open>k\<close> transfers up to \<open>got k\<close> bytes, and none at the end.\<close>

function read_loop :: "(nat \<Rightarrow> nat) \<Rightarrow> nat \<Rightarrow> string \<Rightarrow> string list" where
  "read_loop g k rest =
     (let chunk = take (min BUFFER_SIZE (g k)) rest in
      if 0 < length chunk then chunk # read_loop g (Suc k) (drop (length chunk) rest) else [])"
  by pat_completeness auto

termination
  by (relation "measure (\<lambda>(g, k, rest). length rest)") auto

declare read_loop.simps [simp del]

definition read_test :: "rw_env \<Rightarrow> string option \<Rightarrow> out list \<times> string list" where
  "read_test e file = (case (if open_r e then file else None) of
     None \<Rightarrow> ([Perror ''File open failed''], [])
   | Some content \<Rightarrow>
       ([Printf ''Read Time: %lf seconds'' [VD (clock_seconds (r_start e) (r_end e))]], read_loop (got e) 0 content))"

text \<open>The outcome, the chunks read, and the file afterwards.\<close>

definition read_main :: "nat \<Rightarrow> rw_env \<Rightarrow> string option \<Rightarrow> outcome \<times> string list \<times> string option" where
  "read_main mb e file = (case write_test mb e file of
     None \<Rightarrow> (undef, [], file)
   | Some (outs, file') \<Rightarrow>
       (case read_test e file' of (outs', chunks) \<Rightarrow>
         (say_all (outs @ outs') (exits 0), chunks, if remove_ok e then None else file')))"

section \<open>Lemmas\<close>

lemma total_bytes_ok: "mb < 2048 \<Longrightarrow> total_bytes mb = Some (mb * 1024 * 1024)"
  by (simp add: total_bytes_def int_ok_def)

lemma write_all:
  assumes "\<And>i. BUFFER_SIZE \<le> wrote e i"
  shows "fold (write_pass e (replicate BUFFER_SIZE c)) [0..<n] [] = replicate (n * BUFFER_SIZE) c"
  by (induction n) (simp_all add: write_pass_def assms add.commute flip: replicate_add)

lemma read_loop_sound:
  "prefix (concat (read_loop g k rest)) rest \<and>
   (\<forall>c \<in> set (read_loop g k rest). 0 < length c \<and> length c \<le> BUFFER_SIZE)"
proof (induction g k rest rule: read_loop.induct)
  case (1 g k rest)
  let ?c = "take (min BUFFER_SIZE (g k)) rest"
  show ?case
  proof (cases "0 < length ?c")
    case True
    define more where "more = read_loop g (Suc k) (drop (length ?c) rest)"
    have IH: "prefix (concat more) (drop (length ?c) rest)"
      "\<forall>c \<in> set more. 0 < length c \<and> length c \<le> BUFFER_SIZE"
      using 1 [OF refl True] unfolding more_def by blast+
    have "rest = ?c @ drop (length ?c) rest" by (metis append_eq_conv_conj append_take_drop_id)
    with IH(1) have "prefix (?c @ concat more) rest" by (metis same_prefix_prefix)
    moreover have "read_loop g k rest = ?c # more"
      unfolding more_def using True by (subst read_loop.simps) (simp only: Let_def if_True)
    moreover have "length ?c \<le> BUFFER_SIZE" by simp
    ultimately show ?thesis using True IH(2) by (metis concat.simps(2) set_ConsD)
  next
    case False
    then have "read_loop g k rest = []" by (subst read_loop.simps) (simp only: Let_def if_False)
    then show ?thesis by simp
  qed
qed

lemma read_loop_replicate:
  assumes "\<And>i. BUFFER_SIZE \<le> g i"
  shows "read_loop g k (replicate (n * BUFFER_SIZE) c) = replicate n (replicate BUFFER_SIZE c)"
proof (induction n arbitrary: k)
  case (Suc n)
  have "0 < BUFFER_SIZE" by (simp add: BUFFER_SIZE_def)
  with Suc.IH [of "Suc k"] assms [of k] show ?case
    by (subst read_loop.simps) (simp add: Let_def min_absorb1)
qed (simp add: read_loop.simps)

text \<open>C36. \<open>read.c\<close> always ends with status 0, and its reading loop, whatever the calls transfer,
  goes through a prefix of the file in non-empty blocks of at most 4096 bytes. When the file can
  be opened and all transfers are complete, the program reads back exactly the 256 blocks per
  megabyte that it wrote, and prints both times; when the file cannot be opened for writing, it
  reads, and then removes, the file that was there before.\<close>

theorem read_back:
  assumes "mb < 2048"
  shows "snd (fst (read_main mb e file)) = Exits 0 \<and>
    (\<forall>c \<in> set (fst (snd (read_main mb e file))). 0 < length c \<and> length c \<le> BUFFER_SIZE) \<and>
    (open_w e \<and> open_r e \<and> (\<forall>i. BUFFER_SIZE \<le> wrote e i \<and> BUFFER_SIZE \<le> got e i) \<longrightarrow>
      read_main mb e file =
        (([Printf ''Write Time: %lf seconds'' [VD (clock_seconds (w_start e) (w_end e))],
           Printf ''Read Time: %lf seconds'' [VD (clock_seconds (r_start e) (r_end e))]], Exits 0),
         replicate (mb * 256) (replicate BUFFER_SIZE (CHR ''A'')),
         if remove_ok e then None else Some (replicate (mb * 1024 * 1024) (CHR ''A'')))) \<and>
    (\<not> open_w e \<and> open_r e \<and> file = Some old \<longrightarrow>
      fst (fst (read_main mb e file)) =
        [Perror ''File open failed'', Printf ''Read Time: %lf seconds'' [VD (clock_seconds (r_start e) (r_end e))]] \<and>
      prefix (concat (fst (snd (read_main mb e file)))) old \<and>
      (remove_ok e \<longrightarrow> snd (snd (read_main mb e file)) = None))"
proof -
  have n: "1048576 * mb div BUFFER_SIZE = mb * 256" "mb * 256 * BUFFER_SIZE = mb * 1024 * 1024"
    by (simp_all add: BUFFER_SIZE_def)
  have sound: "\<forall>c \<in> set (snd (read_test e f)). 0 < length c \<and> length c \<le> BUFFER_SIZE" for f
    using read_loop_sound by (auto simp: read_test_def split: option.split)
  have full: "read_main mb e file =
        (([Printf ''Write Time: %lf seconds'' [VD (clock_seconds (w_start e) (w_end e))],
           Printf ''Read Time: %lf seconds'' [VD (clock_seconds (r_start e) (r_end e))]], Exits 0),
         replicate (mb * 256) (replicate BUFFER_SIZE (CHR ''A'')),
         if remove_ok e then None else Some (replicate (mb * 1024 * 1024) (CHR ''A'')))"
    if a: "open_w e" "open_r e" "\<forall>i. BUFFER_SIZE \<le> wrote e i \<and> BUFFER_SIZE \<le> got e i"
  proof -
    have "write_test mb e file = Some ([Printf ''Write Time: %lf seconds'' [VD (clock_seconds (w_start e) (w_end e))]],
        Some (replicate (mb * 256 * BUFFER_SIZE) (CHR ''A'')))"
      using a by (simp add: write_test_def total_bytes_ok [OF assms] n(1) write_all)
    moreover have "read_loop (got e) 0 (replicate (mb * 256 * BUFFER_SIZE) (CHR ''A'')) =
        replicate (mb * 256) (replicate BUFFER_SIZE (CHR ''A''))"
      by (rule read_loop_replicate) (use a in blast)
    ultimately show ?thesis using a unfolding n(2) by (simp add: read_main_def read_test_def)
  qed
  obtain outs file' where w: "write_test mb e file = Some (outs, file')"
    by (cases "open_w e") (auto simp: write_test_def total_bytes_ok [OF assms])
  then have main: "read_main mb e file = (say_all (outs @ fst (read_test e file')) (exits 0),
      snd (read_test e file'), if remove_ok e then None else file')"
    by (simp add: read_main_def split: prod.split)
  have stale: "\<not> open_w e \<Longrightarrow> outs = [Perror ''File open failed''] \<and> file' = file"
    using w by (simp add: write_test_def)
  show ?thesis
    using full sound [of file'] stale read_loop_sound [of "got e" 0 old]
    unfolding main by (auto simp: read_test_def)
qed

text \<open>A complete run of one megabyte, and a run that finds an old file it may not write.\<close>

theorem read_back_witness:
  "read_main 1 \<lparr>open_w = True, wrote = \<lambda>i. 4096, w_start = 0, w_end = 1, open_r = True, got = \<lambda>i. 4096,
      r_start = 2, r_end = 3, remove_ok = True\<rparr> None =
    (([Printf ''Write Time: %lf seconds'' [VD (clock_seconds 0 1)],
       Printf ''Read Time: %lf seconds'' [VD (clock_seconds 2 3)]], Exits 0),
     replicate 256 (replicate BUFFER_SIZE (CHR ''A'')), None) \<and>
   prefix (concat (fst (snd (read_main 1 \<lparr>open_w = False, wrote = \<lambda>i. 0, w_start = 0, w_end = 1, open_r = True,
      got = \<lambda>i. 2, r_start = 2, r_end = 3, remove_ok = False\<rparr> (Some ''old''))))) ''old''"
  using read_back [of 1 "\<lparr>open_w = True, wrote = \<lambda>i. 4096, w_start = 0, w_end = 1, open_r = True, got = \<lambda>i. 4096,
      r_start = 2, r_end = 3, remove_ok = True\<rparr>" None]
    read_back [of 1 "\<lparr>open_w = False, wrote = \<lambda>i. 0, w_start = 0, w_end = 1, open_r = True,
      got = \<lambda>i. 2, r_start = 2, r_end = 3, remove_ok = False\<rparr>" "Some ''old''" "''old''"]
  by (simp add: BUFFER_SIZE_def)

end
