(* ===== verification/Spec2Isabelle.thy ===== *)
theory Spec2Isabelle
  imports Prelude Machines Rounds Binary64 CTime Sched Deadlines Jitter MaxLatency Deterministic
    CText Fairness IpcPipe SleepWake StopFlag ThreadFairness SleepThreads ThreadPingPong
    ProcPingPong MqEcho MqSingle PriorityInversion PriorityProgress PubSub PubSubMain NetText NetSec
    Memory FileMeta FileRead
begin

text \<open>
  Microkernel benchmark suite: verification development.

  The suite is 24 C programs under \<open>src/\<close>, each a benchmark of its own that runs on Linux and
  on QNX: there is no common code, but the programs come in families that copy functions
  and structure from each other. The development has one theory for what a family shares and
  one for each program, and states for each program what it prints as a function of what the
  system does (the clock, the results of calls, the scheduling of threads and processes).

  \<^bold>\<open>How programs are modelled.\<close> A sequential program is a function from its arguments and a
  record of the results of its calls to an \<open>outcome\<close> (theory \<open>Prelude\<close>): the calls that print, in
  order, with their format strings and arguments, and how the run ended (a status, a signal,
  undefined behaviour, or not within what the environment offered). Signed arithmetic that leaves its
  type is undefined behaviour; unsigned arithmetic is on words. Doubles are the rationals they
  denote, and each operation on them rounds to 53 bits, to nearest and ties to even (theory
  \<open>Binary64\<close>; exponents are unbounded, which no quantity of the suite comes near). A concurrent
  program is a step relation on a record of its places and shared variables, with a
  second relation for what the environment does unasked (spurious wake-ups, the passing of
  time, calls that fail): theory \<open>Machines\<close> has the runs that interleave both and the two
  locales \<open>invariant_system\<close> and \<open>bounded_system\<close>, which every concurrent theory interprets on
  its own relation, and from which absence of deadlock, termination and bounds on the number
  of steps follow; \<open>lrun\<close> also keeps who made the environment's moves, where a statement
  is about single threads; its locale \<open>refinement\<close> is for systems that implement an abstract machine.
  A counting loop is \<open>for_upto\<close> or \<open>fold\<close>, a loop that waits for the clock is a
  recursion with fuel, and the theorems show which fuel is enough: that of the first
  reading past the deadline.

  \<^bold>\<open>Which theory models what.\<close>
    \<^item> \<open>Prelude\<close>, \<open>Machines\<close>, \<open>Binary64\<close>: as above.
    \<^item> \<open>CTime\<close>: \<open>timespec\<close> and \<open>timeval\<close>, the helper functions on them (\<open>timespec_add\<close>,
      \<open>timespec_diff_ns\<close>, \<open>ts_ns\<close>, \<open>now_ns\<close>), elapsed seconds in double, running maxima.
    \<^item> \<open>CText\<close>, \<open>NetText\<close>: the functions of the C library on text (printing and scanning of
      integers and doubles, \<open>fgets\<close>, \<open>strtok\<close>, \<open>strstr\<close>, \<open>strrchr\<close>) with their round trips.
    \<^item> \<open>Sched\<close>: the eleven \<open>parse_sched_policy\<close>; the locale \<open>policy_parser\<close> is what each main
      relies on, interpreted for all eleven.
    \<^item> \<open>Deadlines\<close> with \<open>Jitter\<close>, \<open>MaxLatency\<close>, \<open>Deterministic\<close>: \<open>src/scheduling/latency\<close>.
      The absolute deadlines a program sleeps until are shown to be the start plus whole periods, and
      the reported numbers the maxima of the distances from them.
    \<^item> \<open>Fairness\<close>, \<open>SleepWake\<close>, \<open>ProcPingPong\<close>: \<open>src/scheduling/process\<close>
      (\<open>process_fairness.c\<close>, \<open>sleep_wake_process.c\<close>, \<open>process_ctx_switch.c\<close>).
    \<^item> \<open>StopFlag\<close> with \<open>ThreadFairness\<close>, \<open>SleepThreads\<close>; \<open>ThreadPingPong\<close>:
      \<open>src/scheduling/threads\<close>. \<open>StopFlag\<close> is the protocol of creation, stop flag and join, for any
      body of the threads; the two programs are instances.
    \<^item> \<open>PriorityInversion\<close>, \<open>PriorityProgress\<close>: both programs of \<open>src/scheduling/priority\<close>, and
      why the Linux one ends although its threads share one CPU by priority.
    \<^item> \<open>Rounds\<close>: the abstract machine of answered and completed rounds, which \<open>ThreadPingPong\<close>,
      \<open>ProcPingPong\<close> and \<open>MqEcho\<close> refine (and \<open>MqSingle\<close> does not).
    \<^item> \<open>IpcPipe\<close>, \<open>MqEcho\<close>, \<open>MqSingle\<close>: \<open>src/ipc\<close> (\<open>ipc_pipe_latency.c\<close>,
      \<open>ipc_mq_latency.c\<close>, \<open>ipc_latency.c\<close>).
    \<^item> \<open>PubSub\<close>, \<open>PubSubMain\<close>: \<open>src/mosquitto\<close>, the exchange between publisher and callback
      and the three programs around it.
    \<^item> \<open>NetSec\<close>: \<open>src/network_and_security\<close>, with the commands it gives to \<open>popen\<close> and
      \<open>system\<close> and the file it removes recorded in order among what it prints.
    \<^item> \<open>Memory\<close>, \<open>FileMeta\<close>, \<open>FileRead\<close>: \<open>src/memory\<close> and \<open>src/file_systems\<close>.

  \<^bold>\<open>What the theorems show.\<close> For the concurrent programs: invariants (mutual exclusion, at most
  one message under way, arrays within bounds), no deadlock under any schedule and any
  spurious wake-ups, a bound on the steps, and that a final state can always be
  reached; or, where the program does hang, that it does (\<open>ipc_latency.c\<close> always: in the join of
  its first load thread, or in the receive of its parent where its child has failed to send;
  \<open>ipc_mq_latency.c\<close> when a call of its child fails while the parent is in its loop; the
  publishers when a message is lost). For the measuring programs: that the printed numbers are the extrema, sums and
  averages of the measured quantities, through integer wrap-around, double rounding, text and
  pipes. For the memory and file programs: which resources each outcome leaves
  behind. Behaviour that looks unintended is stated as it is: a queue that a process reads its own
  message from, an average divided by twice the number of runs, a signal to every process
  after a failed \<open>fork\<close>, a \<open>free\<close> of pointers that were never written.

  \<^bold>\<open>Bounds.\<close> Times are assumed non-negative and below the limits written in each statement
  (always more than a century); numbers of iterations are those of the code, or arbitrary
  where the statement allows it. The step bounds are linear in the iterations and in the number of
  environment steps. A sleeping or counting child needs no bound on its iterations: its
  64-bit counter is shown to hold the number of its passes where the fuel is below two to the 64th.

  \<^bold>\<open>What is not modelled.\<close> The launch script, the binaries under \<open>resources\<close>, libmosquitto and its
  broker (only the number of messages they hand over is an input), the commands that
  \<open>network_and_security.c\<close> runs (their output is an input; the shell of \<open>file_meta.c\<close> is a
  parameter with a stated hypothesis), the memory behind the blocks of the heap, the
  scheduling of the operating system beyond the priority rule on one CPU of
  \<open>linux_priority_inversion.c\<close>, failing thread creation in \<open>qnx_priority_inversion.c\<close>, and data races
  below the granularity of one access to a shared variable.
\<close>

section \<open>Properties that span programs\<close>

text \<open>C2. The three benchmarks that hand something to and fro measure round trips: the threads with
  their condition variables, the processes with their pipes and the processes with their two
  queues all implement the machine of theory \<open>Rounds\<close>, whatever the schedule, the spurious
  wake-ups of the threads, and the calls of either process (pipes and queues) that fail, at
  whatever point. So in every state they get to, each completed round
  has been answered by the other side exactly once and after the round before it was completed,
  and when they have ended well all rounds are answered and completed.\<close>

theorem benchmarks_refine_rounds:
  assumes "pp_init N s" and "run (pp_step N) pp_spurious s p e t"
    and "cs_init N' s'" and "run (cs_step N') cs_fault s' p' e' t'"
    and "mq_init N'' s''" and "run (mq_step N'') mq_any_fault s'' p'' e'' t''"
  shows "rounds_kept N p (pp_rounds t) \<and> rounds_kept N' p' (cs_rounds t') \<and> rounds_kept N'' p'' (mq_rounds t'') \<and>
    (m_pc t = M_joined \<longrightarrow> pp_rounds t = \<lparr>answered = N, completed = N\<rparr>) \<and>
    (a_pc t' = A_exit Done \<longrightarrow> cs_rounds t' = \<lparr>answered = N', completed = N'\<rparr>) \<and>
    (q_pc t'' = Q_done \<and> q_out t'' = [] \<longrightarrow> mq_rounds t'' = \<lparr>answered = N'', completed = N''\<rparr>)"
proof (intro conjI impI)
  have pp: "pp_inv N t" and cs: "cs_inv N' t'" and mq: "mq_inv N'' t''"
    by (rule pp.inv_run [OF assms(1,2)] cs.inv_run [OF assms(3,4)] mqa.inv_run [OF assms(5,6)])+
  show "rounds_kept N p (pp_rounds t)" by (rule ppr.keeps_rounds [OF assms(1,2)])
  show "rounds_kept N' p' (cs_rounds t')" by (rule csr.keeps_rounds [OF assms(3,4)])
  show "rounds_kept N'' p'' (mq_rounds t'')" by (rule mqr.keeps_rounds [OF assms(5,6)])
  show "pp_rounds t = \<lparr>answered = N, completed = N\<rparr>" if "m_pc t = M_joined"
    using pp_left_ping [OF pp] pp_left_pong [OF pp] pp_joined [OF pp] that
    by (simp add: pp_rounds_def pongs_def)
  show "cs_rounds t' = \<lparr>answered = N', completed = N'\<rparr>" if "a_pc t' = A_exit Done"
    using cs_inv_counts [OF cs] that by (auto simp: cs_rounds_def)
  show "mq_rounds t'' = \<lparr>answered = N'', completed = N''\<rparr>" if "q_pc t'' = Q_done \<and> q_out t'' = []"
    using mq_inv_parts(2,3,7) [OF mq] that by (simp add: mq_rounds_def)
qed

theorem benchmarks_refine_rounds_witness:
  "rounds_kept 1 13 (pp_rounds pp_done) \<and> pp_rounds pp_done = \<lparr>answered = 1, completed = 1\<rparr> \<and>
   rounds_kept 1 7 (cs_rounds (cs_at [] [] (A_exit Done) 1 (C_exit Done) 1)) \<and>
   rounds_kept 1 6 (mq_rounds (mq_at [] [] Q_done 1 E_exit 1))"
proof -
  have "pp_init 1 (pp_start 1)" "m_pc pp_done = M_joined" by (simp_all add: pp_init_def pp_done_def)
  then show ?thesis
    using benchmarks_refine_rounds [OF _ pp_done_run cs_demo_init cs_demo_run mq_demo_init mq_demo_run] by blast
qed

text \<open>C22. The three latency programs carry the overflow of the nanoseconds in three ways (by a
  subtraction, by a division in place, by \<open>timespec_add\<close>), and compute the same deadlines:
  the \<open>k\<close>-th is exactly \<open>k\<close> periods after the start, without overflow, and its nanoseconds are
  in the range that \<open>clock_nanosleep\<close> accepts.\<close>

theorem deadlines_well_formed:
  assumes "ts_ok start" and "k \<le> 2 ^ 60"
  shows "\<exists>d. advanced jitter_advance k start = Some d \<and> advanced rt_advance k start = Some d \<and>
    advanced (\<lambda>t. timespec_add t PERIOD_NS) k start = Some d \<and>
    ts_norm d \<and> nanos d = nanos start + int k * PERIOD_NS"
  using jitter_clock.advanced_eq [OF assms] rt_clock.advanced_eq [OF assms]
    ml_clock.advanced_eq [OF assms] jitter_clock.advanced_norm [OF assms] by auto

theorem deadlines_well_formed_witness:
  "\<exists>d. advanced jitter_advance 3 \<lparr>tv_sec = 5, tv_nsec = 998000001\<rparr> = Some d \<and> ts_norm d \<and> nanos d = 6001000001"
  using deadlines_well_formed [of "\<lparr>tv_sec = 5, tv_nsec = 998000001\<rparr>" 3]
  by (auto simp: ts_ok_def nanos_def NSEC_PER_SEC_def PERIOD_NS_def)

end
